(* ===== verification/Prelude.thy ===== *)
theory Prelude
  imports Main "HOL-Library.Monad_Syntax" "HOL-Library.Multiset"
begin

text \<open>
  Shared vocabulary of the development.

  Go's run-time panics (an index out of range, a nil dereference) and \<^verbatim>\<open>log.Fatal\<close>
  end the process.  A function of the source that can end that way is modelled by a
  function into \<open>'a option\<close>, where \<open>None\<close> is the end of the process, and is written
  with the option monad.  Go's \<^verbatim>\<open>int\<close> is modelled by \<open>int\<close> (no computation of the
  modelled code approaches \<open>2 ^ 63\<close>); where the source relies on a width
  (the bit set, the FNV hash) the model uses words of that width.

  The theory holds the Go primitives on slices with their bounds checks, the laws of
  these primitives (collection \<open>go_simps\<close>) and facts on lists and multisets that
  several components use.
\<close>

named_theorems go_simps
named_theorems go_defs

subsection \<open>Slices: indexing and slicing with Go's bounds checks\<close>

definition slice_get :: "'a list \<Rightarrow> int \<Rightarrow> 'a option" where
  "slice_get xs i = (if 0 \<le> i \<and> i < int (length xs) then Some (xs ! nat i) else None)"

definition slice_set :: "'a list \<Rightarrow> int \<Rightarrow> 'a \<Rightarrow> 'a list option" where
  "slice_set xs i v = (if 0 \<le> i \<and> i < int (length xs) then Some (xs[nat i := v]) else None)"

definition slice_to :: "'a list \<Rightarrow> int \<Rightarrow> 'a list option" where
  "slice_to xs k = (if 0 \<le> k \<and> k \<le> int (length xs) then Some (take (nat k) xs) else None)"

definition slice_from :: "'a list \<Rightarrow> int \<Rightarrow> 'a list option" where
  "slice_from xs k = (if 0 \<le> k \<and> k \<le> int (length xs) then Some (drop (nat k) xs) else None)"

lemma slice_get_Some_iff [go_simps]:
  "slice_get xs i = Some x \<longleftrightarrow> 0 \<le> i \<and> i < int (length xs) \<and> x = xs ! nat i"
  by (auto simp: slice_get_def)

lemma slice_get_None_iff [go_simps]:
  "slice_get xs i = None \<longleftrightarrow> i < 0 \<or> int (length xs) \<le> i"
  by (auto simp: slice_get_def)

lemma slice_get_nth [simp]: "i < length xs \<Longrightarrow> slice_get xs (int i) = Some (xs ! i)"
  by (simp add: slice_get_def)

lemma slice_get_in_set: "slice_get xs i = Some x \<Longrightarrow> x \<in> set xs"
  by (auto simp: slice_get_def split: if_splits)

lemma slice_set_Some_iff [go_simps]:
  "slice_set xs i v = Some ys \<longleftrightarrow> 0 \<le> i \<and> i < int (length xs) \<and> ys = xs[nat i := v]"
  by (auto simp: slice_set_def)

lemma slice_set_None_iff [go_simps]:
  "slice_set xs i v = None \<longleftrightarrow> i < 0 \<or> int (length xs) \<le> i"
  by (auto simp: slice_set_def)

lemma slice_set_length: "slice_set xs i v = Some ys \<Longrightarrow> length ys = length xs"
  by (simp add: slice_set_Some_iff)

lemma slice_get_set_same: "slice_set xs i v = Some ys \<Longrightarrow> slice_get ys i = Some v"
  by (auto simp: slice_set_def slice_get_def split: if_splits)

lemma slice_get_set_other:
  "slice_set xs i v = Some ys \<Longrightarrow> i \<noteq> j \<Longrightarrow> slice_get ys j = slice_get xs j"
  by (auto simp: slice_set_def slice_get_def nth_list_update nat_eq_iff split: if_splits)

lemma slice_to_Some_iff [go_simps]:
  "slice_to xs k = Some ys \<longleftrightarrow> 0 \<le> k \<and> k \<le> int (length xs) \<and> ys = take (nat k) xs"
  by (auto simp: slice_to_def)

lemma slice_from_Some_iff [go_simps]:
  "slice_from xs k = Some ys \<longleftrightarrow> 0 \<le> k \<and> k \<le> int (length xs) \<and> ys = drop (nat k) xs"
  by (auto simp: slice_from_def)

lemmas option_bind_simps = bind_eq_Some_conv bind_eq_None_conv

subsection \<open>Lists and multisets\<close>

lemma mset_concat_map_filter_partition:
  assumes "\<And>x. x \<in> set xs \<Longrightarrow> f x < n"
  shows "mset (concat (map (\<lambda>i. filter (\<lambda>x. f x = i) xs) [0..<n])) = mset xs"
  using assms
proof (induction n arbitrary: xs)
  case 0
  then show ?case by (cases xs) auto
next
  case (Suc n)
  have lt: "\<And>x. x \<in> set (filter (\<lambda>x. f x < n) xs) \<Longrightarrow> f x < n" by simp
  have eq: "map (\<lambda>i. filter (\<lambda>x. f x = i) xs) [0..<n]
      = map (\<lambda>i. filter (\<lambda>x. f x = i) (filter (\<lambda>x. f x < n) xs)) [0..<n]"
    by (auto intro!: filter_cong)
  have "mset (concat (map (\<lambda>i. filter (\<lambda>x. f x = i) xs) [0..<n]))
      = mset (filter (\<lambda>x. f x < n) xs)"
    unfolding eq by (rule Suc.IH [OF lt])
  moreover have "filter_mset (\<lambda>x. f x = n) (mset xs) = filter_mset (\<lambda>x. \<not> f x < n) (mset xs)"
  proof (rule filter_mset_cong0)
    fix x assume "x \<in># mset xs"
    then have "f x < Suc n" using Suc.prems by simp
    then show "(f x = n) = (\<not> f x < n)" by auto
  qed
  ultimately show ?case
    by (simp add: multiset_partition [of "mset xs" "\<lambda>x. f x < n", symmetric])
qed

lemma filter_eq_of_sorted_prefix:
  "(\<And>y. y \<in> set ys \<Longrightarrow> \<not> P y) \<Longrightarrow> filter P (xs @ ys) = filter P xs"
  by (simp add: filter_empty_conv)

lemma earlier_in_prefix:
  assumes "X @ a # Y = A @ e # Z" and "distinct (X @ a # Y)" and "e \<in> set Y"
  shows "a \<in> set A"
  using assms by (auto simp: append_eq_append_conv2 append_eq_Cons_conv Cons_eq_append_conv)

lemma those_None_iff: "those xs = None \<longleftrightarrow> None \<in> set xs"
  by (induction xs) (auto split: option.split)

end
