(* ===== verification/Bitset.thy ===== *)
theory Bitset
  imports Prelude "HOL-Library.Word"
begin

unbundle bit_operations_syntax

text \<open>
  \<^verbatim>\<open>src/porcupine/bitset.go\<close>: a set of small numbers as a slice of 64-bit words, the
  record of already linearized operations in the linearizability checker.  The operations
  are total on positions below the capacity and panic above it.  The interface
  \<open>finite_set_store\<close> states what the checker relies on; the interpretation \<open>bs\<close>
  proves it for the word slice.
\<close>

type_synonym bitset = "64 word list"

definition newBitset :: "nat \<Rightarrow> bitset" where
  "newBitset bits =
     (let extra = (if bits mod 64 \<noteq> 0 then 1 else 0);
          chunks = bits div 64 + extra
      in replicate chunks 0)"

definition clone :: "bitset \<Rightarrow> bitset" where
  "clone b = map (\<lambda>v. v) b"

definition bitsetIndex :: "nat \<Rightarrow> nat \<times> nat" where
  "bitsetIndex pos = (pos div 64, pos mod 64)"

definition bitset_set :: "bitset \<Rightarrow> nat \<Rightarrow> bitset option" where
  "bitset_set b pos =
     (let (major, minor) = bitsetIndex pos
      in if major < length b then Some (b[major := (b ! major) OR push_bit minor 1]) else None)"

definition bitset_clear :: "bitset \<Rightarrow> nat \<Rightarrow> bitset option" where
  "bitset_clear b pos =
     (let (major, minor) = bitsetIndex pos
      in if major < length b then Some (b[major := (b ! major) AND NOT (push_bit minor 1)]) else None)"

definition bitset_get :: "bitset \<Rightarrow> nat \<Rightarrow> bool option" where
  "bitset_get b pos =
     (let (major, minor) = bitsetIndex pos
      in if major < length b then Some ((b ! major) AND push_bit minor 1 \<noteq> 0) else None)"

text \<open>\<^verbatim>\<open>bits.OnesCount64\<close> of the standard library: the number of one bits.\<close>

definition OnesCount64 :: "64 word \<Rightarrow> nat" where
  "OnesCount64 v = length (filter (bit v) [0..<64])"

definition popcnt :: "bitset \<Rightarrow> nat" where
  "popcnt b = foldl (\<lambda>total v. total + OnesCount64 v) 0 b"

definition bitset_hash :: "bitset \<Rightarrow> 64 word" where
  "bitset_hash b = foldl (\<lambda>hash v. hash XOR v) (of_nat (popcnt b)) b"

definition bitset_equals :: "bitset \<Rightarrow> bitset \<Rightarrow> bool" where
  "bitset_equals b b2 =
     (if length b \<noteq> length b2 then False
      else list_all (\<lambda>i. b ! i = b2 ! i) [0..<length b])"

subsection \<open>Abstraction to sets of positions\<close>

definition bits_of :: "bitset \<Rightarrow> nat set" where
  "bits_of b = {p. p div 64 < length b \<and> bit (b ! (p div 64)) (p mod 64)}"

lemma bits_of_iff: "p \<in> bits_of b \<longleftrightarrow> p div 64 < length b \<and> bit (b ! (p div 64)) (p mod 64)"
  by (simp add: bits_of_def)

lemma clone_id [simp]: "clone b = b"
  by (simp add: clone_def)

lemma length_newBitset: "n \<le> 64 * length (newBitset n) \<and> 64 * length (newBitset n) < n + 64"
proof -
  have len: "length (newBitset n) = n div 64 + (if n mod 64 \<noteq> 0 then 1 else 0)"
    by (simp add: newBitset_def Let_def)
  have "n = 64 * (n div 64) + n mod 64" and "n mod 64 < 64" by simp_all
  then show ?thesis unfolding len by (auto split: if_split; linarith)
qed

lemma bits_of_newBitset: "bits_of (newBitset n) = {}"
  by (auto simp: bits_of_def newBitset_def Let_def)

lemma position_capacity: "p < 64 * n \<longleftrightarrow> p div 64 < (n::nat)"
  by (simp add: less_mult_imp_div_less div_less_iff_less_mult mult.commute)

lemma same_chunk_eq: "q div 64 = p div 64 \<Longrightarrow> q mod 64 = p mod 64 \<Longrightarrow> q = (p::nat)"
  by (metis div_mult_mod_eq)

lemma bitset_set_Some:
  "p < 64 * length b \<Longrightarrow>
   bitset_set b p = Some (b[p div 64 := (b ! (p div 64)) OR push_bit (p mod 64) 1])"
  by (simp add: bitset_set_def bitsetIndex_def position_capacity)

lemma bitset_clear_Some:
  "p < 64 * length b \<Longrightarrow>
   bitset_clear b p = Some (b[p div 64 := (b ! (p div 64)) AND NOT (push_bit (p mod 64) 1)])"
  by (simp add: bitset_clear_def bitsetIndex_def position_capacity)

lemma bit_single: "bit (push_bit n 1 :: 64 word) m \<longleftrightarrow> m = n \<and> n < 64"
  by (auto simp: bit_push_bit_iff bit_1_iff simp del: push_bit_of_1)

lemma bitset_set_spec:
  assumes "p < 64 * length b"
  shows "\<exists>b'. bitset_set b p = Some b' \<and> length b' = length b \<and> bits_of b' = insert p (bits_of b)"
proof -
  let ?b = "b[p div 64 := (b ! (p div 64)) OR push_bit (p mod 64) 1]"
  have "q \<in> bits_of ?b \<longleftrightarrow> q = p \<or> q \<in> bits_of b" for q
    using assms same_chunk_eq [of q p]
    by (auto simp: bits_of_iff position_capacity nth_list_update bit_or_iff bit_single simp del: push_bit_of_1)
  then show ?thesis using assms by (auto simp: bitset_set_Some)
qed

lemma bitset_clear_spec:
  assumes "p < 64 * length b"
  shows "\<exists>b'. bitset_clear b p = Some b' \<and> length b' = length b \<and> bits_of b' = bits_of b - {p}"
proof -
  let ?b = "b[p div 64 := (b ! (p div 64)) AND NOT (push_bit (p mod 64) 1)]"
  have "q \<in> bits_of ?b \<longleftrightarrow> q \<noteq> p \<and> q \<in> bits_of b" for q
    using assms same_chunk_eq [of q p]
    by (auto simp: bits_of_iff position_capacity nth_list_update bit_and_iff bit_not_iff
        bit_single simp del: push_bit_of_1)
  then show ?thesis using assms by (auto simp: bitset_clear_Some)
qed

lemma bitset_get_spec:
  "p < 64 * length b \<Longrightarrow> bitset_get b p = Some (p \<in> bits_of b)"
proof -
  assume p: "p < 64 * length b"
  have "(v AND push_bit (p mod 64) 1 \<noteq> 0) = bit v (p mod 64)" for v :: "64 word"
    by (auto simp: bit_eq_iff [of _ "0 :: 64 word"] bit_and_iff bit_single simp del: push_bit_of_1)
  with p show ?thesis
    by (simp add: bitset_get_def bitsetIndex_def bits_of_iff position_capacity del: push_bit_of_1)
qed

lemma bitset_out_of_range:
  "64 * length b \<le> p \<Longrightarrow> bitset_set b p = None \<and> bitset_clear b p = None \<and> bitset_get b p = None"
  using position_capacity [of p "length b"]
  by (auto simp: bitset_set_def bitset_clear_def bitset_get_def bitsetIndex_def)

lemma bits_of_bound: "bits_of b \<subseteq> {..<64 * length b}"
  by (auto simp: bits_of_iff position_capacity)

lemma finite_bits_of: "finite (bits_of b)"
  using bits_of_bound finite_subset by blast

lemma bitset_equals_iff: "bitset_equals b b2 \<longleftrightarrow> b = b2"
  unfolding bitset_equals_def list_all_iff using nth_equalityI [of b b2] by auto

lemma bits_of_inj:
  assumes len: "length b = length c" and eq: "bits_of b = bits_of c"
  shows "b = c"
proof (rule nth_equalityI [OF len])
  fix i assume i: "i < length b"
  show "b ! i = c ! i"
  proof (rule bit_eqI)
    fix n assume "possible_bit TYPE(64 word) n"
    then have n: "n < 64" by simp
    then have "(64 * i + n) div 64 = i" and "(64 * i + n) mod 64 = n" by simp_all
    with i len have "64 * i + n \<in> bits_of b \<longleftrightarrow> bit (b ! i) n"
      and "64 * i + n \<in> bits_of c \<longleftrightarrow> bit (c ! i) n"
      by (simp_all add: bits_of_iff)
    with eq show "bit (b ! i) n = bit (c ! i) n" by simp
  qed
qed

lemma bits_of_snoc:
  "bits_of (b @ [v]) = bits_of b \<union> (\<lambda>i. 64 * length b + i) ` {i. bit v i \<and> i < 64}"
proof (rule set_eqI)
  fix q :: nat
  let ?i = "q mod 64"
  have "q div 64 = length b \<Longrightarrow> q = 64 * length b + ?i"
    using mult_div_mod_eq [of 64 q] by simp
  moreover have "(64 * length b + i) div 64 = length b \<and> (64 * length b + i) mod 64 = i"
    if "i < 64" for i using that by simp
  ultimately show "q \<in> bits_of (b @ [v]) \<longleftrightarrow>
      q \<in> bits_of b \<union> (\<lambda>i. 64 * length b + i) ` {i. bit v i \<and> i < 64}"
    by (auto simp: bits_of_iff nth_append less_Suc_eq image_iff intro!: exI [of _ ?i])
qed

lemma OnesCount64_card: "OnesCount64 v = card {i. bit v i \<and> i < 64}"
proof -
  have "set (filter (bit v) [0..<64]) = {i. bit v i \<and> i < 64}" by auto
  then show ?thesis
    unfolding OnesCount64_def by (metis distinct_card distinct_filter distinct_upt)
qed

lemma popcnt_snoc: "popcnt (b @ [v]) = popcnt b + OnesCount64 v"
  by (simp add: popcnt_def)

lemma popcnt_card: "popcnt b = card (bits_of b)"
proof (induction b rule: rev_induct)
  case Nil
  show ?case by (simp add: popcnt_def bits_of_def)
next
  case (snoc v b)
  let ?new = "(\<lambda>i. 64 * length b + i) ` {i. bit v i \<and> i < 64}"
  have "finite ?new" by simp
  moreover have "bits_of b \<inter> ?new = {}" using bits_of_bound [of b] by auto
  ultimately have "card (bits_of (b @ [v])) = card (bits_of b) + card ?new"
    by (simp add: bits_of_snoc finite_bits_of card_Un_disjoint)
  also have "card ?new = OnesCount64 v"
    by (simp add: OnesCount64_card card_image)
  finally show ?case using snoc.IH by (simp add: popcnt_snoc)
qed

subsection \<open>The interface the checker relies on\<close>

locale finite_set_store =
  fixes ins :: "'s \<Rightarrow> nat \<Rightarrow> 's option"
    and del :: "'s \<Rightarrow> nat \<Rightarrow> 's option"
    and same :: "'s \<Rightarrow> 's \<Rightarrow> bool"
    and hash :: "'s \<Rightarrow> 'h"
    and abs :: "'s \<Rightarrow> nat set"
    and cap :: "'s \<Rightarrow> nat"
  assumes ins_spec: "p < cap s \<Longrightarrow> \<exists>t. ins s p = Some t \<and> cap t = cap s \<and> abs t = insert p (abs s)"
    and del_spec: "p < cap s \<Longrightarrow> \<exists>t. del s p = Some t \<and> cap t = cap s \<and> abs t = abs s - {p}"
    and same_iff: "same s t \<longleftrightarrow> cap s = cap t \<and> abs s = abs t"
    and hash_same: "same s t \<Longrightarrow> hash s = hash t"
begin

lemma ins_Some_abs:
  "ins s p = Some t \<Longrightarrow> p < cap s \<Longrightarrow> cap t = cap s \<and> abs t = insert p (abs s)"
  using ins_spec by fastforce

lemma del_Some_abs:
  "del s p = Some t \<Longrightarrow> p < cap s \<Longrightarrow> cap t = cap s \<and> abs t = abs s - {p}"
  using del_spec by fastforce

text \<open>Undoing an insertion restores the store: the step a backtracking search takes.\<close>

lemma del_after_ins:
  assumes "p < cap s" and "p \<notin> abs s" and "ins s p = Some t"
  shows "\<exists>u. del t p = Some u \<and> same u s"
proof -
  from assms have t: "cap t = cap s" "abs t = insert p (abs s)" by (auto dest: ins_Some_abs)
  with assms(1) obtain u where "del t p = Some u" "cap u = cap t" "abs u = abs t - {p}"
    using del_spec [of p t] by auto
  with t assms(2) show ?thesis by (auto simp: same_iff)
qed

text \<open>Two stores that hold the same positions are found in the same hash bucket.\<close>

lemma bucket_of_same: "cap s = cap t \<Longrightarrow> abs s = abs t \<Longrightarrow> hash s = hash t"
  using hash_same same_iff by blast

end

interpretation bs: finite_set_store bitset_set bitset_clear bitset_equals bitset_hash bits_of
  "\<lambda>b. 64 * length b"
proof unfold_locales
  show "bitset_equals s t \<longleftrightarrow> 64 * length s = 64 * length t \<and> bits_of s = bits_of t" for s t
    using bits_of_inj by (auto simp: bitset_equals_iff)
  show "bitset_equals s t \<Longrightarrow> bitset_hash s = bitset_hash t" for s t
    by (simp add: bitset_equals_iff)
qed (use bitset_set_spec bitset_clear_spec in auto)

subsection \<open>Properties\<close>

text \<open>C37: A bit set implements a finite set of positions: below the capacity, setting and clearing a bit
  never panic and are insertion and removal, reading is membership, the population count is the
  cardinality, equality of bit sets of the same capacity is equality of the sets, and equal bit sets
  have the same hash.\<close>

theorem bitset_ops_refine_sets:
  assumes "p < 64 * length b"
  shows "\<exists>b1 b2. bitset_set b p = Some b1 \<and> bitset_clear b p = Some b2
    \<and> length b1 = length b \<and> length b2 = length b
    \<and> bits_of b1 = insert p (bits_of b) \<and> bits_of b2 = bits_of b - {p}
    \<and> bitset_get b p = Some (p \<in> bits_of b) \<and> popcnt b = card (bits_of b)
    \<and> (bitset_equals b c \<longleftrightarrow> length b = length c \<and> bits_of b = bits_of c)
    \<and> (bitset_equals b c \<longrightarrow> bitset_hash b = bitset_hash c)"
  using bs.ins_spec [OF assms] bs.del_spec [OF assms] bitset_get_spec [OF assms] popcnt_card [of b] bits_of_inj [of b c]
  by (auto simp: bitset_equals_iff)

theorem bitset_ops_refine_sets_witness:
  "\<exists>b1 b2. bitset_set (newBitset 70) 65 = Some b1 \<and> bitset_clear (newBitset 70) 65 = Some b2
    \<and> bits_of b1 = insert 65 (bits_of (newBitset 70)) \<and> bits_of b2 = bits_of (newBitset 70) - {65}
    \<and> bitset_get (newBitset 70) 65 = Some (65 \<in> bits_of (newBitset 70))
    \<and> \<not> bitset_equals (newBitset 70) (newBitset 7)"
proof -
  have "65 < 64 * length (newBitset 70)" "length (newBitset 70) \<noteq> length (newBitset 7)"
    by (simp_all add: newBitset_def)
  with bitset_ops_refine_sets [of 65 "newBitset 70" "newBitset 7"] show ?thesis by blast
qed

end
