(* ===== verification/Go_Strings.thy ===== *)
theory Go_Strings
  imports Prelude "HOL-Library.Char_ord" "HOL-Library.List_Lexorder"
begin

text \<open>
  The parts of Go's string library the MapReduce code uses.  A Go string is a sequence of
  bytes, here a list of characters; \<^verbatim>\<open><\<close> on strings is the lexicographic byte order, here the
  order of \<open>List_Lexorder\<close> over \<open>Char_ord\<close>.  The theory holds the decoding of UTF-8 into
  runes that \<^verbatim>\<open>range\<close> over a string performs, \<^verbatim>\<open>strings.FieldsFunc\<close>,
  \<^verbatim>\<open>strings.Join\<close>, \<^verbatim>\<open>strconv.Itoa\<close> with its injectivity, and the replacement of
  invalid UTF-8 that a JSON encoder makes.
\<close>

subsection \<open>Runes\<close>

abbreviation byte_of :: "char \<Rightarrow> nat" where
  "byte_of c \<equiv> of_char c"

definition in_range :: "nat \<Rightarrow> nat \<Rightarrow> char \<Rightarrow> bool" where
  "in_range lo hi c \<longleftrightarrow> lo \<le> byte_of c \<and> byte_of c \<le> hi"

definition cont :: "char \<Rightarrow> bool" where
  "cont c \<longleftrightarrow> in_range 0x80 0xBF c"

definition low6 :: "char \<Rightarrow> nat" where
  "low6 c = byte_of c mod 64"

definition RuneError :: nat where
  "RuneError = 0xFFFD"

text \<open>
  The bounds of the second byte, by the first byte, that exclude overlong forms,
  surrogates and code points above 10FFFF.
\<close>

definition second_ok :: "char \<Rightarrow> char \<Rightarrow> bool" where
  "second_ok b0 b1 =
     (if byte_of b0 = 0xE0 then in_range 0xA0 0xBF b1
      else if byte_of b0 = 0xED then in_range 0x80 0x9F b1
      else if byte_of b0 = 0xF0 then in_range 0x90 0xBF b1
      else if byte_of b0 = 0xF4 then in_range 0x80 0x8F b1
      else cont b1)"

text \<open>The first rune of a string and its width; the width of an invalid byte is 1.\<close>

fun decode_rune :: "string \<Rightarrow> nat \<times> nat" where
  "decode_rune [] = (RuneError, 0)"
| "decode_rune (b0 # bs) =
     (if byte_of b0 < 0x80 then (byte_of b0, 1)
      else if in_range 0xC2 0xDF b0 then
        (case bs of
           b1 # _ \<Rightarrow> if cont b1 then ((byte_of b0 mod 32) * 64 + low6 b1, 2) else (RuneError, 1)
         | _ \<Rightarrow> (RuneError, 1))
      else if in_range 0xE0 0xEF b0 then
        (case bs of
           b1 # b2 # _ \<Rightarrow>
             if second_ok b0 b1 \<and> cont b2
             then ((byte_of b0 mod 16) * 4096 + low6 b1 * 64 + low6 b2, 3) else (RuneError, 1)
         | _ \<Rightarrow> (RuneError, 1))
      else if in_range 0xF0 0xF4 b0 then
        (case bs of
           b1 # b2 # b3 # _ \<Rightarrow>
             if second_ok b0 b1 \<and> cont b2 \<and> cont b3
             then ((byte_of b0 mod 8) * 262144 + low6 b1 * 4096 + low6 b2 * 64 + low6 b3, 4)
             else (RuneError, 1)
         | _ \<Rightarrow> (RuneError, 1))
      else (RuneError, 1))"

lemma decode_rune_width_pos: "s \<noteq> [] \<Longrightarrow> 0 < snd (decode_rune s)"
  by (cases s) (auto split: list.splits)

lemma decode_rune_width_le: "snd (decode_rune s) \<le> length s"
  by (cases s) (auto split: list.splits)

text \<open>The runes of a string, each with the bytes it was decoded from.\<close>

function runes :: "string \<Rightarrow> (nat \<times> string) list" where
  "runes s =
     (if s = [] then []
      else let (r, n) = decode_rune s in (r, take n s) # runes (drop n s))"
  by pat_completeness auto
termination
proof (relation "measure length")
  fix s :: string and x r n
  assume "s \<noteq> []" and "x = decode_rune s" and "(r, n) = x"
  then have "0 < n" using decode_rune_width_pos [of s] by (metis snd_conv)
  with \<open>s \<noteq> []\<close> show "(drop n s, s) \<in> measure length" by simp
qed simp

declare runes.simps [simp del]

lemma runes_Nil [simp]: "runes [] = []"
  by (simp add: runes.simps)

lemma runes_step:
  "s \<noteq> [] \<Longrightarrow> runes s = (fst (decode_rune s), take (snd (decode_rune s)) s)
      # runes (drop (snd (decode_rune s)) s)"
  by (simp add: runes.simps [of s] split_beta Let_def)

lemma runes_induct [case_names Nil step]:
  assumes "P []" and "\<And>s. s \<noteq> [] \<Longrightarrow> P (drop (snd (decode_rune s)) s) \<Longrightarrow> P s"
  shows "P s"
proof (induction s rule: length_induct)
  case (1 s)
  show ?case
  proof (cases "s = []")
    case True
    with assms(1) show ?thesis by simp
  next
    case False
    then have "length (drop (snd (decode_rune s)) s) < length s"
      using decode_rune_width_pos [of s] by simp
    with 1 have "P (drop (snd (decode_rune s)) s)" by blast
    with False show ?thesis by (rule assms(2))
  qed
qed

lemma concat_runes: "concat (map snd (runes s)) = s"
  by (induction s rule: runes_induct) (simp_all add: runes_step)

lemma runes_nonempty_bytes: "(r, bs) \<in> set (runes s) \<Longrightarrow> bs \<noteq> []"
proof (induction s rule: runes_induct)
  case (step s)
  then show ?case using decode_rune_width_pos [of s] by (auto simp: runes_step)
qed simp

lemma runes_ascii_Cons: "byte_of c < 0x80 \<Longrightarrow> runes (c # s) = (byte_of c, [c]) # runes s"
  by (simp add: runes_step)

subsection \<open>strings.FieldsFunc and strings.Join\<close>

fun fields_loop :: "(nat \<Rightarrow> bool) \<Rightarrow> (nat \<times> string) list \<Rightarrow> string option \<Rightarrow> string list" where
  "fields_loop f [] None = []"
| "fields_loop f [] (Some w) = [w]"
| "fields_loop f ((r, bs) # cs) None =
     (if f r then fields_loop f cs None else fields_loop f cs (Some bs))"
| "fields_loop f ((r, bs) # cs) (Some w) =
     (if f r then w # fields_loop f cs None else fields_loop f cs (Some (w @ bs)))"

definition FieldsFunc :: "string \<Rightarrow> (nat \<Rightarrow> bool) \<Rightarrow> string list" where
  "FieldsFunc s f = fields_loop f (runes s) None"

fun Join :: "string list \<Rightarrow> string \<Rightarrow> string" where
  "Join [] sep = ''''"
| "Join [x] sep = x"
| "Join (x # y # xs) sep = x @ sep @ Join (y # xs) sep"

lemma fields_loop_concat:
  "concat (fields_loop f cs cur)
     = (case cur of None \<Rightarrow> '''' | Some w \<Rightarrow> w) @ concat (map snd (filter (\<lambda>(r, bs). \<not> f r) cs))"
  by (induction f cs cur rule: fields_loop.induct) auto

text \<open>The fields hold exactly the bytes of the runes that are not separators, in order.\<close>

lemma FieldsFunc_concat:
  "concat (FieldsFunc s f) = concat (map snd (filter (\<lambda>(r, bs). \<not> f r) (runes s)))"
  by (simp add: FieldsFunc_def fields_loop_concat)

lemma fields_loop_nonempty:
  "(\<forall>(r, bs) \<in> set cs. bs \<noteq> []) \<Longrightarrow> cur \<noteq> Some '''' \<Longrightarrow> '''' \<notin> set (fields_loop f cs cur)"
  by (induction f cs cur rule: fields_loop.induct) auto

lemma FieldsFunc_nonempty: "w \<in> set (FieldsFunc s f) \<Longrightarrow> w \<noteq> ''''"
  using fields_loop_nonempty [of "runes s" None f] runes_nonempty_bytes
  by (fastforce simp: FieldsFunc_def)

subsection \<open>strconv.Itoa and the verb \%d\<close>

definition digit :: "nat \<Rightarrow> char" where
  "digit d = char_of (48 + d)"

fun nat_digits :: "nat \<Rightarrow> string" where
  "nat_digits n = (if n < 10 then [digit n] else nat_digits (n div 10) @ [digit (n mod 10)])"

declare nat_digits.simps [simp del]

definition Itoa :: "int \<Rightarrow> string" where
  "Itoa i = (if i < 0 then CHR ''-'' # nat_digits (nat (- i)) else nat_digits (nat i))"

definition digits_value :: "string \<Rightarrow> nat" where
  "digits_value ds = foldl (\<lambda>v c. 10 * v + (byte_of c - 48)) 0 ds"

lemma byte_of_digit: "d < 10 \<Longrightarrow> byte_of (digit d) = 48 + d"
  by (simp add: digit_def)

lemma digits_value_snoc: "digits_value (ds @ [c]) = 10 * digits_value ds + (byte_of c - 48)"
  by (simp add: digits_value_def)

lemma digits_value_nat_digits: "digits_value (nat_digits n) = n"
proof (induction n rule: nat_digits.induct)
  case (1 n)
  show ?case
  proof (cases "n < 10")
    case True
    then show ?thesis by (simp add: nat_digits.simps [of n] digits_value_def byte_of_digit)
  next
    case False
    with 1 show ?thesis
      by (simp add: nat_digits.simps [of n] digits_value_snoc byte_of_digit)
  qed
qed

lemma nat_digits_inj: "nat_digits m = nat_digits n \<Longrightarrow> m = n"
  by (metis digits_value_nat_digits)

lemma digits_in_nat_digits: "c \<in> set (nat_digits n) \<Longrightarrow> 48 \<le> byte_of c \<and> byte_of c \<le> 57"
proof (induction n rule: nat_digits.induct)
  case (1 n)
  then show ?case
    by (cases "n < 10") (auto simp: nat_digits.simps [of n] byte_of_digit)
qed

lemma dash_notin_nat_digits: "CHR ''-'' \<notin> set (nat_digits n)"
  using digits_in_nat_digits [of "CHR ''-''" n] by auto

lemma dash_nat_digits [simp]: "CHR ''-'' # ds \<noteq> nat_digits n" "nat_digits n \<noteq> CHR ''-'' # ds"
  using dash_notin_nat_digits [of n] by (metis list.set_intros(1))+

lemma Itoa_inj: "Itoa i = Itoa j \<Longrightarrow> i = j"
  by (auto simp: Itoa_def dest!: nat_digits_inj split: if_splits)

lemma Itoa_nonneg: "0 \<le> i \<Longrightarrow> Itoa i = nat_digits (nat i)"
  by (simp add: Itoa_def)

lemma Itoa_samples: "Itoa 1 = ''1''" "Itoa 2 = ''2''"
  by code_simp+

text \<open>Two fields joined by a separator that the first field does not hold determine both.\<close>

lemma append_sep_inj:
  assumes "sep \<notin> set a" and "sep \<notin> set b" and "a @ sep # x = b @ sep # y"
  shows "a = b \<and> x = y"
  using assms
proof (induction a arbitrary: b)
  case Nil
  then show ?case by (cases b) auto
next
  case (Cons c a)
  then show ?case by (cases b) auto
qed

subsection \<open>What a JSON encoder writes for a string\<close>

text \<open>
  \<^verbatim>\<open>encoding/json\<close> escapes a string so that decoding gives it back, but for bytes that are
  not valid UTF-8, which it replaces by U+FFFD.
\<close>

definition json_string :: "string \<Rightarrow> string" where
  "json_string s =
     concat (map (\<lambda>(r, bs). if r = RuneError \<and> length bs = 1
                            then [char_of (0xEF::nat), char_of (0xBF::nat), char_of (0xBD::nat)] else bs) (runes s))"

definition valid_utf8 :: "string \<Rightarrow> bool" where
  "valid_utf8 s \<longleftrightarrow> list_all (\<lambda>(r, bs). \<not> (r = RuneError \<and> length bs = 1)) (runes s)"

lemma json_string_valid: "valid_utf8 s \<Longrightarrow> json_string s = s"
proof -
  assume "valid_utf8 s"
  then have "map (\<lambda>(r, bs). if r = RuneError \<and> length bs = 1
      then [char_of (0xEF::nat), char_of (0xBF::nat), char_of (0xBD::nat)] else bs) (runes s)
    = map snd (runes s)"
    by (auto simp: valid_utf8_def list_all_iff)
  then show ?thesis by (simp only: json_string_def concat_runes)
qed

end
