(* ===== verification/Mr_Types.thy ===== *)
theory Mr_Types
  imports Prelude
begin

text \<open>
  The data of the MapReduce system: \<^verbatim>\<open>src/mr/utils.go\<close> (tasks and machines),
  \<^verbatim>\<open>src/mr/rpc.go\<close> (arguments and replies of the coordinator's RPCs) and the
  \<^verbatim>\<open>KeyValue\<close> and \<^verbatim>\<open>Coordinator\<close> structs.  Times are counts of nanoseconds.
\<close>

record KeyValue =
  Key :: string
  Value :: string

record Task =
  t_id :: int
  t_key :: string
  t_class :: string
  t_status :: string
  t_AssignedWorker :: int

record ReduceTask =
  r_id :: int
  r_key :: string
  r_class :: string
  r_status :: string
  r_AssignedWorker :: int

record Machine =
  m_id :: int
  m_class :: string
  m_status :: string
  m_Lastime :: int
  m_IsAlive :: bool
  m_CompleteTasks :: "Task list"

record Reply =
  rep_Res :: int
  rep_Status :: string
  rep_NReduce :: int

record HeartbeatMessage =
  hb_WorkerID :: int
  hb_Timestamp :: int

record WorkerInfo =
  wi_WorkerID :: int

record WorkerCompleteTask =
  wct_WorkerID :: int
  wct_TaskID :: int
  wct_Class :: string

text \<open>
  The field \<^verbatim>\<open>Workers []byte\<close> of a reply carries the JSON text that
  \<^verbatim>\<open>json.Marshal\<close> makes of a slice of worker numbers; it is nil in the reply of a map task.
\<close>

datatype workers_json = NilBytes | JsonNull | JsonInts "int list"

definition json_Marshal_ints :: "int list \<Rightarrow> workers_json" where
  "json_Marshal_ints ws = (if ws = [] then JsonNull else JsonInts ws)"

record TaskInfo =
  TaskID :: int
  Class :: string
  ti_Key :: string
  Workers :: workers_json

definition zero_TaskInfo :: TaskInfo where
  "zero_TaskInfo = \<lparr>TaskID = 0, Class = '''', ti_Key = '''', Workers = NilBytes\<rparr>"

text \<open>The coordinator, with the package variable \<^verbatim>\<open>MachinesNumber\<close> of its process.\<close>

record Coordinator =
  tasks :: "Task list"
  rtasks :: "ReduceTask list"
  machines :: "Machine list"
  c_nReduce :: int
  MachinesNumber :: int

end
