(* ===== verification/Coordinator.thy ===== *)
theory Coordinator
  imports Mr_Types
begin

text \<open>
  \<^verbatim>\<open>src/mr/coordinator.go\<close>.  Each RPC handler is a function on the coordinator's state;
  \<open>None\<close> is an index out of range, which ends the process.  \<^verbatim>\<open>AssignTask\<close> takes the
  mutex three times, so it is given both as a whole and as its critical sections, which
  the step relation \<open>coord_step\<close> interleaves with the other handlers.  \<^verbatim>\<open>MapDone\<close>
  collects worker numbers in a Go map, whose iteration order is not specified: the
  order is the argument \<open>ord\<close>.
\<close>

subsection \<open>Handlers\<close>

definition timeoutDuration :: int where
  "timeoutDuration = 200 * 1000000"

definition Register :: "int \<Rightarrow> Coordinator \<Rightarrow> Coordinator \<times> Reply" where
  "Register now c =
     (let NewMachine = \<lparr>m_id = MachinesNumber c, m_class = '''', m_status = ''busy'',
                        m_Lastime = now, m_IsAlive = True, m_CompleteTasks = []\<rparr>;
          c' = c\<lparr>machines := machines c @ [NewMachine], MachinesNumber := MachinesNumber c + 1\<rparr>
      in (c', \<lparr>rep_Res = m_id NewMachine, rep_Status = m_status NewMachine,
              rep_NReduce = c_nReduce c'\<rparr>))"

definition ReceiveHeartbeat :: "HeartbeatMessage \<Rightarrow> Coordinator \<Rightarrow> Coordinator option" where
  "ReceiveHeartbeat args c = do {
     m \<leftarrow> slice_get (machines c) (hb_WorkerID args);
     ms \<leftarrow> slice_set (machines c) (hb_WorkerID args) (m\<lparr>m_Lastime := hb_Timestamp args\<rparr>);
     Some (c\<lparr>machines := ms\<rparr>)
   }"

definition alive_worker :: "Machine list \<Rightarrow> int \<Rightarrow> bool option" where
  "alive_worker ms w = do { m \<leftarrow> slice_get ms w; Some (m_IsAlive m) }"

fun MapDone_loop :: "Machine list \<Rightarrow> Task list \<Rightarrow> int list \<Rightarrow> (bool \<times> int list) option" where
  "MapDone_loop ms [] mp = Some (True, mp)"
| "MapDone_loop ms (t # ts) mp =
     (if t_status t = ''completed'' then do {
        a \<leftarrow> alive_worker ms (t_AssignedWorker t);
        (if a then MapDone_loop ms ts (List.insert (t_AssignedWorker t) mp)
         else Some (False, []))
      } else Some (False, []))"

definition MapDone :: "(int list \<Rightarrow> int list) \<Rightarrow> Coordinator \<Rightarrow> (bool \<times> int list) option" where
  "MapDone ord c = do {
     (done, mp) \<leftarrow> MapDone_loop (machines c) (tasks c) [];
     Some (done, if done then ord mp else [])
   }"

definition ReduceDone :: "Coordinator \<Rightarrow> bool" where
  "ReduceDone c = list_all (\<lambda>rt. r_status rt = ''completed'') (rtasks c)"

text \<open>The two guards with \<^verbatim>\<open>continue\<close> at the head of the map loop and of the reduce loop.\<close>

definition map_skip :: "Machine list \<Rightarrow> Task \<Rightarrow> bool option" where
  "map_skip ms t =
     (if t_status t = ''processing'' then alive_worker ms (t_AssignedWorker t)
      else if t_status t = ''completed'' then alive_worker ms (t_AssignedWorker t)
      else Some False)"

definition reduce_skip :: "Machine list \<Rightarrow> ReduceTask \<Rightarrow> bool option" where
  "reduce_skip ms rt =
     (if r_status rt = ''completed'' then Some True
      else if r_status rt = ''processing'' then alive_worker ms (r_AssignedWorker rt)
      else Some False)"

fun assign_map_loop ::
  "Machine list \<Rightarrow> int \<Rightarrow> Task list \<Rightarrow> TaskInfo \<Rightarrow> (Task list \<times> TaskInfo) option" where
  "assign_map_loop ms w [] reply = Some ([], reply)"
| "assign_map_loop ms w (t # ts) reply = do {
     skip \<leftarrow> map_skip ms t;
     (if skip then do {
        (ts', reply') \<leftarrow> assign_map_loop ms w ts reply;
        Some (t # ts', reply')
      } else
        Some (t\<lparr>t_status := ''processing'', t_AssignedWorker := w\<rparr> # ts,
              reply\<lparr>TaskID := t_id t, Class := t_class t, ti_Key := t_key t\<rparr>))
   }"

fun assign_reduce_loop ::
  "Machine list \<Rightarrow> int \<Rightarrow> int list \<Rightarrow> ReduceTask list \<Rightarrow> TaskInfo \<Rightarrow> (ReduceTask list \<times> TaskInfo) option"
where
  "assign_reduce_loop ms w workers [] reply = Some ([], reply)"
| "assign_reduce_loop ms w workers (t # ts) reply = do {
     skip \<leftarrow> reduce_skip ms t;
     (if skip then do {
        (ts', reply') \<leftarrow> assign_reduce_loop ms w workers ts reply;
        Some (t # ts', reply')
      } else
        Some (t\<lparr>r_status := ''processing'', r_AssignedWorker := w\<rparr> # ts,
              reply\<lparr>TaskID := r_id t, Class := ''reduce'', Workers := json_Marshal_ints workers\<rparr>))
   }"

definition AssignTask_map :: "WorkerInfo \<Rightarrow> Coordinator \<Rightarrow> (Coordinator \<times> TaskInfo) option" where
  "AssignTask_map args c = do {
     (ts, reply) \<leftarrow> assign_map_loop (machines c) (wi_WorkerID args) (tasks c) zero_TaskInfo;
     Some (c\<lparr>tasks := ts\<rparr>, reply)
   }"

definition AssignTask_reduce ::
  "WorkerInfo \<Rightarrow> int list \<Rightarrow> Coordinator \<Rightarrow> (Coordinator \<times> TaskInfo) option" where
  "AssignTask_reduce args workers c = do {
     (ts, reply) \<leftarrow>
       assign_reduce_loop (machines c) (wi_WorkerID args) workers (rtasks c) zero_TaskInfo;
     Some (c\<lparr>rtasks := ts\<rparr>, reply)
   }"

definition AssignTask ::
  "(int list \<Rightarrow> int list) \<Rightarrow> WorkerInfo \<Rightarrow> Coordinator \<Rightarrow> (Coordinator \<times> TaskInfo) option" where
  "AssignTask ord args c = do {
     (done, workers) \<leftarrow> MapDone ord c;
     (if \<not> done then AssignTask_map args c
      else if \<not> ReduceDone c then AssignTask_reduce args workers c
      else Some (c, zero_TaskInfo))
   }"

definition CompleteTask :: "WorkerCompleteTask \<Rightarrow> Coordinator \<Rightarrow> Coordinator option" where
  "CompleteTask args c =
     (let taskID = wct_TaskID args; taskClass = wct_Class args; workerID = wct_WorkerID args in
      if taskClass = ''map'' then do {
        t \<leftarrow> slice_get (tasks c) taskID;
        ts \<leftarrow> slice_set (tasks c) taskID (t\<lparr>t_status := ''completed'', t_AssignedWorker := workerID\<rparr>);
        Some (c\<lparr>tasks := ts\<rparr>)
      } else if taskClass = ''reduce'' then do {
        t \<leftarrow> slice_get (rtasks c) taskID;
        ts \<leftarrow> slice_set (rtasks c) taskID (t\<lparr>r_status := ''completed'', r_AssignedWorker := workerID\<rparr>);
        Some (c\<lparr>rtasks := ts\<rparr>)
      } else Some c)"

definition Done :: "Coordinator \<Rightarrow> bool" where
  "Done c = (if ReduceDone c then True else False)"

text \<open>One round of the endless loop of \<^verbatim>\<open>CheckAliveMachine\<close>.\<close>

definition CheckAliveMachine_round :: "int \<Rightarrow> Coordinator \<Rightarrow> Coordinator" where
  "CheckAliveMachine_round CurrentTimestamp c =
     c\<lparr>machines := map (\<lambda>m.
         if CurrentTimestamp - m_Lastime m > timeoutDuration \<and> m_IsAlive m
         then m\<lparr>m_IsAlive := False\<rparr> else m) (machines c)\<rparr>"

text \<open>
  \<^verbatim>\<open>MakeCoordinator\<close> loops over \<^verbatim>\<open>os.Args[1:]\<close>, here \<open>osArgs\<close>, and does not look at its
  argument \<open>files\<close>.
\<close>

fun make_tasks :: "int \<Rightarrow> string list \<Rightarrow> Task list" where
  "make_tasks cnt [] = []"
| "make_tasks cnt (filename # fs) =
     \<lparr>t_id = cnt, t_key = filename, t_class = ''map'', t_status = ''idle'', t_AssignedWorker = 0\<rparr>
       # make_tasks (cnt + 1) fs"

definition make_rtask :: "nat \<Rightarrow> ReduceTask" where
  "make_rtask i = \<lparr>r_id = int i, r_key = '''', r_class = ''reduce'', r_status = ''idle'',
                   r_AssignedWorker = 0\<rparr>"

definition MakeCoordinator :: "string list \<Rightarrow> string list \<Rightarrow> int \<Rightarrow> Coordinator" where
  "MakeCoordinator osArgs files nReduce =
     \<lparr>tasks = make_tasks 0 osArgs, rtasks = map make_rtask [0..<nat nReduce],
      machines = [], c_nReduce = nReduce, MachinesNumber = 0\<rparr>"

subsection \<open>Interleaving of the handlers\<close>

text \<open>
  \<^verbatim>\<open>net/rpc\<close> runs every request in its own goroutine.  \<open>in_flight\<close> holds the calls of
  \<^verbatim>\<open>AssignTask\<close> that have left \<^verbatim>\<open>MapDone\<close>, each with its worker and the section it
  enters next; requests come from registered workers and name existing tasks.
\<close>

datatype assign_pc = PcMap | PcReduceDone "int list" | PcReduce "int list"

record coord_sys =
  coord :: Coordinator
  in_flight :: "(int \<times> assign_pc) multiset"

definition registered :: "Machine list \<Rightarrow> int \<Rightarrow> bool" where
  "registered ms w \<longleftrightarrow> 0 \<le> w \<and> w < int (length ms)"

definition task_exists :: "Coordinator \<Rightarrow> WorkerCompleteTask \<Rightarrow> bool" where
  "task_exists c args \<longleftrightarrow>
     (wct_Class args = ''map'' \<longrightarrow> 0 \<le> wct_TaskID args \<and> wct_TaskID args < int (length (tasks c))) \<and>
     (wct_Class args = ''reduce'' \<longrightarrow> 0 \<le> wct_TaskID args \<and> wct_TaskID args < int (length (rtasks c)))"

inductive coord_step :: "coord_sys \<Rightarrow> coord_sys \<Rightarrow> bool" where
  register: "Register now (coord s) = (c, rep) \<Longrightarrow> coord_step s (s\<lparr>coord := c\<rparr>)"
| heartbeat: "registered (machines (coord s)) (hb_WorkerID args) \<Longrightarrow>
    ReceiveHeartbeat args (coord s) = Some c \<Longrightarrow> coord_step s (s\<lparr>coord := c\<rparr>)"
| check_alive: "coord_step s (s\<lparr>coord := CheckAliveMachine_round now (coord s)\<rparr>)"
| complete: "registered (machines (coord s)) (wct_WorkerID args) \<Longrightarrow> task_exists (coord s) args \<Longrightarrow>
    CompleteTask args (coord s) = Some c \<Longrightarrow> coord_step s (s\<lparr>coord := c\<rparr>)"
| map_not_done: "registered (machines (coord s)) w \<Longrightarrow> MapDone ord (coord s) = Some (False, ws) \<Longrightarrow>
    coord_step s (s\<lparr>in_flight := add_mset (w, PcMap) (in_flight s)\<rparr>)"
| map_done: "registered (machines (coord s)) w \<Longrightarrow> MapDone ord (coord s) = Some (True, ws) \<Longrightarrow>
    coord_step s (s\<lparr>in_flight := add_mset (w, PcReduceDone ws) (in_flight s)\<rparr>)"
| assign_map: "in_flight s = add_mset (w, PcMap) rest \<Longrightarrow>
    AssignTask_map \<lparr>wi_WorkerID = w\<rparr> (coord s) = Some (c, reply) \<Longrightarrow>
    coord_step s (s\<lparr>coord := c, in_flight := rest\<rparr>)"
| all_done: "in_flight s = add_mset (w, PcReduceDone ws) rest \<Longrightarrow> ReduceDone (coord s) \<Longrightarrow>
    coord_step s (s\<lparr>in_flight := rest\<rparr>)"
| reduce_not_done: "in_flight s = add_mset (w, PcReduceDone ws) rest \<Longrightarrow> \<not> ReduceDone (coord s) \<Longrightarrow>
    coord_step s (s\<lparr>in_flight := add_mset (w, PcReduce ws) rest\<rparr>)"
| assign_reduce: "in_flight s = add_mset (w, PcReduce ws) rest \<Longrightarrow>
    AssignTask_reduce \<lparr>wi_WorkerID = w\<rparr> ws (coord s) = Some (c, reply) \<Longrightarrow>
    coord_step s (s\<lparr>coord := c, in_flight := rest\<rparr>)"

inductive coord_reach :: "coord_sys \<Rightarrow> bool" where
  init: "coord_reach \<lparr>coord = MakeCoordinator osArgs files nReduce, in_flight = {#}\<rparr>"
| step: "coord_reach s \<Longrightarrow> coord_step s t \<Longrightarrow> coord_reach t"

subsection \<open>Invariant\<close>

definition task_ok :: "Machine list \<Rightarrow> Task \<Rightarrow> bool" where
  "task_ok ms t \<longleftrightarrow> t_class t = ''map'' \<and>
     t_status t \<in> {''idle'', ''processing'', ''completed''} \<and>
     (t_status t \<noteq> ''idle'' \<longrightarrow> registered ms (t_AssignedWorker t))"

definition rtask_ok :: "Machine list \<Rightarrow> ReduceTask \<Rightarrow> bool" where
  "rtask_ok ms t \<longleftrightarrow> r_class t = ''reduce'' \<and>
     r_status t \<in> {''idle'', ''processing'', ''completed''} \<and>
     (r_status t \<noteq> ''idle'' \<longrightarrow> registered ms (r_AssignedWorker t))"

definition coord_inv :: "Coordinator \<Rightarrow> bool" where
  "coord_inv c \<longleftrightarrow>
     MachinesNumber c = int (length (machines c)) \<and>
     map m_id (machines c) = map int [0..<length (machines c)] \<and>
     map t_id (tasks c) = map int [0..<length (tasks c)] \<and>
     map r_id (rtasks c) = map int [0..<length (rtasks c)] \<and>
     length (rtasks c) = nat (c_nReduce c) \<and>
     (\<forall>t \<in> set (tasks c). task_ok (machines c) t) \<and>
     (\<forall>t \<in> set (rtasks c). rtask_ok (machines c) t)"

definition sys_inv :: "coord_sys \<Rightarrow> bool" where
  "sys_inv s \<longleftrightarrow> coord_inv (coord s) \<and> (\<forall>(w, pc) \<in># in_flight s. registered (machines (coord s)) w)"

definition is_alive :: "Machine list \<Rightarrow> int \<Rightarrow> bool" where
  "is_alive ms w \<longleftrightarrow> registered ms w \<and> m_IsAlive (ms ! nat w)"

definition map_available :: "Machine list \<Rightarrow> Task \<Rightarrow> bool" where
  "map_available ms t \<longleftrightarrow> t_status t = ''idle'' \<or> \<not> is_alive ms (t_AssignedWorker t)"

definition reduce_available :: "Machine list \<Rightarrow> ReduceTask \<Rightarrow> bool" where
  "reduce_available ms t \<longleftrightarrow>
     r_status t = ''idle'' \<or> r_status t = ''processing'' \<and> \<not> is_alive ms (r_AssignedWorker t)"

lemma alive_worker_registered: "registered ms w \<Longrightarrow> alive_worker ms w = Some (is_alive ms w)"
  by (auto simp: alive_worker_def slice_get_def registered_def is_alive_def)

lemma map_skip_ok: "task_ok ms t \<Longrightarrow> map_skip ms t = Some (\<not> map_available ms t)"
  by (auto simp: map_skip_def task_ok_def map_available_def alive_worker_registered)

lemma reduce_skip_ok: "rtask_ok ms t \<Longrightarrow> reduce_skip ms t = Some (\<not> reduce_available ms t)"
  by (auto simp: reduce_skip_def rtask_ok_def reduce_available_def alive_worker_registered)

subsection \<open>The loops of AssignTask and MapDone\<close>

lemma assign_map_loop_none:
  "\<forall>t \<in> set ts. task_ok ms t \<and> \<not> map_available ms t \<Longrightarrow> assign_map_loop ms w ts reply = Some (ts, reply)"
  by (induction ts) (auto simp: map_skip_ok)

lemma assign_map_loop_first:
  "\<forall>t \<in> set pre. task_ok ms t \<and> \<not> map_available ms t \<Longrightarrow> task_ok ms t \<Longrightarrow> map_available ms t \<Longrightarrow>
   assign_map_loop ms w (pre @ t # post) reply =
     Some (pre @ t\<lparr>t_status := ''processing'', t_AssignedWorker := w\<rparr> # post,
           reply\<lparr>TaskID := t_id t, Class := t_class t, ti_Key := t_key t\<rparr>)"
  by (induction pre) (auto simp: map_skip_ok)

lemma assign_reduce_loop_none:
  "\<forall>t \<in> set ts. rtask_ok ms t \<and> \<not> reduce_available ms t \<Longrightarrow>
   assign_reduce_loop ms w ws ts reply = Some (ts, reply)"
  by (induction ts) (auto simp: reduce_skip_ok)

lemma assign_reduce_loop_first:
  "\<forall>t \<in> set pre. rtask_ok ms t \<and> \<not> reduce_available ms t \<Longrightarrow> rtask_ok ms t \<Longrightarrow>
   reduce_available ms t \<Longrightarrow>
   assign_reduce_loop ms w ws (pre @ t # post) reply =
     Some (pre @ t\<lparr>r_status := ''processing'', r_AssignedWorker := w\<rparr> # post,
           reply\<lparr>TaskID := r_id t, Class := ''reduce'', Workers := json_Marshal_ints ws\<rparr>)"
  by (induction pre) (auto simp: reduce_skip_ok)

text \<open>Every call of the loops hands out the first available task, or none when there is none.\<close>

lemma assign_map_loop_cases:
  assumes ok: "\<forall>t \<in> set ts. task_ok ms t"
  obtains (none) "\<forall>t \<in> set ts. \<not> map_available ms t"
      "assign_map_loop ms w ts reply = Some (ts, reply)"
  | (first) pre t post where "ts = pre @ t # post" "\<forall>u \<in> set pre. \<not> map_available ms u"
      "map_available ms t"
      "assign_map_loop ms w ts reply =
        Some (pre @ t\<lparr>t_status := ''processing'', t_AssignedWorker := w\<rparr> # post,
              reply\<lparr>TaskID := t_id t, Class := t_class t, ti_Key := t_key t\<rparr>)"
proof (cases "\<exists>t \<in> set ts. map_available ms t")
  case True
  then obtain pre t post where "ts = pre @ t # post" "map_available ms t"
    "\<forall>u \<in> set pre. \<not> map_available ms u"
    by (rule split_list_first_propE)
  with ok first show ?thesis by (simp add: assign_map_loop_first)
next
  case False
  with ok none show ?thesis by (simp add: assign_map_loop_none)
qed

lemma assign_reduce_loop_cases:
  assumes ok: "\<forall>t \<in> set ts. rtask_ok ms t"
  obtains (none) "\<forall>t \<in> set ts. \<not> reduce_available ms t"
      "assign_reduce_loop ms w ws ts reply = Some (ts, reply)"
  | (first) pre t post where "ts = pre @ t # post" "\<forall>u \<in> set pre. \<not> reduce_available ms u"
      "reduce_available ms t"
      "assign_reduce_loop ms w ws ts reply =
        Some (pre @ t\<lparr>r_status := ''processing'', r_AssignedWorker := w\<rparr> # post,
              reply\<lparr>TaskID := r_id t, Class := ''reduce'', Workers := json_Marshal_ints ws\<rparr>)"
proof (cases "\<exists>t \<in> set ts. reduce_available ms t")
  case True
  then obtain pre t post where "ts = pre @ t # post" "reduce_available ms t"
    "\<forall>u \<in> set pre. \<not> reduce_available ms u"
    by (rule split_list_first_propE)
  with ok first show ?thesis by (simp add: assign_reduce_loop_first)
next
  case False
  with ok none show ?thesis by (simp add: assign_reduce_loop_none)
qed

definition map_task_done :: "Machine list \<Rightarrow> Task \<Rightarrow> bool" where
  "map_task_done ms t \<longleftrightarrow> t_status t = ''completed'' \<and> is_alive ms (t_AssignedWorker t)"

lemma MapDone_loop_ok:
  assumes "\<forall>t \<in> set ts. task_ok ms t"
  shows "\<exists>mp'. MapDone_loop ms ts mp = Some (\<forall>t \<in> set ts. map_task_done ms t, mp') \<and>
    ((\<forall>t \<in> set ts. map_task_done ms t) \<longrightarrow>
      set mp' = set mp \<union> t_AssignedWorker ` set ts \<and> (distinct mp \<longrightarrow> distinct mp'))"
  using assms
proof (induction ts arbitrary: mp)
  case (Cons t ts)
  show ?case
  proof (cases "map_task_done ms t")
    case True
    with Cons.prems Cons.IH [of "List.insert (t_AssignedWorker t) mp"] show ?thesis
      by (auto simp: map_task_done_def task_ok_def alive_worker_registered is_alive_def)
  next
    case False
    with Cons.prems show ?thesis
      by (auto simp: map_task_done_def task_ok_def alive_worker_registered)
  qed
qed simp

definition all_maps_done :: "Coordinator \<Rightarrow> bool" where
  "all_maps_done c \<longleftrightarrow> (\<forall>t \<in> set (tasks c). map_task_done (machines c) t)"

lemma MapDone_ok:
  assumes "coord_inv c"
  shows "\<exists>mp. MapDone ord c = Some (all_maps_done c, if all_maps_done c then ord mp else [])
    \<and> (all_maps_done c \<longrightarrow> set mp = t_AssignedWorker ` set (tasks c) \<and> distinct mp)"
proof -
  from assms have "\<forall>t \<in> set (tasks c). task_ok (machines c) t" by (simp add: coord_inv_def)
  from MapDone_loop_ok [OF this, of "[]"] obtain mp where
    "MapDone_loop (machines c) (tasks c) [] = Some (all_maps_done c, mp)"
    "all_maps_done c \<longrightarrow> set mp = t_AssignedWorker ` set (tasks c) \<and> distinct mp"
    by (auto simp: all_maps_done_def)
  then show ?thesis by (intro exI [of _ mp]) (simp add: MapDone_def)
qed

subsection \<open>Every handler keeps the invariant and returns\<close>

lemma registered_mono: "registered ms w \<Longrightarrow> length ms \<le> length ms' \<Longrightarrow> registered ms' w"
  by (simp add: registered_def)

lemma task_ok_mono: "task_ok ms t \<Longrightarrow> length ms \<le> length ms' \<Longrightarrow> task_ok ms' t"
  by (auto simp: task_ok_def intro: registered_mono)

lemma rtask_ok_mono: "rtask_ok ms t \<Longrightarrow> length ms \<le> length ms' \<Longrightarrow> rtask_ok ms' t"
  by (auto simp: rtask_ok_def intro: registered_mono)

lemma map_update_same: "i < length xs \<Longrightarrow> f v = f (xs ! i) \<Longrightarrow> map f (xs[i := v]) = map f xs"
  by (simp add: map_update list_update_same_conv)

lemma set_update_ok: "\<forall>x \<in> set xs. P x \<Longrightarrow> P v \<Longrightarrow> \<forall>x \<in> set (xs[i := v]). P x"
  using set_update_subset_insert [of xs i v] by auto

lemma coord_inv_tasks:
  assumes "coord_inv c" and "map t_id ts = map t_id (tasks c)"
    and "\<forall>t \<in> set ts. task_ok (machines c) t"
  shows "coord_inv (c\<lparr>tasks := ts\<rparr>)"
  using assms map_eq_imp_length_eq [OF assms(2)] by (simp add: coord_inv_def)

lemma coord_inv_rtasks:
  assumes "coord_inv c" and "map r_id ts = map r_id (rtasks c)"
    and "\<forall>t \<in> set ts. rtask_ok (machines c) t"
  shows "coord_inv (c\<lparr>rtasks := ts\<rparr>)"
  using assms map_eq_imp_length_eq [OF assms(2)] by (simp add: coord_inv_def)

lemma make_tasks_ids: "map t_id (make_tasks cnt fs) = map (\<lambda>i. cnt + int i) [0..<length fs]"
proof (induction fs arbitrary: cnt)
  case (Cons f fs)
  have "map (\<lambda>i. cnt + int i) [0..<length (f # fs)] =
      cnt # map (\<lambda>i. cnt + int (Suc i)) [0..<length fs]"
    by (simp add: upt_conv_Cons map_Suc_upt [symmetric] del: upt_Suc)
  with Cons show ?case by (simp add: add.assoc)
qed simp

lemma make_tasks_length [simp]: "length (make_tasks cnt fs) = length fs"
  by (induction fs arbitrary: cnt) auto

lemma make_tasks_ok: "t \<in> set (make_tasks cnt fs) \<Longrightarrow> task_ok ms t \<and> t_status t = ''idle''"
  by (induction fs arbitrary: cnt) (auto simp: task_ok_def)

lemma MakeCoordinator_inv: "coord_inv (MakeCoordinator osArgs files n)"
  using make_tasks_ok
  by (auto simp: coord_inv_def MakeCoordinator_def make_tasks_ids make_rtask_def rtask_ok_def)

lemma Register_inv: "coord_inv c \<Longrightarrow> coord_inv (fst (Register now c))"
  by (auto simp: coord_inv_def Register_def Let_def intro: task_ok_mono rtask_ok_mono)

lemma ReceiveHeartbeat_inv:
  assumes "coord_inv c" and "registered (machines c) (hb_WorkerID args)"
  shows "\<exists>c'. ReceiveHeartbeat args c = Some c' \<and> coord_inv c'"
  using assms
  by (auto simp: ReceiveHeartbeat_def slice_get_def slice_set_def registered_def coord_inv_def
      map_update_same intro: task_ok_mono rtask_ok_mono)

lemma CheckAlive_inv: "coord_inv c \<Longrightarrow> coord_inv (CheckAliveMachine_round now c)"
proof -
  assume inv: "coord_inv c"
  have "m_id \<circ> (\<lambda>m :: Machine. if timeoutDuration < now - m_Lastime m \<and> m_IsAlive m
      then m\<lparr>m_IsAlive := False\<rparr> else m) = m_id"
    by (rule ext) simp
  with inv show ?thesis
    unfolding coord_inv_def CheckAliveMachine_round_def
    by (auto intro: task_ok_mono rtask_ok_mono)
qed

text \<open>The state a completion report leaves.\<close>

lemma CompleteTask_map_eq:
  assumes "task_exists c args" and "wct_Class args = ''map''"
  shows "CompleteTask args c = Some (c\<lparr>tasks := (tasks c)[nat (wct_TaskID args) :=
    (tasks c ! nat (wct_TaskID args))\<lparr>t_status := ''completed'', t_AssignedWorker := wct_WorkerID args\<rparr>]\<rparr>)"
  using assms by (simp add: CompleteTask_def Let_def task_exists_def slice_get_def slice_set_def)

lemma CompleteTask_reduce_eq:
  assumes "task_exists c args" and "wct_Class args = ''reduce''"
  shows "CompleteTask args c = Some (c\<lparr>rtasks := (rtasks c)[nat (wct_TaskID args) :=
    (rtasks c ! nat (wct_TaskID args))\<lparr>r_status := ''completed'', r_AssignedWorker := wct_WorkerID args\<rparr>]\<rparr>)"
  using assms by (simp add: CompleteTask_def Let_def task_exists_def slice_get_def slice_set_def)

lemma CompleteTask_inv:
  assumes "coord_inv c" and "registered (machines c) (wct_WorkerID args)" and "task_exists c args"
  shows "\<exists>c'. CompleteTask args c = Some c' \<and> coord_inv c' \<and> machines c' = machines c"
proof -
  let ?i = "nat (wct_TaskID args)"
  consider "wct_Class args = ''map''" | "wct_Class args = ''reduce''"
    | "wct_Class args \<noteq> ''map''" "wct_Class args \<noteq> ''reduce''" by blast
  then show ?thesis
  proof cases
    case 1
    with assms have "?i < length (tasks c)" by (auto simp: task_exists_def)
    with assms have "task_ok (machines c) ((tasks c ! ?i)
        \<lparr>t_status := ''completed'', t_AssignedWorker := wct_WorkerID args\<rparr>)"
      by (auto simp: coord_inv_def task_ok_def)
    with assms have "\<forall>u \<in> set ((tasks c)[?i := (tasks c ! ?i)
        \<lparr>t_status := ''completed'', t_AssignedWorker := wct_WorkerID args\<rparr>]). task_ok (machines c) u"
      by (intro set_update_ok) (simp_all add: coord_inv_def)
    with assms \<open>?i < length (tasks c)\<close> show ?thesis
      by (simp add: CompleteTask_map_eq 1 coord_inv_tasks map_update_same)
  next
    case 2
    with assms have "?i < length (rtasks c)" by (auto simp: task_exists_def)
    with assms have "rtask_ok (machines c) ((rtasks c ! ?i)
        \<lparr>r_status := ''completed'', r_AssignedWorker := wct_WorkerID args\<rparr>)"
      by (auto simp: coord_inv_def rtask_ok_def)
    with assms have "\<forall>u \<in> set ((rtasks c)[?i := (rtasks c ! ?i)
        \<lparr>r_status := ''completed'', r_AssignedWorker := wct_WorkerID args\<rparr>]). rtask_ok (machines c) u"
      by (intro set_update_ok) (simp_all add: coord_inv_def)
    with assms \<open>?i < length (rtasks c)\<close> show ?thesis
      by (simp add: CompleteTask_reduce_eq 2 coord_inv_rtasks map_update_same)
  qed (use assms in \<open>simp add: CompleteTask_def Let_def\<close>)
qed

lemma AssignTask_map_inv:
  assumes inv: "coord_inv c" and w: "registered (machines c) (wi_WorkerID args)"
  shows "\<exists>c' reply. AssignTask_map args c = Some (c', reply) \<and> coord_inv c' \<and> machines c' = machines c"
proof -
  from inv have ok: "\<forall>t \<in> set (tasks c). task_ok (machines c) t" by (simp add: coord_inv_def)
  from ok show ?thesis
  proof (cases rule: assign_map_loop_cases [where w = "wi_WorkerID args" and reply = zero_TaskInfo])
    case none
    with inv show ?thesis by (simp add: AssignTask_map_def)
  next
    case (first pre t post)
    with ok w have "\<forall>u \<in> set (pre @ t\<lparr>t_status := ''processing'', t_AssignedWorker := wi_WorkerID args\<rparr> # post).
        task_ok (machines c) u"
      by (auto simp: task_ok_def)
    with inv first show ?thesis
      by (auto simp: AssignTask_map_def intro!: coord_inv_tasks)
  qed
qed

lemma AssignTask_reduce_inv:
  assumes inv: "coord_inv c" and w: "registered (machines c) (wi_WorkerID args)"
  shows "\<exists>c' reply. AssignTask_reduce args ws c = Some (c', reply) \<and> coord_inv c' \<and> machines c' = machines c"
proof -
  from inv have ok: "\<forall>t \<in> set (rtasks c). rtask_ok (machines c) t" by (simp add: coord_inv_def)
  from ok show ?thesis
  proof (cases rule: assign_reduce_loop_cases
      [where w = "wi_WorkerID args" and ws = ws and reply = zero_TaskInfo])
    case none
    with inv show ?thesis by (simp add: AssignTask_reduce_def)
  next
    case (first pre t post)
    with ok w have "\<forall>u \<in> set (pre @ t\<lparr>r_status := ''processing'', r_AssignedWorker := wi_WorkerID args\<rparr> # post).
        rtask_ok (machines c) u"
      by (auto simp: rtask_ok_def)
    with inv first show ?thesis
      by (auto simp: AssignTask_reduce_def intro!: coord_inv_rtasks)
  qed
qed

lemma machines_Register: "length (machines c) \<le> length (machines (fst (Register now c)))"
  by (simp add: Register_def Let_def)

lemma machines_Heartbeat:
  "ReceiveHeartbeat args c = Some c' \<Longrightarrow> length (machines c') = length (machines c)"
  by (auto simp: ReceiveHeartbeat_def slice_set_def option_bind_simps split: if_splits)

lemma machines_CheckAlive [simp]:
  "length (machines (CheckAliveMachine_round now c)) = length (machines c)"
  by (simp add: CheckAliveMachine_round_def)

lemma coord_step_inv:
  assumes "coord_step s t" and "sys_inv s"
  shows "sys_inv t"
  using assms
proof (induction rule: coord_step.induct)
  case (register now s c rep)
  then have "c = fst (Register now (coord s))" by simp
  with register show ?case
    using machines_Register [of "coord s" now]
    by (auto simp: sys_inv_def Register_inv intro: registered_mono)
next
  case (heartbeat s args c)
  then show ?case
    using ReceiveHeartbeat_inv [of "coord s" args] machines_Heartbeat [of args "coord s" c]
    by (auto simp: sys_inv_def intro: registered_mono)
next
  case (check_alive s now)
  then show ?case by (auto simp: sys_inv_def CheckAlive_inv intro: registered_mono)
next
  case (complete s args c)
  then show ?case using CompleteTask_inv [of "coord s" args] by (auto simp: sys_inv_def)
next
  case (assign_map s w rest c reply)
  then show ?case
    using AssignTask_map_inv [of "coord s" "\<lparr>wi_WorkerID = w\<rparr>"] by (auto simp: sys_inv_def)
next
  case (assign_reduce s w ws rest c reply)
  then show ?case
    using AssignTask_reduce_inv [of "coord s" "\<lparr>wi_WorkerID = w\<rparr>" ws] by (auto simp: sys_inv_def)
qed (auto simp: sys_inv_def)

lemma coord_reach_inv: "coord_reach s \<Longrightarrow> sys_inv s"
proof (induction rule: coord_reach.induct)
  case (init osArgs files nReduce)
  show ?case by (simp add: sys_inv_def MakeCoordinator_inv)
qed (blast intro: coord_step_inv)

subsection \<open>What a request for work returns\<close>

lemma find_first_split:
  "ts = pre @ t # post \<Longrightarrow> \<forall>u \<in> set pre. \<not> P u \<Longrightarrow> P t \<Longrightarrow> find P ts = Some t"
  by (induction pre arbitrary: ts) auto

lemma update_at_split: "(pre @ t # post)[length pre := v] = pre @ v # post"
  by simp

lemma ids_split:
  assumes "map f ts = map int [0..<length ts]" and "ts = pre @ t # post"
  shows "f t = int (length pre)"
proof -
  have "map f ts ! length pre = f t" using assms(2) by (simp add: nth_append)
  moreover have "map int [0..<length ts] ! length pre = int (length pre)"
    using assms(2) by (simp del: upt_Suc)
  ultimately show ?thesis using assms(1) by simp
qed

lemma AssignTask_map_spec:
  assumes inv: "coord_inv c"
  shows "AssignTask_map args c = Some
    (case find (map_available (machines c)) (tasks c) of
       None \<Rightarrow> (c, zero_TaskInfo)
     | Some t \<Rightarrow> (c\<lparr>tasks := (tasks c)[nat (t_id t) :=
           t\<lparr>t_status := ''processing'', t_AssignedWorker := wi_WorkerID args\<rparr>]\<rparr>,
         zero_TaskInfo\<lparr>TaskID := t_id t, Class := ''map'', ti_Key := t_key t\<rparr>))"
proof -
  from inv have ok: "\<forall>t \<in> set (tasks c). task_ok (machines c) t" by (simp add: coord_inv_def)
  from ok show ?thesis
  proof (cases rule: assign_map_loop_cases [where w = "wi_WorkerID args" and reply = zero_TaskInfo])
    case none
    then have "find (map_available (machines c)) (tasks c) = None" by (simp add: find_None_iff)
    with none show ?thesis by (simp add: AssignTask_map_def)
  next
    case (first pre t post)
    from first(1-3) have "find (map_available (machines c)) (tasks c) = Some t" by (rule find_first_split)
    moreover have "map t_id (tasks c) = map int [0..<length (tasks c)]"
      using inv by (simp only: coord_inv_def)
    then have "t_id t = int (length pre)" using first(1) by (rule ids_split)
    moreover have "t_class t = ''map''" using ok first(1) by (simp add: task_ok_def)
    ultimately show ?thesis using first(4) by (simp add: AssignTask_map_def first(1))
  qed
qed

lemma AssignTask_reduce_spec:
  assumes inv: "coord_inv c"
  shows "AssignTask_reduce args ws c = Some
    (case find (reduce_available (machines c)) (rtasks c) of
       None \<Rightarrow> (c, zero_TaskInfo)
     | Some t \<Rightarrow> (c\<lparr>rtasks := (rtasks c)[nat (r_id t) :=
           t\<lparr>r_status := ''processing'', r_AssignedWorker := wi_WorkerID args\<rparr>]\<rparr>,
         zero_TaskInfo\<lparr>TaskID := r_id t, Class := ''reduce'', Workers := json_Marshal_ints ws\<rparr>))"
proof -
  from inv have ok: "\<forall>t \<in> set (rtasks c). rtask_ok (machines c) t" by (simp add: coord_inv_def)
  from ok show ?thesis
  proof (cases rule: assign_reduce_loop_cases
      [where w = "wi_WorkerID args" and ws = ws and reply = zero_TaskInfo])
    case none
    then have "find (reduce_available (machines c)) (rtasks c) = None" by (simp add: find_None_iff)
    with none show ?thesis by (simp add: AssignTask_reduce_def)
  next
    case (first pre t post)
    from first(1-3) have "find (reduce_available (machines c)) (rtasks c) = Some t" by (rule find_first_split)
    moreover have "map r_id (rtasks c) = map int [0..<length (rtasks c)]"
      using inv by (simp only: coord_inv_def)
    then have "r_id t = int (length pre)" using first(1) by (rule ids_split)
    ultimately show ?thesis using first(4) by (simp add: AssignTask_reduce_def first(1))
  qed
qed

lemma ReduceDone_none_available:
  "coord_inv c \<Longrightarrow> ReduceDone c \<Longrightarrow> find (reduce_available ms) (rtasks c) = None"
  by (auto simp: find_None_iff ReduceDone_def list_all_iff reduce_available_def)

definition assign_result :: "Coordinator \<Rightarrow> int \<Rightarrow> int list \<Rightarrow> Coordinator \<times> TaskInfo" where
  "assign_result c w ws =
     (if \<not> all_maps_done c
      then case find (map_available (machines c)) (tasks c) of
          None \<Rightarrow> (c, zero_TaskInfo)
        | Some t \<Rightarrow> (c\<lparr>tasks := (tasks c)[nat (t_id t) := t\<lparr>t_status := ''processing'', t_AssignedWorker := w\<rparr>]\<rparr>,
            zero_TaskInfo\<lparr>TaskID := t_id t, Class := ''map'', ti_Key := t_key t\<rparr>)
      else case find (reduce_available (machines c)) (rtasks c) of
          None \<Rightarrow> (c, zero_TaskInfo)
        | Some t \<Rightarrow> (c\<lparr>rtasks := (rtasks c)[nat (r_id t) := t\<lparr>r_status := ''processing'', r_AssignedWorker := w\<rparr>]\<rparr>,
            zero_TaskInfo\<lparr>TaskID := r_id t, Class := ''reduce'', Workers := json_Marshal_ints ws\<rparr>))"

lemma AssignTask_eq:
  assumes inv: "coord_inv c"
  shows "\<exists>mp. (all_maps_done c \<longrightarrow> set mp = t_AssignedWorker ` set (tasks c) \<and> distinct mp) \<and>
    AssignTask ord args c = Some (assign_result c (wi_WorkerID args) (ord mp))"
proof -
  obtain mp where md: "MapDone ord c = Some (all_maps_done c, if all_maps_done c then ord mp else [])"
    and mp: "all_maps_done c \<longrightarrow> set mp = t_AssignedWorker ` set (tasks c) \<and> distinct mp"
    using MapDone_ok [OF inv] by blast
  then have "AssignTask ord args c = Some (assign_result c (wi_WorkerID args) (ord mp))"
    using ReduceDone_none_available [OF inv]
    by (simp add: AssignTask_def AssignTask_map_spec [OF inv] AssignTask_reduce_spec [OF inv] assign_result_def)
  with mp show ?thesis by blast
qed

subsection \<open>Reduce tasks stay completed, dead machines stay dead\<close>

definition rtask_completed :: "Coordinator \<Rightarrow> nat \<Rightarrow> bool" where
  "rtask_completed c i \<longleftrightarrow> i < length (rtasks c) \<and> r_status (rtasks c ! i) = ''completed''"

lemma ReduceDone_iff: "ReduceDone c \<longleftrightarrow> (\<forall>i < length (rtasks c). rtask_completed c i)"
  by (auto simp: ReduceDone_def rtask_completed_def list_all_length)

lemma CompleteTask_keeps_completed:
  "CompleteTask args c = Some c' \<Longrightarrow> rtask_completed c i \<Longrightarrow> rtask_completed c' i"
  by (auto simp: CompleteTask_def Let_def rtask_completed_def option_bind_simps slice_set_def
      nth_list_update split: if_splits)

lemma assign_reduce_loop_keeps_completed:
  "assign_reduce_loop ms w ws ts reply = Some (ts', reply') \<Longrightarrow>
   length ts' = length ts \<and>
   (\<forall>i < length ts. r_status (ts ! i) = ''completed'' \<longrightarrow> r_status (ts' ! i) = ''completed'')"
proof (induction ts arbitrary: ts' reply')
  case (Cons t ts)
  then obtain skip where skip: "reduce_skip ms t = Some skip" by (auto simp: option_bind_simps)
  show ?case
  proof (cases skip)
    case True
    with Cons.prems skip obtain us where "assign_reduce_loop ms w ws ts reply = Some (us, reply')"
      and "ts' = t # us" by (auto simp: option_bind_simps)
    with Cons.IH show ?thesis by (auto simp: nth_Cons split: nat.splits)
  next
    case False
    with Cons.prems skip show ?thesis
      by (auto simp: nth_Cons reduce_skip_def split: nat.splits if_splits)
  qed
qed simp

lemma length_rtasks_step:
  "coord_step s t \<Longrightarrow> length (rtasks (coord t)) = length (rtasks (coord s))"
  by (induction rule: coord_step.induct)
    (auto simp: Register_def Let_def ReceiveHeartbeat_def CheckAliveMachine_round_def
      CompleteTask_def AssignTask_map_def AssignTask_reduce_def option_bind_simps slice_set_def
      split: if_splits dest: assign_reduce_loop_keeps_completed)

lemma rtask_completed_step:
  "coord_step s t \<Longrightarrow> rtask_completed (coord s) i \<Longrightarrow> rtask_completed (coord t) i"
proof (induction rule: coord_step.induct)
  case (complete s args c)
  then show ?case by (auto intro: CompleteTask_keeps_completed)
next
  case (assign_reduce s w ws rest c reply)
  then show ?case
    by (auto simp: AssignTask_reduce_def rtask_completed_def option_bind_simps
        dest!: assign_reduce_loop_keeps_completed)
qed (auto simp: Register_def Let_def ReceiveHeartbeat_def CheckAliveMachine_round_def
      AssignTask_map_def rtask_completed_def option_bind_simps)

definition machine_dead :: "Coordinator \<Rightarrow> nat \<Rightarrow> bool" where
  "machine_dead c i \<longleftrightarrow> i < length (machines c) \<and> \<not> m_IsAlive (machines c ! i)"

lemma machine_dead_step:
  "coord_step s t \<Longrightarrow> machine_dead (coord s) i \<Longrightarrow> machine_dead (coord t) i"
  by (induction rule: coord_step.induct)
    (auto simp: Register_def Let_def ReceiveHeartbeat_def CheckAliveMachine_round_def
      AssignTask_map_def AssignTask_reduce_def CompleteTask_def machine_dead_def option_bind_simps
      slice_get_def slice_set_def nth_append nth_list_update split: if_splits)

lemma tasks_length_step:
  "coord_step s t \<Longrightarrow> sys_inv s \<Longrightarrow> length (tasks (coord t)) = length (tasks (coord s))"
proof (induction rule: coord_step.induct)
  case (assign_map s w rest c reply)
  then show ?case
    by (auto simp: AssignTask_map_spec sys_inv_def split: option.splits)
qed (auto simp: Register_def Let_def ReceiveHeartbeat_def CheckAliveMachine_round_def
      AssignTask_reduce_def CompleteTask_def option_bind_simps slice_set_def split: if_splits)

subsection \<open>Properties\<close>

text \<open>C10: In every state the coordinator can reach, however the requests interleave, the
  bookkeeping is well formed (task and machine numbers are their positions, every task that is
  not idle is assigned to a registered machine) and no handler called by a registered worker
  indexes out of range.\<close>

theorem coordinator_inv_and_no_panic:
  assumes "coord_reach s" and "registered (machines (coord s)) w"
  shows "coord_inv (coord s)
    \<and> (\<exists>r. AssignTask ord \<lparr>wi_WorkerID = w\<rparr> (coord s) = Some r)
    \<and> (\<exists>c. ReceiveHeartbeat \<lparr>hb_WorkerID = w, hb_Timestamp = now\<rparr> (coord s) = Some c)
    \<and> (task_exists (coord s) \<lparr>wct_WorkerID = w, wct_TaskID = i, wct_Class = cl\<rparr> \<longrightarrow>
        (\<exists>c. CompleteTask \<lparr>wct_WorkerID = w, wct_TaskID = i, wct_Class = cl\<rparr> (coord s) = Some c))"
proof -
  from coord_reach_inv [OF assms(1)] have inv: "coord_inv (coord s)" by (simp add: sys_inv_def)
  obtain mp where "MapDone ord (coord s)
      = Some (all_maps_done (coord s), if all_maps_done (coord s) then ord mp else [])"
    using MapDone_ok [OF inv] by blast
  then have "\<exists>r. AssignTask ord \<lparr>wi_WorkerID = w\<rparr> (coord s) = Some r"
    by (simp add: AssignTask_def AssignTask_map_spec [OF inv] AssignTask_reduce_spec [OF inv])
  with inv assms(2) show ?thesis
    using ReceiveHeartbeat_inv [OF inv, of "\<lparr>hb_WorkerID = w, hb_Timestamp = now\<rparr>"]
      CompleteTask_inv [OF inv, of "\<lparr>wct_WorkerID = w, wct_TaskID = i, wct_Class = cl\<rparr>"]
    by auto
qed

text \<open>C11: A request for work is answered with the first map task that is idle or whose
  worker is dead, as long as some map task is not completed by a live worker; after that with
  the first reduce task that is idle or being processed by a dead worker, together with
  exactly the set of workers that completed the map tasks; with an empty reply when there is
  no such task.  Nothing but the assigned task changes.\<close>

theorem AssignTask_spec:
  assumes inv: "coord_inv c" and ord: "\<And>xs. set (ord xs) = set xs"
  shows "\<exists>ws. (all_maps_done c \<longrightarrow> set ws = t_AssignedWorker ` set (tasks c)) \<and>
      AssignTask ord args c = Some
       (if \<not> all_maps_done c
        then case find (map_available (machines c)) (tasks c) of
            None \<Rightarrow> (c, zero_TaskInfo)
          | Some t \<Rightarrow> (c\<lparr>tasks := (tasks c)[nat (t_id t) :=
                t\<lparr>t_status := ''processing'', t_AssignedWorker := wi_WorkerID args\<rparr>]\<rparr>,
              zero_TaskInfo\<lparr>TaskID := t_id t, Class := ''map'', ti_Key := t_key t\<rparr>)
        else case find (reduce_available (machines c)) (rtasks c) of
            None \<Rightarrow> (c, zero_TaskInfo)
          | Some t \<Rightarrow> (c\<lparr>rtasks := (rtasks c)[nat (r_id t) :=
                t\<lparr>r_status := ''processing'', r_AssignedWorker := wi_WorkerID args\<rparr>]\<rparr>,
              zero_TaskInfo\<lparr>TaskID := r_id t, Class := ''reduce'', Workers := json_Marshal_ints ws\<rparr>))"
proof -
  obtain mp where mp: "all_maps_done c \<longrightarrow> set mp = t_AssignedWorker ` set (tasks c) \<and> distinct mp"
    and eq: "AssignTask ord args c = Some (assign_result c (wi_WorkerID args) (ord mp))"
    using AssignTask_eq [OF inv] by blast
  from mp ord have "all_maps_done c \<longrightarrow> set (ord mp) = t_AssignedWorker ` set (tasks c)" by simp
  with eq show ?thesis unfolding assign_result_def by blast
qed

text \<open>A reduce task that has been completed stays completed, so once the job is
  reported as done it stays done, under every further interleaving of requests, time-outs and
  late completions.\<close>

lemma Done_is_stable:
  assumes "coord_step\<^sup>*\<^sup>* s t" and "Done (coord s)"
  shows "Done (coord t)"
  using assms
proof (induction rule: rtranclp_induct)
  case (step t u)
  then have "ReduceDone (coord t)" by (simp add: Done_def split: if_splits)
  then have "ReduceDone (coord u)"
    using rtask_completed_step [OF step(2)] length_rtasks_step [OF step(2)] by (simp add: ReduceDone_iff)
  then show ?case by (simp add: Done_def)
qed

text \<open>A machine that was declared dead is never alive again: a heartbeat refreshes its
  time stamp only.  Hence when every registered machine has been declared dead before the map
  phase ended, no heartbeat, completion or request for work lets the map phase end, until a
  new machine registers.\<close>

lemma map_phase_stuck_when_all_dead:
  assumes "coord_step\<^sup>*\<^sup>* s t" and "sys_inv s"
    and "\<And>i. i < length (machines (coord s)) \<Longrightarrow> \<not> m_IsAlive (machines (coord s) ! i)"
    and "length (machines (coord t)) = length (machines (coord s))" and "tasks (coord s) \<noteq> []"
  shows "MapDone ord (coord t) = Some (False, [])"
proof -
  from assms(1) have "sys_inv t \<and> length (tasks (coord t)) = length (tasks (coord s)) \<and>
      (\<forall>i < length (machines (coord s)). machine_dead (coord t) i)"
  proof (induction rule: rtranclp_induct)
    case base
    show ?case using assms(2,3) by (simp add: machine_dead_def)
  next
    case (step t u)
    then show ?case by (simp add: coord_step_inv tasks_length_step machine_dead_step)
  qed
  then have inv: "coord_inv (coord t)" and ne: "tasks (coord t) \<noteq> []"
    and dead: "\<And>w. \<not> is_alive (machines (coord t)) w"
    using assms(4,5) by (auto simp: sys_inv_def is_alive_def registered_def machine_dead_def)
  then have "\<not> all_maps_done (coord t)"
    by (cases "tasks (coord t)") (auto simp: map_task_done_def all_maps_done_def)
  with MapDone_ok [OF inv, of ord] show ?thesis by auto
qed

subsection \<open>Witnesses\<close>

definition two_file_coordinator :: Coordinator where
  "two_file_coordinator = fst (Register 0 (MakeCoordinator [''f'', ''g''] [''f'', ''g''] 2))"

lemma two_file_coordinator_reach:
  "coord_reach \<lparr>coord = two_file_coordinator, in_flight = {#}\<rparr>"
proof -
  let ?s = "\<lparr>coord = MakeCoordinator [''f'', ''g''] [''f'', ''g''] 2, in_flight = {#}\<rparr>"
  have "coord_step ?s (?s\<lparr>coord := two_file_coordinator\<rparr>)"
    by (rule coord_step.register [of 0 _ _ "snd (Register 0 (coord ?s))"])
      (simp add: two_file_coordinator_def)
  from coord_reach.step [OF coord_reach.init this] show ?thesis by simp
qed

lemma two_file_coordinator_simps:
  "machines two_file_coordinator = [\<lparr>m_id = 0, m_class = '''', m_status = ''busy'', m_Lastime = 0,
     m_IsAlive = True, m_CompleteTasks = []\<rparr>]"
  "length (tasks two_file_coordinator) = 2"
  by (simp_all add: two_file_coordinator_def Register_def MakeCoordinator_def)

theorem coordinator_inv_and_no_panic_witness:
  "\<exists>r. AssignTask (\<lambda>ws. ws) \<lparr>wi_WorkerID = 0\<rparr> two_file_coordinator = Some r"
  using coordinator_inv_and_no_panic [OF two_file_coordinator_reach, of 0 "\<lambda>ws. ws" 0 0 "''map''"]
  by (simp add: registered_def two_file_coordinator_simps)

theorem AssignTask_spec_witness:
  "\<exists>c. AssignTask (\<lambda>ws. ws) \<lparr>wi_WorkerID = 0\<rparr> two_file_coordinator
     = Some (c, zero_TaskInfo\<lparr>TaskID := 0, Class := ''map'', ti_Key := ''f''\<rparr>)"
proof -
  have "coord_inv two_file_coordinator"
    using coord_reach_inv [OF two_file_coordinator_reach] by (simp add: sys_inv_def)
  from AssignTask_spec [OF this, of "\<lambda>ws. ws" "\<lparr>wi_WorkerID = 0\<rparr>"] show ?thesis
    by (auto simp: two_file_coordinator_def Register_def MakeCoordinator_def map_task_done_def
        map_available_def all_maps_done_def)
qed

end
