(* ===== verification/Worker.thy ===== *)
theory Worker
  imports Go_Strings Coordinator "HOL-Library.Word"
begin

unbundle bit_operations_syntax

text \<open>
  \<^verbatim>\<open>src/mr/worker.go\<close>: the worker process.  Its package variables are the record
  \<open>WorkerProc\<close>; the files it reads and writes are the record \<open>FS\<close> (input and output
  files as text, intermediate files as streams of JSON records).  \<^verbatim>\<open>sort.Sort\<close> is not
  stable, so the sorting function is an argument \<open>srt\<close> of the definitions, with the laws
  \<open>go_sort\<close>: the result is a permutation sorted by key.  \<open>None\<close> is \<^verbatim>\<open>log.Fatal\<close> or a
  panic: the end of the worker process.
\<close>

subsection \<open>Keys: hash and order\<close>

text \<open>\<^verbatim>\<open>fnv.New32a\<close>: the 32-bit FNV-1a hash.\<close>

definition fnv32a :: "string \<Rightarrow> 32 word" where
  "fnv32a key = foldl (\<lambda>h c. (h XOR of_nat (byte_of c)) * 16777619) 2166136261 key"

definition ihash :: "string \<Rightarrow> int" where
  "ihash key = uint (fnv32a key AND 0x7fffffff)"

definition ByKey_Less :: "KeyValue \<Rightarrow> KeyValue \<Rightarrow> bool" where
  "ByKey_Less a b \<longleftrightarrow> Key a < Key b"

subsection \<open>Files\<close>

record FS =
  texts :: "string \<rightharpoonup> string"
  streams :: "string \<rightharpoonup> KeyValue list"

definition json_kv :: "KeyValue \<Rightarrow> KeyValue" where
  "json_kv kv = \<lparr>Key = json_string (Key kv), Value = json_string (Value kv)\<rparr>"

definition inter_name :: "int \<Rightarrow> int \<Rightarrow> string" where
  "inter_name i r = ''mr-'' @ Itoa i @ ''-'' @ Itoa r"

definition out_name :: "int \<Rightarrow> string" where
  "out_name r = ''mr-out-'' @ Itoa r"

text \<open>Opening with \<^verbatim>\<open>O_CREATE|O_WRONLY|O_APPEND\<close> and encoding the records of a partition.\<close>

definition append_stream :: "string \<Rightarrow> KeyValue list \<Rightarrow> FS \<Rightarrow> FS" where
  "append_stream name kvs fs =
     fs\<lparr>streams := (streams fs)(name \<mapsto>
          (case streams fs name of None \<Rightarrow> [] | Some old \<Rightarrow> old) @ map json_kv kvs)\<rparr>"

subsection \<open>State of the worker process\<close>

record WTask =
  wt_TaskID :: int
  wt_Class :: string
  wt_Key :: string
  wt_Workers :: "8 word list"

record WorkerProc =
  info_id :: int
  info_status :: string
  WorkerTask :: WTask
  w_nReduce :: int

definition init_worker :: WorkerProc where
  "init_worker = \<lparr>info_id = -1, info_status = '''',
     WorkerTask = \<lparr>wt_TaskID = 0, wt_Class = '''', wt_Key = '''', wt_Workers = []\<rparr>, w_nReduce = 0\<rparr>"

text \<open>
  \<^verbatim>\<open>json.Unmarshal(reply.Workers, &WorkerTask.Workers)\<close>: the target is a slice of bytes, so a
  number that does not fit in a byte is an error that leaves its element as it was (0 for a
  new element); the error is not looked at.  Empty input is an error that leaves the target.
\<close>

definition unmarshal_byte :: "8 word list \<Rightarrow> nat \<Rightarrow> int \<Rightarrow> 8 word" where
  "unmarshal_byte old i n =
     (if 0 \<le> n \<and> n < 256 then of_int n else if i < length old then old ! i else 0)"

fun json_Unmarshal_bytes :: "workers_json \<Rightarrow> 8 word list \<Rightarrow> 8 word list" where
  "json_Unmarshal_bytes NilBytes old = old"
| "json_Unmarshal_bytes JsonNull old = []"
| "json_Unmarshal_bytes (JsonInts ns) old = map (\<lambda>(i, n). unmarshal_byte old i n) (enumerate 0 ns)"

subsection \<open>Calls to the coordinator\<close>

definition CallRegister :: "int \<Rightarrow> WorkerProc \<Rightarrow> Coordinator \<Rightarrow> WorkerProc \<times> Coordinator" where
  "CallRegister now w c =
     (let (c', reply) = Register now c
      in (w\<lparr>info_id := rep_Res reply, info_status := ''idle'', w_nReduce := rep_NReduce reply\<rparr>, c'))"

text \<open>One round of the endless loop of \<^verbatim>\<open>sendHeartbeat\<close>.\<close>

definition sendHeartbeat_round :: "int \<Rightarrow> WorkerProc \<Rightarrow> Coordinator \<Rightarrow> Coordinator option" where
  "sendHeartbeat_round now w c =
     ReceiveHeartbeat \<lparr>hb_WorkerID = info_id w, hb_Timestamp = now\<rparr> c"

definition CallAssignTask ::
  "(int list \<Rightarrow> int list) \<Rightarrow> WorkerProc \<Rightarrow> Coordinator \<Rightarrow> (WorkerProc \<times> Coordinator) option" where
  "CallAssignTask ord w c = do {
     (c', reply) \<leftarrow> AssignTask ord \<lparr>wi_WorkerID = info_id w\<rparr> c;
     Some (if Class reply = '''' then (w, c')
           else (w\<lparr>info_status := ''busy'',
                   WorkerTask := \<lparr>wt_TaskID = TaskID reply, wt_Class = Class reply, wt_Key = ti_Key reply,
                     wt_Workers = json_Unmarshal_bytes (Workers reply) (wt_Workers (WorkerTask w))\<rparr>\<rparr>, c'))
   }"

definition CallCompleteTask :: "WorkerProc \<Rightarrow> Coordinator \<Rightarrow> Coordinator option" where
  "CallCompleteTask w c =
     CompleteTask \<lparr>wct_WorkerID = info_id w, wct_TaskID = wt_TaskID (WorkerTask w),
                   wct_Class = wt_Class (WorkerTask w)\<rparr> c"

subsection \<open>Map tasks\<close>

fun partition_loop :: "int \<Rightarrow> KeyValue list \<Rightarrow> KeyValue list list \<Rightarrow> KeyValue list list option" where
  "partition_loop n [] ps = Some ps"
| "partition_loop n (kv # kvs) ps =
     (if n = 0 then None
      else do {
        p \<leftarrow> slice_get ps (ihash (Key kv) mod n);
        ps' \<leftarrow> slice_set ps (ihash (Key kv) mod n) (p @ [kv]);
        partition_loop n kvs ps'
      })"

fun save_loop :: "int \<Rightarrow> nat \<Rightarrow> KeyValue list list \<Rightarrow> FS \<Rightarrow> FS" where
  "save_loop wid i [] fs = fs"
| "save_loop wid i (p # ps) fs = save_loop wid (Suc i) ps (append_stream (inter_name wid (int i)) p fs)"

definition saveIntermediate :: "WorkerProc \<Rightarrow> KeyValue list \<Rightarrow> FS \<Rightarrow> FS option" where
  "saveIntermediate w intermediate fs =
     (if w_nReduce w < 0 then None
      else do {
        partitions \<leftarrow> partition_loop (w_nReduce w) intermediate (replicate (nat (w_nReduce w)) []);
        Some (save_loop (info_id w) 0 partitions fs)
      })"

definition processMTask ::
  "(string \<Rightarrow> string \<Rightarrow> KeyValue list) \<Rightarrow> WorkerProc \<Rightarrow> FS \<Rightarrow> FS option" where
  "processMTask mapf w fs =
     (if wt_Class (WorkerTask w) = ''map'' then do {
        content \<leftarrow> texts fs (wt_Key (WorkerTask w));
        saveIntermediate w ([] @ mapf (wt_Key (WorkerTask w)) content) fs
      } else Some fs)"

subsection \<open>Reduce tasks\<close>

text \<open>The inner loop on \<open>j\<close>, the collection of the values and the outer loop on \<open>i\<close>.\<close>

function group_end :: "KeyValue list \<Rightarrow> nat \<Rightarrow> nat \<Rightarrow> nat" where
  "group_end xs i j =
     (if j < length xs \<and> Key (xs ! j) = Key (xs ! i) then group_end xs i (Suc j) else j)"
  by pat_completeness auto
termination by (relation "measure (\<lambda>(xs, i, j). length xs - j)") auto

declare group_end.simps [simp del]

lemma group_end_ge: "j \<le> group_end xs i j"
proof (induction xs i j rule: group_end.induct)
  case (1 xs i j)
  then show ?case by (subst group_end.simps) auto
qed

definition out_line :: "string \<Rightarrow> string \<Rightarrow> string" where
  "out_line k v = k @ '' '' @ v @ [CHR 0x0A]"

function reduce_loop :: "(string \<Rightarrow> string list \<Rightarrow> string) \<Rightarrow> KeyValue list \<Rightarrow> nat \<Rightarrow> string list" where
  "reduce_loop reducef xs i =
     (if i < length xs then
        let j = group_end xs i (i + 1);
            values = map (\<lambda>k. Value (xs ! k)) [i..<j];
            output = reducef (Key (xs ! i)) values
        in out_line (Key (xs ! i)) output # reduce_loop reducef xs j
      else [])"
  by pat_completeness auto
termination
proof (relation "measure (\<lambda>(f, xs, i). length xs - i)", goal_cases)
  case (2 f xs i j vs out)
  with group_end_ge [of "i + 1" xs i] show ?case by simp
qed simp

declare reduce_loop.simps [simp del]

fun read_loop :: "FS \<Rightarrow> string list \<Rightarrow> KeyValue list \<Rightarrow> KeyValue list option" where
  "read_loop fs [] acc = Some acc"
| "read_loop fs (name # names) acc = do {
     kvs \<leftarrow> streams fs name;
     read_loop fs names (acc @ kvs)
   }"

definition processRTask ::
  "(KeyValue list \<Rightarrow> KeyValue list) \<Rightarrow> (string \<Rightarrow> string list \<Rightarrow> string) \<Rightarrow> WorkerProc \<Rightarrow> FS \<Rightarrow> FS option"
where
  "processRTask srt reducef w fs =
     (let filenames = map (\<lambda>i. inter_name (uint i) (wt_TaskID (WorkerTask w))) (wt_Workers (WorkerTask w))
      in do {
        intermediate \<leftarrow> read_loop fs filenames [];
        Some (fs\<lparr>texts := (texts fs)(out_name (wt_TaskID (WorkerTask w)) \<mapsto>
                concat (reduce_loop reducef (srt intermediate) 0))\<rparr>)
      })"

subsection \<open>The main loop\<close>

text \<open>One round of the endless loop of \<^verbatim>\<open>Worker\<close>.\<close>

definition Worker_round ::
  "(KeyValue list \<Rightarrow> KeyValue list) \<Rightarrow> (string \<Rightarrow> string \<Rightarrow> KeyValue list) \<Rightarrow>
   (string \<Rightarrow> string list \<Rightarrow> string) \<Rightarrow> (int list \<Rightarrow> int list) \<Rightarrow> int \<Rightarrow>
   WorkerProc \<times> Coordinator \<times> FS \<Rightarrow> (WorkerProc \<times> Coordinator \<times> FS) option" where
  "Worker_round srt mapf reducef ord now = (\<lambda>(w, c, fs).
     if info_id w = -1 then
       (let (w', c') = CallRegister now w c in Some (w', c', fs))
     else if info_status w = ''idle'' then do {
       (w', c') \<leftarrow> CallAssignTask ord w c;
       Some (w', c', fs)
     } else if info_status w = ''busy'' then
       (if wt_Class (WorkerTask w) = ''map'' then do {
          fs' \<leftarrow> processMTask mapf w fs;
          c' \<leftarrow> CallCompleteTask w c;
          Some (w\<lparr>info_status := ''idle''\<rparr>, c', fs')
        } else if wt_Class (WorkerTask w) = ''reduce'' then do {
          fs' \<leftarrow> processRTask srt reducef w fs;
          c' \<leftarrow> CallCompleteTask w c;
          Some (w\<lparr>info_status := ''idle''\<rparr>, c', fs')
        } else Some (w\<lparr>info_status := ''idle''\<rparr>, c, fs))
     else Some (w, c, fs))"

subsection \<open>Hash values and partitions\<close>

lemma ihash_bounds: "0 \<le> ihash k \<and> ihash k < 2 ^ 31"
proof -
  have "fnv32a k AND 0x7fffffff \<le> 0x7fffffff" by (rule word_and_le1)
  then have "uint (fnv32a k AND 0x7fffffff) \<le> uint (0x7fffffff :: 32 word)"
    by (simp only: word_le_def)
  then show ?thesis by (simp add: ihash_def)
qed

definition part_of :: "int \<Rightarrow> int \<Rightarrow> KeyValue list \<Rightarrow> KeyValue list" where
  "part_of n r kvs = filter (\<lambda>kv. ihash (Key kv) mod n = r) kvs"

lemma partition_loop_spec:
  assumes "0 < n" and "length ps = nat n"
  shows "partition_loop n kvs ps = Some (map (\<lambda>i. ps ! i @ part_of n (int i) kvs) [0..<nat n])"
  using assms
proof (induction kvs arbitrary: ps)
  case Nil
  then show ?case by (auto simp: part_of_def intro: nth_equalityI)
next
  case (Cons kv kvs)
  let ?i = "ihash (Key kv) mod n"
  let ?ps = "ps[nat ?i := ps ! nat ?i @ [kv]]"
  have i: "0 \<le> ?i" "?i < n" using Cons.prems by simp_all
  then have "partition_loop n (kv # kvs) ps = partition_loop n kvs ?ps"
    using Cons.prems by (simp add: slice_get_def slice_set_def)
  also have "\<dots> = Some (map (\<lambda>j. ?ps ! j @ part_of n (int j) kvs) [0..<nat n])"
    using Cons.prems by (intro Cons.IH) simp_all
  also have "map (\<lambda>j. ?ps ! j @ part_of n (int j) kvs) [0..<nat n]
      = map (\<lambda>j. ps ! j @ part_of n (int j) (kv # kvs)) [0..<nat n]"
    using i Cons.prems by (auto simp: part_of_def nth_list_update)
  finally show ?case .
qed

lemma inter_name_inj:
  assumes "0 \<le> i" and "0 \<le> j" and "inter_name i r = inter_name j q"
  shows "i = j \<and> r = q"
proof -
  have "nat_digits (nat i) @ CHR ''-'' # Itoa r = nat_digits (nat j) @ CHR ''-'' # Itoa q"
    using assms by (simp add: inter_name_def Itoa_nonneg)
  then have "nat_digits (nat i) = nat_digits (nat j) \<and> Itoa r = Itoa q"
    by (intro append_sep_inj [where sep = "CHR ''-''"] dash_notin_nat_digits)
  then show ?thesis using assms(1,2) nat_digits_inj Itoa_inj by force
qed

lemma out_name_inj: "out_name r = out_name q \<Longrightarrow> r = q"
  using Itoa_inj by (simp add: out_name_def)

lemma streams_append_stream:
  "streams (append_stream name kvs fs) =
     (streams fs)(name \<mapsto> (case streams fs name of None \<Rightarrow> [] | Some old \<Rightarrow> old) @ map json_kv kvs)"
  by (simp add: append_stream_def)

lemma texts_save_loop [simp]: "texts (save_loop wid i ps fs) = texts fs"
  by (induction ps arbitrary: i fs) (auto simp: append_stream_def)

definition stream_of :: "FS \<Rightarrow> string \<Rightarrow> KeyValue list" where
  "stream_of fs name = (case streams fs name of None \<Rightarrow> [] | Some kvs \<Rightarrow> kvs)"

lemma save_loop_other:
  "(\<And>k. k < length ps \<Longrightarrow> name \<noteq> inter_name wid (int (i + k))) \<Longrightarrow>
   streams (save_loop wid i ps fs) name = streams fs name"
proof (induction ps arbitrary: i fs)
  case (Cons p ps)
  have "name \<noteq> inter_name wid (int (Suc i + k))" if "k < length ps" for k
    using Cons.prems [of "Suc k"] that by simp
  moreover have "name \<noteq> inter_name wid (int i)" using Cons.prems [of 0] by simp
  ultimately show ?case using Cons.IH [of "Suc i"] by (simp add: streams_append_stream)
qed simp

lemma save_loop_same:
  assumes "0 \<le> wid" and "k < length ps"
  shows "streams (save_loop wid i ps fs) (inter_name wid (int (i + k)))
    = Some (stream_of fs (inter_name wid (int (i + k))) @ map json_kv (ps ! k))"
  using assms(2)
proof (induction ps arbitrary: i k fs)
  case (Cons p ps)
  show ?case
  proof (cases k)
    case 0
    have "inter_name wid (int i) \<noteq> inter_name wid (int (Suc i + m))" for m
      using inter_name_inj [OF assms(1) assms(1)] by fastforce
    then show ?thesis using 0
      by (simp add: save_loop_other streams_append_stream stream_of_def)
  next
    case (Suc m)
    have "inter_name wid (int (Suc i + m)) \<noteq> inter_name wid (int i)"
      using inter_name_inj [OF assms(1) assms(1)] by fastforce
    then show ?thesis using Suc Cons.IH [of m "Suc i"] Cons.prems
      by (simp add: stream_of_def streams_append_stream)
  qed
qed simp

text \<open>
  Saving the output of a map task appends, to the worker's file of each partition, exactly the
  records whose key hashes to that partition, in order, and touches no other file.
\<close>

lemma saveIntermediate_spec:
  assumes "0 < w_nReduce w" and "0 \<le> info_id w"
  obtains fs' where "saveIntermediate w kvs fs = Some fs'" and "texts fs' = texts fs"
    and "\<And>r. 0 \<le> r \<Longrightarrow> r < w_nReduce w \<Longrightarrow> streams fs' (inter_name (info_id w) r)
      = Some (stream_of fs (inter_name (info_id w) r) @ map json_kv (part_of (w_nReduce w) r kvs))"
    and "\<And>name. (\<And>r. 0 \<le> r \<Longrightarrow> r < w_nReduce w \<Longrightarrow> name \<noteq> inter_name (info_id w) r) \<Longrightarrow>
      streams fs' name = streams fs name"
proof -
  let ?n = "w_nReduce w"
  let ?ps = "map (\<lambda>i. part_of ?n (int i) kvs) [0..<nat ?n]"
  let ?fs = "save_loop (info_id w) 0 ?ps fs"
  have "partition_loop ?n kvs (replicate (nat ?n) []) = Some ?ps"
    using partition_loop_spec [of ?n "replicate (nat ?n) []" kvs] assms(1) by simp
  then have "saveIntermediate w kvs fs = Some ?fs"
    using assms(1) by (simp add: saveIntermediate_def)
  moreover have "streams ?fs (inter_name (info_id w) r)
      = Some (stream_of fs (inter_name (info_id w) r) @ map json_kv (part_of ?n r kvs))"
    if "0 \<le> r" "r < ?n" for r
    using save_loop_same [OF assms(2), of "nat r" ?ps 0 fs] that by simp
  moreover have "streams ?fs name = streams fs name"
    if "\<And>r. 0 \<le> r \<Longrightarrow> r < ?n \<Longrightarrow> name \<noteq> inter_name (info_id w) r" for name
    using that by (intro save_loop_other) simp
  ultimately show ?thesis by (intro that [of ?fs]) simp_all
qed

subsection \<open>Grouping by key\<close>

function groups :: "KeyValue list \<Rightarrow> (string \<times> string list) list" where
  "groups [] = []"
| "groups (x # xs) = (Key x, Value x # map Value (takeWhile (\<lambda>y. Key y = Key x) xs))
     # groups (dropWhile (\<lambda>y. Key y = Key x) xs)"
  by pat_completeness auto
termination by (relation "measure length") (auto simp: le_imp_less_Suc length_dropWhile_le)

lemma group_end_eq:
  "j \<le> length xs \<Longrightarrow>
   group_end xs i j = j + length (takeWhile (\<lambda>y. Key y = Key (xs ! i)) (drop j xs))"
proof (induction xs i j rule: group_end.induct)
  case (1 xs i j)
  show ?case
  proof (cases "j < length xs")
    case True
    then have "drop j xs = xs ! j # drop (Suc j) xs" by (simp add: Cons_nth_drop_Suc)
    with True 1 show ?thesis by (subst group_end.simps) simp
  next
    case False
    then show ?thesis by (subst group_end.simps) simp
  qed
qed

lemma map_nth_slice: "j \<le> length xs \<Longrightarrow> map (\<lambda>k. f (xs ! k)) [i..<j] = map f (take (j - i) (drop i xs))"
  by (rule nth_equalityI) auto

lemma reduce_loop_groups:
  "reduce_loop reducef xs i = map (\<lambda>(k, vs). out_line k (reducef k vs)) (groups (drop i xs))"
proof (induction reducef xs i rule: reduce_loop.induct)
  case (1 reducef xs i)
  show ?case
  proof (cases "i < length xs")
    case True
    let ?P = "\<lambda>y. Key y = Key (xs ! i)"
    let ?tw = "takeWhile ?P (drop (Suc i) xs)"
    let ?j = "group_end xs i (i + 1)"
    have d: "drop i xs = xs ! i # drop (Suc i) xs" using True by (simp add: Cons_nth_drop_Suc)
    have j: "?j = Suc i + length ?tw" using group_end_eq [of "i + 1" xs i] True by simp
    then have jl: "?j \<le> length xs"
      using length_takeWhile_le [of ?P "drop (Suc i) xs"] True by simp
    have "drop ?j xs = drop (length ?tw) (drop (Suc i) xs)" unfolding j by (simp add: add.commute)
    then have dj: "drop ?j xs = dropWhile ?P (drop (Suc i) xs)"
      by (simp add: dropWhile_eq_drop)
    have "take (length ?tw) (drop (Suc i) xs) = ?tw" by (rule takeWhile_eq_take [symmetric])
    then have "take (?j - i) (drop i xs) = xs ! i # ?tw" unfolding j d by simp
    then have vals: "map (\<lambda>k. Value (xs ! k)) [i..<?j] = Value (xs ! i) # map Value ?tw"
      using map_nth_slice [OF jl, of Value i] by simp
    have "reduce_loop reducef xs ?j
        = map (\<lambda>(k, vs). out_line k (reducef k vs)) (groups (drop ?j xs))"
      using 1 [OF True refl refl refl] .
    then show ?thesis
      using True vals dj by (subst reduce_loop.simps) (simp add: Let_def d del: upt_Suc)
  next
    case False
    then show ?thesis by (subst reduce_loop.simps) simp
  qed
qed

definition values_of :: "string \<Rightarrow> KeyValue list \<Rightarrow> string list" where
  "values_of k xs = map Value (filter (\<lambda>kv. Key kv = k) xs)"

lemma sorted_takeWhile_key:
  assumes "sorted (map Key (x # xs))"
  shows "takeWhile (\<lambda>y. Key y = Key x) xs = filter (\<lambda>y. Key y = Key x) xs"
    and "dropWhile (\<lambda>y. Key y = Key x) xs = filter (\<lambda>y. Key y \<noteq> Key x) xs"
  using assms
proof (induction xs)
  case (Cons y xs)
  { case 1
    show ?case
    proof (cases "Key y = Key x")
      case True
      with 1 Cons.IH(1) show ?thesis by simp
    next
      case False
      with 1 have "\<forall>z \<in> set xs. Key z \<noteq> Key x" by auto
      with False show ?thesis by (simp add: filter_empty_conv)
    qed
  next
    case 2
    show ?case
    proof (cases "Key y = Key x")
      case True
      with 2 Cons.IH(2) show ?thesis by simp
    next
      case False
      with 2 have "\<forall>z \<in> set xs. Key z \<noteq> Key x" by auto
      with False show ?thesis by simp
    qed
  }
qed simp_all

lemma groups_sorted:
  assumes "sorted (map Key xs)"
  shows "groups xs = map (\<lambda>k. (k, values_of k xs)) (map fst (groups xs))
    \<and> sorted_wrt (<) (map fst (groups xs)) \<and> set (map fst (groups xs)) = Key ` set xs"
  using assms
proof (induction xs rule: groups.induct)
  case (2 x xs)
  let ?rest = "filter (\<lambda>y. Key y \<noteq> Key x) xs"
  have sx: "\<forall>y \<in> set xs. Key x \<le> Key y" and sr: "sorted (map Key ?rest)"
    using 2(2) by (auto intro: sorted_filter)
  have dw: "dropWhile (\<lambda>y. Key y = Key x) xs = ?rest"
    and tw: "takeWhile (\<lambda>y. Key y = Key x) xs = filter (\<lambda>y. Key y = Key x) xs"
    using sorted_takeWhile_key [OF 2(2)] by simp_all
  have IH: "groups ?rest = map (\<lambda>k. (k, values_of k ?rest)) (map fst (groups ?rest))"
    "sorted_wrt (<) (map fst (groups ?rest))" "set (map fst (groups ?rest)) = Key ` set ?rest"
    using 2(1) sr unfolding dw by blast+
  have "values_of k ?rest = values_of k (x # xs)" if "k \<in> set (map fst (groups ?rest))" for k
    using that unfolding IH(3) by (auto simp: values_of_def intro!: arg_cong [where f = "map Value"] filter_cong)
  then have "map (\<lambda>k. (k, values_of k ?rest)) (map fst (groups ?rest))
      = map (\<lambda>k. (k, values_of k (x # xs))) (map fst (groups ?rest))" by (intro map_cong) auto
  with IH(1) have "groups ?rest = map (\<lambda>k. (k, values_of k (x # xs))) (map fst (groups ?rest))"
    by (rule trans)
  moreover have "values_of (Key x) (x # xs) = Value x # map Value (takeWhile (\<lambda>y. Key y = Key x) xs)"
    by (simp add: values_of_def tw)
  ultimately have "groups (x # xs) = map (\<lambda>k. (k, values_of k (x # xs))) (map fst (groups (x # xs)))"
    unfolding groups.simps dw by simp
  moreover have "sorted_wrt (<) (map fst (groups (x # xs)))"
    using IH(2,3) sx by (fastforce simp: dw order.strict_iff_order)
  moreover have "set (map fst (groups (x # xs))) = Key ` set (x # xs)"
    using IH(3) by (auto simp: dw)
  ultimately show ?case by blast
qed simp

text \<open>
  The specification of the output: one line for each key that occurs, in the order of the
  keys, with the reduction of all values of that key.
\<close>

definition spec_lines :: "(string \<Rightarrow> string list \<Rightarrow> string) \<Rightarrow> KeyValue list \<Rightarrow> string list" where
  "spec_lines reducef xs =
     map (\<lambda>k. out_line k (reducef k (values_of k xs))) (sorted_list_of_set (Key ` set xs))"

lemma reduce_loop_sorted:
  assumes "sorted (map Key xs)"
  shows "reduce_loop reducef xs 0 = spec_lines reducef xs"
proof -
  let ?ks = "map fst (groups xs)"
  have g: "groups xs = map (\<lambda>k. (k, values_of k xs)) ?ks" "sorted_wrt (<) ?ks" "set ?ks = Key ` set xs"
    using groups_sorted [OF assms] by blast+
  have "sorted_list_of_set (Key ` set xs) = ?ks"
    using g(2) unfolding g(3) [symmetric]
    by (intro sorted_list_of_set.idem_if_sorted_distinct) (auto simp: strict_sorted_iff)
  then have "spec_lines reducef xs = map (\<lambda>(k, vs). out_line k (reducef k vs))
      (map (\<lambda>k. (k, values_of k xs)) ?ks)"
    by (simp add: spec_lines_def)
  also have "map (\<lambda>k. (k, values_of k xs)) ?ks = groups xs" by (rule g(1) [symmetric])
  finally show ?thesis by (simp add: reduce_loop_groups)
qed

subsection \<open>Sorting and reducing\<close>

definition order_insensitive :: "(string \<Rightarrow> string list \<Rightarrow> string) \<Rightarrow> bool" where
  "order_insensitive reducef \<longleftrightarrow> (\<forall>k vs vs'. mset vs = mset vs' \<longrightarrow> reducef k vs = reducef k vs')"

lemma spec_lines_mset_cong:
  assumes "order_insensitive reducef" and "mset xs = mset ys"
  shows "spec_lines reducef xs = spec_lines reducef ys"
proof -
  have "mset (values_of k xs) = mset (values_of k ys)" for k
    using assms(2) by (simp add: values_of_def)
  then have "reducef k (values_of k xs) = reducef k (values_of k ys)" for k
    using assms(1) unfolding order_insensitive_def by blast
  moreover have "set xs = set ys" using assms(2) by (rule mset_eq_setD)
  ultimately show ?thesis by (simp add: spec_lines_def)
qed

text \<open>What \<^verbatim>\<open>sort.Sort(ByKey(...))\<close> promises: a permutation in the order of \<^verbatim>\<open>Less\<close>.\<close>

locale go_sort =
  fixes srt :: "KeyValue list \<Rightarrow> KeyValue list"
  assumes srt_perm: "mset (srt xs) = mset xs"
    and srt_sorted: "sorted_wrt (\<lambda>a b. \<not> ByKey_Less b a) (srt xs)"
begin

lemma srt_keys_sorted: "sorted (map Key (srt xs))"
  using srt_sorted [of xs] by (simp add: sorted_map ByKey_Less_def not_less)

text \<open>The reduce loop over the sorted records writes the specified lines.\<close>

lemma reduce_srt:
  assumes "order_insensitive reducef"
  shows "reduce_loop reducef (srt xs) 0 = spec_lines reducef xs"
proof -
  have "reduce_loop reducef (srt xs) 0 = spec_lines reducef (srt xs)"
    by (rule reduce_loop_sorted [OF srt_keys_sorted])
  also have "\<dots> = spec_lines reducef xs" by (rule spec_lines_mset_cong [OF assms srt_perm])
  finally show ?thesis .
qed

lemma reduce_srt_perm:
  "order_insensitive reducef \<Longrightarrow> mset xs = mset ys \<Longrightarrow>
   reduce_loop reducef (srt xs) 0 = spec_lines reducef ys"
  using reduce_srt spec_lines_mset_cong by (metis (no_types))

end

interpretation key_sort: go_sort "sort_key Key"
proof unfold_locales
  show "sorted_wrt (\<lambda>a b. \<not> ByKey_Less b a) (sort_key Key xs)" for xs
    using sorted_sort_key [of Key xs] by (simp only: sorted_map ByKey_Less_def not_less)
qed simp

text \<open>The lines of the partitions are together the lines of the whole, whatever the hash.\<close>

lemma sorted_list_of_set_filter:
  assumes "finite A"
  shows "sorted_list_of_set {a \<in> A. P a} = filter P (sorted_list_of_set A)"
proof -
  have "set (filter P (sorted_list_of_set A)) = {a \<in> A. P a}" using assms by auto
  then show ?thesis
    by (metis (no_types, lifting) distinct_filter sorted_list_of_set.distinct_sorted_key_list_of_set
        sorted_list_of_set.idem_if_sorted_distinct sorted_list_of_set.sorted_sorted_key_list_of_set
        sorted_wrt_filter)
qed

lemma spec_lines_part:
  "spec_lines reducef (part_of n r kvs) =
     map (\<lambda>k. out_line k (reducef k (values_of k kvs)))
       (filter (\<lambda>k. ihash k mod n = r) (sorted_list_of_set (Key ` set kvs)))"
proof -
  have "Key ` set (part_of n r kvs) = {k \<in> Key ` set kvs. ihash k mod n = r}"
    by (auto simp: part_of_def)
  moreover have "values_of k (part_of n r kvs) = values_of k kvs" if "ihash k mod n = r" for k
    using that by (auto simp: values_of_def part_of_def intro!: arg_cong [where f = "map Value"] filter_cong)
  ultimately show ?thesis
    by (auto simp: spec_lines_def sorted_list_of_set_filter)
qed

lemma spec_lines_partition:
  assumes "0 < n"
  shows "mset (concat (map (\<lambda>r. spec_lines reducef (part_of n (int r) kvs)) [0..<nat n]))
    = mset (spec_lines reducef kvs)"
proof -
  let ?ks = "sorted_list_of_set (Key ` set kvs)"
  let ?g = "\<lambda>k. out_line k (reducef k (values_of k kvs))"
  have "(ihash k mod n = int r) = (nat (ihash k mod n) = r)" for k r
    using assms pos_mod_sign [of n "ihash k"] by auto
  then have "concat (map (\<lambda>r. spec_lines reducef (part_of n (int r) kvs)) [0..<nat n])
      = map ?g (concat (map (\<lambda>r. filter (\<lambda>k. nat (ihash k mod n) = r) ?ks) [0..<nat n]))"
    by (simp add: spec_lines_part map_concat comp_def)
  moreover have "mset (concat (map (\<lambda>r. filter (\<lambda>k. nat (ihash k mod n) = r) ?ks) [0..<nat n])) = mset ?ks"
    using assms by (intro mset_concat_map_filter_partition) simp
  ultimately show ?thesis by (simp add: spec_lines_def)
qed

lemma unmarshal_marshal:
  assumes "\<And>v. v \<in> set ws \<Longrightarrow> 0 \<le> v \<and> v < 256"
  shows "map uint (json_Unmarshal_bytes (json_Marshal_ints ws) old) = ws"
proof -
  have "map uint (map (\<lambda>(i, n). unmarshal_byte old i n) (enumerate m ws)) = ws" for m
    using assms
    by (induction ws arbitrary: m) (auto simp: unmarshal_byte_def uint_word_of_int take_bit_eq_mod)
  from this [of 0] show ?thesis
    unfolding json_Marshal_ints_def by (cases "ws = []") (simp_all del: map_map)
qed

subsection \<open>Properties\<close>

text \<open>C12: Saving the output of a map task of a registered worker with a positive number of
  partitions succeeds, appends to the worker's file of each partition the JSON form of exactly
  the records whose key hashes to that partition, in their order, and changes no other
  file.\<close>

theorem saveIntermediate_partitions:
  assumes "0 < w_nReduce w" and "0 \<le> info_id w"
  shows "\<exists>fs'. saveIntermediate w kvs fs = Some fs' \<and> texts fs' = texts fs
    \<and> (\<forall>r \<in> {0..<w_nReduce w}. streams fs' (inter_name (info_id w) r)
         = Some (stream_of fs (inter_name (info_id w) r) @ map json_kv (part_of (w_nReduce w) r kvs)))
    \<and> (\<forall>name. (\<forall>r \<in> {0..<w_nReduce w}. name \<noteq> inter_name (info_id w) r) \<longrightarrow>
         streams fs' name = streams fs name)"
  using saveIntermediate_spec [OF assms, of kvs fs] by (metis atLeastLessThan_iff)

theorem saveIntermediate_partitions_witness:
  "\<exists>fs'. saveIntermediate (init_worker\<lparr>info_id := 0, w_nReduce := 2\<rparr>)
      [\<lparr>Key = ''a'', Value = ''1''\<rparr>] \<lparr>texts = Map.empty, streams = Map.empty\<rparr> = Some fs'"
  using saveIntermediate_partitions [of "init_worker\<lparr>info_id := 0, w_nReduce := 2\<rparr>"
      "[\<lparr>Key = ''a'', Value = ''1''\<rparr>]" "\<lparr>texts = Map.empty, streams = Map.empty\<rparr>"]
  by (auto simp: init_worker_def)

text \<open>C13: The index arithmetic of the reduce loop (\<^verbatim>\<open>i\<close>, \<^verbatim>\<open>j\<close>, \<^verbatim>\<open>k\<close>) over records sorted by
  key computes the specification of the output: one line per key that occurs, in increasing
  key order, with the reduction of all values of that key.\<close>

theorem reduce_loop_meets_spec:
  assumes "go_sort srt" and "order_insensitive reducef"
  shows "reduce_loop reducef (srt xs) 0 = spec_lines reducef xs"
  by (rule go_sort.reduce_srt [OF assms])

theorem reduce_loop_meets_spec_witness:
  "reduce_loop (\<lambda>k vs. Itoa (int (length vs))) (sort_key Key
      [\<lparr>Key = ''b'', Value = ''1''\<rparr>, \<lparr>Key = ''a'', Value = ''1''\<rparr>, \<lparr>Key = ''b'', Value = ''1''\<rparr>]) 0
    = spec_lines (\<lambda>k vs. Itoa (int (length vs)))
      [\<lparr>Key = ''b'', Value = ''1''\<rparr>, \<lparr>Key = ''a'', Value = ''1''\<rparr>, \<lparr>Key = ''b'', Value = ''1''\<rparr>]"
proof -
  have "order_insensitive (\<lambda>k vs. Itoa (int (length vs)))"
    by (auto simp: order_insensitive_def dest: mset_eq_length)
  then show ?thesis by (rule reduce_loop_meets_spec [OF key_sort.go_sort_axioms])
qed



text \<open>The worker list of a reduce task arrives at the worker as the coordinator sent it
  as long as the worker numbers are below 256, the range of the byte slice it is decoded
  into.\<close>

lemma worker_list_transfer:
  assumes "\<And>v. v \<in> set ws \<Longrightarrow> 0 \<le> v \<and> v < 256"
  shows "map uint (json_Unmarshal_bytes (json_Marshal_ints ws) old) = ws"
  by (rule unmarshal_marshal) (rule assms)

text \<open>Worker number 256 and above do not survive the transfer: a reduce task that
  should read the files of worker 256 reads those of worker 0 instead.\<close>

lemma worker_list_transfer_overflow:
  "map uint (json_Unmarshal_bytes (json_Marshal_ints [256]) []) = [0]"
  by (simp add: json_Marshal_ints_def unmarshal_byte_def)

end
