(* ===== verification/Sequential.thy ===== *)
theory Sequential
  imports Worker
begin

text \<open>
  \<^verbatim>\<open>src/main/mrsequential.go\<close>: the sequential reference implementation of MapReduce, and
  the comparison of its output with the output of the partitioned run: the lines written by
  the reduce tasks are together a permutation of the lines written sequentially.  The loop
  that groups and reduces is the one of the worker, copied in the source.
\<close>

fun seq_read :: "(string \<Rightarrow> string \<Rightarrow> KeyValue list) \<Rightarrow> FS \<Rightarrow> string list \<Rightarrow> KeyValue list \<Rightarrow> KeyValue list option"
where
  "seq_read mapf fs [] intermediate = Some intermediate"
| "seq_read mapf fs (filename # names) intermediate = do {
     content \<leftarrow> texts fs filename;
     seq_read mapf fs names (intermediate @ mapf filename content)
   }"

definition seq_main ::
  "(KeyValue list \<Rightarrow> KeyValue list) \<Rightarrow> (string \<Rightarrow> string \<Rightarrow> KeyValue list) \<Rightarrow>
   (string \<Rightarrow> string list \<Rightarrow> string) \<Rightarrow> string list \<Rightarrow> FS \<Rightarrow> FS option" where
  "seq_main srt mapf reducef osArgs fs =
     (if length osArgs < 3 then None
      else do {
        intermediate \<leftarrow> seq_read mapf fs (drop 2 osArgs) [];
        Some (fs\<lparr>texts := (texts fs)(''mr-out-0'' \<mapsto> concat (reduce_loop reducef (srt intermediate) 0))\<rparr>)
      })"

definition all_kvs :: "(string \<Rightarrow> string \<Rightarrow> KeyValue list) \<Rightarrow> FS \<Rightarrow> string list \<Rightarrow> KeyValue list" where
  "all_kvs mapf fs names = concat (map (\<lambda>f. mapf f (the (texts fs f))) names)"

lemma seq_read_spec:
  "\<forall>f \<in> set names. texts fs f \<noteq> None \<Longrightarrow> seq_read mapf fs names acc = Some (acc @ all_kvs mapf fs names)"
  by (induction names arbitrary: acc) (auto simp: all_kvs_def)

lemma seq_read_missing:
  "f \<in> set names \<Longrightarrow> texts fs f = None \<Longrightarrow> seq_read mapf fs names acc = None"
  by (induction names arbitrary: acc) (auto split: bind_splits)

subsection \<open>Properties\<close>

text \<open>C14: With all input files readable, the sequential program ends normally and writes to
  \<^verbatim>\<open>mr-out-0\<close> one line per key in key order with the reduction of all its values, and
  changes no other file; with a missing input file it ends with an error and no output.\<close>

theorem seq_main_spec:
  assumes "go_sort srt" and "order_insensitive reducef" and "3 \<le> length osArgs"
  shows "seq_main srt mapf reducef osArgs fs =
    (if \<forall>f \<in> set (drop 2 osArgs). texts fs f \<noteq> None
     then Some (fs\<lparr>texts := (texts fs)(''mr-out-0'' \<mapsto>
            concat (spec_lines reducef (all_kvs mapf fs (drop 2 osArgs))))\<rparr>)
     else None)"
proof (cases "\<forall>f \<in> set (drop 2 osArgs). texts fs f \<noteq> None")
  case True
  with assms(3) seq_read_spec [OF True, of mapf "[]"] show ?thesis
    by (simp add: seq_main_def go_sort.reduce_srt [OF assms(1,2)])
next
  case False
  then obtain f where "f \<in> set (drop 2 osArgs)" "texts fs f = None" by blast
  then have "seq_read mapf fs (drop 2 osArgs) [] = None" by (rule seq_read_missing)
  with False assms(3) show ?thesis by (simp add: seq_main_def)
qed

theorem seq_main_spec_witness:
  "seq_main (sort_key Key) (\<lambda>f c. [\<lparr>Key = c, Value = f\<rparr>]) (\<lambda>k vs. Itoa (int (length vs)))
     [''mrsequential'', ''wc.so'', ''x''] \<lparr>texts = [''x'' \<mapsto> ''w''], streams = Map.empty\<rparr>
   = Some \<lparr>texts = [''x'' \<mapsto> ''w'', ''mr-out-0'' \<mapsto> ''w 1'' @ [CHR 0x0A]], streams = Map.empty\<rparr>"
proof -
  have "order_insensitive (\<lambda>k vs. Itoa (int (length vs)))"
    by (auto simp: order_insensitive_def dest: mset_eq_length)
  from seq_main_spec [OF key_sort.go_sort_axioms this, of "[''mrsequential'', ''wc.so'', ''x'']"]
  show ?thesis
    by (simp add: spec_lines_def all_kvs_def values_of_def out_line_def Itoa_samples)
qed

text \<open>However the records are distributed over the intermediate files, as long as each
  reduce task reads the records of its partition exactly once in some order, the lines of all
  reduce outputs are together a permutation of the lines of the sequential output.\<close>

lemma partitioned_equals_sequential:
  assumes "go_sort srt" and "order_insensitive reducef" and "0 < n"
    and "\<And>r. r < nat n \<Longrightarrow> mset (recs r) = mset (part_of n (int r) kvs)"
  shows "mset (concat (map (\<lambda>r. reduce_loop reducef (srt (recs r)) 0) [0..<nat n]))
    = mset (reduce_loop reducef (srt kvs) 0)"
proof -
  have "reduce_loop reducef (srt (recs r)) 0 = spec_lines reducef (part_of n (int r) kvs)"
    if "r < nat n" for r
    using go_sort.reduce_srt_perm [OF assms(1,2) assms(4) [OF that]] .
  then have "map (\<lambda>r. reduce_loop reducef (srt (recs r)) 0) [0..<nat n]
      = map (\<lambda>r. spec_lines reducef (part_of n (int r) kvs)) [0..<nat n]"
    by simp
  then show ?thesis
    by (simp only: go_sort.reduce_srt [OF assms(1,2)] spec_lines_partition [OF assms(3)])
qed

end
