(* ===== verification/Mr_Apps.thy ===== *)
theory Mr_Apps
  imports Sequential
begin

text \<open>
  The MapReduce applications of \<^verbatim>\<open>src/mrapps\<close>: word count, the inverted index, the
  crashing test application and its variants.  \<^verbatim>\<open>unicode.IsLetter\<close> is the argument
  \<open>isLetter\<close>; the order in which Go iterates over a map is the argument \<open>ord\<close>; the draw of
  \<^verbatim>\<open>crypto/rand\<close> is the argument \<open>rr\<close>.  Sleeping has no effect on the result.
\<close>

subsection \<open>wc.go\<close>

definition wc_Map :: "(nat \<Rightarrow> bool) \<Rightarrow> string \<Rightarrow> string \<Rightarrow> KeyValue list" where
  "wc_Map isLetter filename contents =
     (let ff = (\<lambda>r. \<not> isLetter r);
          words = FieldsFunc contents ff
      in map (\<lambda>w. \<lparr>Key = w, Value = ''1''\<rparr>) words)"

definition wc_Reduce :: "string \<Rightarrow> string list \<Rightarrow> string" where
  "wc_Reduce key values = Itoa (int (length values))"

subsection \<open>indexer.go\<close>

definition indexer_Map ::
  "(nat \<Rightarrow> bool) \<Rightarrow> (string list \<Rightarrow> string list) \<Rightarrow> string \<Rightarrow> string \<Rightarrow> KeyValue list" where
  "indexer_Map isLetter ord document value =
     (let words = FieldsFunc value (\<lambda>x. \<not> isLetter x);
          m = foldl (\<lambda>m w. List.insert w m) [] words
      in map (\<lambda>w. \<lparr>Key = w, Value = document\<rparr>) (ord m))"

definition indexer_Reduce :: "string \<Rightarrow> string list \<Rightarrow> string" where
  "indexer_Reduce key values =
     (let values' = sort values in Itoa (int (length values')) @ '' '' @ Join values' '','')"

subsection \<open>crash.go and nocrash.go\<close>

text \<open>\<^verbatim>\<open>maybeCrash\<close>: a draw below 330 ends the process, one below 660 sleeps.\<close>

definition maybeCrash :: "nat \<Rightarrow> unit option" where
  "maybeCrash rr = (if rr < 330 then None else if rr < 660 then Some () else Some ())"

definition crash_Map :: "nat \<Rightarrow> string \<Rightarrow> string \<Rightarrow> KeyValue list option" where
  "crash_Map rr filename contents = do {
     maybeCrash rr;
     Some [\<lparr>Key = ''a'', Value = filename\<rparr>,
           \<lparr>Key = ''b'', Value = Itoa (int (length filename))\<rparr>,
           \<lparr>Key = ''c'', Value = Itoa (int (length contents))\<rparr>,
           \<lparr>Key = ''d'', Value = ''xyzzy''\<rparr>]
   }"

definition crash_Reduce :: "nat \<Rightarrow> string \<Rightarrow> string list \<Rightarrow> string option" where
  "crash_Reduce rr key values = do {
     maybeCrash rr;
     (let vv = sort values in Some (Join vv '' ''))
   }"

definition nocrash_maybeCrash :: "nat \<Rightarrow> unit option" where
  "nocrash_maybeCrash rr = (if False \<and> rr < 500 then None else Some ())"

definition nocrash_Map :: "nat \<Rightarrow> string \<Rightarrow> string \<Rightarrow> KeyValue list option" where
  "nocrash_Map rr filename contents = do {
     nocrash_maybeCrash rr;
     Some [\<lparr>Key = ''a'', Value = filename\<rparr>,
           \<lparr>Key = ''b'', Value = Itoa (int (length filename))\<rparr>,
           \<lparr>Key = ''c'', Value = Itoa (int (length contents))\<rparr>,
           \<lparr>Key = ''d'', Value = ''xyzzy''\<rparr>]
   }"

definition nocrash_Reduce :: "nat \<Rightarrow> string \<Rightarrow> string list \<Rightarrow> string option" where
  "nocrash_Reduce rr key values = do {
     nocrash_maybeCrash rr;
     (let vv = sort values in Some (Join vv '' ''))
   }"

subsection \<open>early\_exit.go, jobcount.go, rtiming.go\<close>

definition early_exit_Map :: "string \<Rightarrow> string \<Rightarrow> KeyValue list" where
  "early_exit_Map filename contents = [\<lparr>Key = filename, Value = ''1''\<rparr>]"

definition early_exit_Reduce :: "string \<Rightarrow> string list \<Rightarrow> string" where
  "early_exit_Reduce key values = Itoa (int (length values))"

text \<open>
  \<open>jobcount\<close> counts its calls by creating files; the process number is \<open>me\<close>, the
  package variable \<open>count\<close> and the names of the directory are threaded through.
\<close>

definition jobcount_Map ::
  "int \<Rightarrow> string \<Rightarrow> string \<Rightarrow> int \<times> string list \<Rightarrow> KeyValue list \<times> (int \<times> string list)" where
  "jobcount_Map me filename contents = (\<lambda>(count, dir).
     let f = ''mr-worker-jobcount-'' @ Itoa me @ ''-'' @ Itoa count
     in ([\<lparr>Key = ''a'', Value = ''x''\<rparr>], (count + 1, List.insert f dir)))"

definition HasPrefix :: "string \<Rightarrow> string \<Rightarrow> bool" where
  "HasPrefix s p = (length p \<le> length s \<and> take (length p) s = p)"

definition jobcount_Reduce :: "string list \<Rightarrow> string \<Rightarrow> string list \<Rightarrow> string" where
  "jobcount_Reduce dir key values =
     (let invocations = foldl (\<lambda>n f. if HasPrefix f ''mr-worker-jobcount'' then n + 1 else n) 0 dir
      in Itoa invocations)"

definition rtiming_Map :: "string \<Rightarrow> string \<Rightarrow> KeyValue list" where
  "rtiming_Map filename contents =
     [\<lparr>Key = ''a'', Value = ''1''\<rparr>, \<lparr>Key = ''b'', Value = ''1''\<rparr>, \<lparr>Key = ''c'', Value = ''1''\<rparr>,
      \<lparr>Key = ''d'', Value = ''1''\<rparr>, \<lparr>Key = ''e'', Value = ''1''\<rparr>, \<lparr>Key = ''f'', Value = ''1''\<rparr>,
      \<lparr>Key = ''g'', Value = ''1''\<rparr>, \<lparr>Key = ''h'', Value = ''1''\<rparr>, \<lparr>Key = ''i'', Value = ''1''\<rparr>,
      \<lparr>Key = ''j'', Value = ''1''\<rparr>]"

subsection \<open>The reducers do not depend on the order of the values\<close>

lemma sort_cong_mset: "mset vs = mset vs' \<Longrightarrow> sort vs = sort vs'"
  by (rule properties_for_sort) simp_all

lemma wc_Reduce_order_insensitive: "order_insensitive wc_Reduce"
  by (auto simp: order_insensitive_def wc_Reduce_def dest: mset_eq_length)

lemma indexer_Reduce_order_insensitive: "order_insensitive indexer_Reduce"
  unfolding order_insensitive_def
proof (intro allI impI)
  fix k and vs vs' :: "string list"
  assume eq: "mset vs = mset vs'"
  then have "length vs = length vs'" and "sort vs = sort vs'"
    by (rule mset_eq_length, rule sort_cong_mset)
  then show "indexer_Reduce k vs = indexer_Reduce k vs'" by (simp add: indexer_Reduce_def)
qed

lemma nocrash_eq_crash_that_survives:
  "330 \<le> rr \<Longrightarrow> crash_Map rr f c = nocrash_Map rr' f c \<and> crash_Reduce rr k vs = nocrash_Reduce rr' k vs"
  by (simp add: crash_Map_def nocrash_Map_def crash_Reduce_def nocrash_Reduce_def maybeCrash_def
      nocrash_maybeCrash_def)

lemma set_insert_fold: "set (foldl (\<lambda>m w. List.insert w m) m ws) = set m \<union> set ws"
  by (induction ws arbitrary: m) auto

lemma distinct_insert_fold: "distinct m \<Longrightarrow> distinct (foldl (\<lambda>m w. List.insert w m) m ws)"
  by (induction ws arbitrary: m) auto

subsection \<open>Properties\<close>

definition all_words :: "(nat \<Rightarrow> bool) \<Rightarrow> FS \<Rightarrow> string list \<Rightarrow> string list" where
  "all_words isLetter fs names =
     concat (map (\<lambda>f. FieldsFunc (the (texts fs f)) (\<lambda>r. \<not> isLetter r)) names)"

lemma all_kvs_wc:
  "all_kvs (wc_Map isLetter) fs names = map (\<lambda>w. \<lparr>Key = w, Value = ''1''\<rparr>) (all_words isLetter fs names)"
  by (induction names) (simp_all add: all_kvs_def all_words_def wc_Map_def)

lemma values_of_wc: "length (values_of k (map (\<lambda>w. \<lparr>Key = w, Value = v\<rparr>) ws)) = count_list ws k"
  by (induction ws) (auto simp: values_of_def)

text \<open>Word count, run by the sequential program over readable files, writes for every
  word of the files, in word order, the word and the number of its occurrences in all files
  together.\<close>

lemma word_count_correct:
  assumes "go_sort srt" and "3 \<le> length osArgs" and "\<forall>f \<in> set (drop 2 osArgs). texts fs f \<noteq> None"
  shows "\<exists>fs'. seq_main srt (wc_Map isLetter) wc_Reduce osArgs fs = Some fs' \<and>
    texts fs' ''mr-out-0'' = Some (concat (map
      (\<lambda>w. out_line w (Itoa (int (count_list (all_words isLetter fs (drop 2 osArgs)) w))))
      (sorted_list_of_set (set (all_words isLetter fs (drop 2 osArgs))))))"
  using assms
  by (simp add: seq_main_spec [OF assms(1) wc_Reduce_order_insensitive assms(2)] spec_lines_def
      all_kvs_wc wc_Reduce_def values_of_wc image_image)

text \<open>The indexer emits each distinct word of a document exactly once, with the
  document's name.\<close>

lemma indexer_Map_each_word_once:
  assumes "\<And>xs. mset (ord xs) = mset xs"
  shows "mset (indexer_Map isLetter ord document value) =
    mset (map (\<lambda>w. \<lparr>Key = w, Value = document\<rparr>)
      (sorted_list_of_set (set (FieldsFunc value (\<lambda>x. \<not> isLetter x)))))"
proof -
  let ?ws = "FieldsFunc value (\<lambda>x. \<not> isLetter x)"
  let ?m = "foldl (\<lambda>m w. List.insert w m) [] ?ws"
  have "mset (ord ?m) = mset_set (set ?ws)"
    using mset_set_set [OF distinct_insert_fold [of "[]" ?ws]] by (simp add: assms set_insert_fold)
  also have "\<dots> = mset (sorted_list_of_set (set ?ws))"
    using mset_set_set [of "sorted_list_of_set (set ?ws)"] by simp
  finally have "mset (ord ?m) = mset (sorted_list_of_set (set ?ws))" .
  then show ?thesis by (simp add: indexer_Map_def)
qed

end
