(* ===== verification/Mr_Timing.thy ===== *)
theory Mr_Timing
  imports Mr_Apps
begin

text \<open>
  The applications that measure how many workers run at the same time, \<^verbatim>\<open>mtiming.go\<close> and \<^verbatim>\<open>rtiming.go\<close>.  Both
  have the same function \<^verbatim>\<open>nparallel\<close>: it creates a file with its process number in the name, counts the files of
  this kind whose process is alive, sleeps, and removes its file.  Other processes may do the same at any
  moment, so its three sections are separate definitions.  The directory is the list of its names; \<open>ord\<close> is the order
  in which \<^verbatim>\<open>Readdirnames\<close> returns them, and \<open>alive p\<close> says that \<^verbatim>\<open>Kill(p, 0)\<close> gives no error.  The time that \<^verbatim>\<open>Map\<close>
  prints is an argument, already formatted.  Creating, opening and reading succeed; an error there panics.
\<close>

subsection \<open>fmt.Sscanf with a literal and one verb \%d\<close>

definition isSpace :: "nat \<Rightarrow> bool" where
  "isSpace r \<longleftrightarrow> 0x9 \<le> r \<and> r \<le> 0xD \<or> r \<in> {0x20, 0x85, 0xA0, 0x1680, 0x2028, 0x2029, 0x202F, 0x205F, 0x3000}
     \<or> 0x2000 \<le> r \<and> r \<le> 0x200A"

text \<open>Blanks before the number are skipped; a newline among them is an error.\<close>

fun SkipSpace :: "nat list \<Rightarrow> nat list option" where
  "SkipSpace [] = Some []"
| "SkipSpace (r # rs) = (if r = 10 then None else if isSpace r then SkipSpace rs else Some (r # rs))"

definition is_digit :: "nat \<Rightarrow> bool" where
  "is_digit r \<longleftrightarrow> 48 \<le> r \<and> r \<le> 57"

definition rune_digits_value :: "nat list \<Rightarrow> int" where
  "rune_digits_value ds = foldl (\<lambda>v r. 10 * v + (int r - 48)) 0 ds"

definition in_int64 :: "int \<Rightarrow> bool" where
  "in_int64 i \<longleftrightarrow> - (2 ^ 63) \<le> i \<and> i < 2 ^ 63"

definition scan_number :: "bool \<Rightarrow> nat list \<Rightarrow> int option" where
  "scan_number neg rs =
     (let tok = takeWhile is_digit rs; v = (if neg then - rune_digits_value tok else rune_digits_value tok)
      in if tok = [] \<or> \<not> in_int64 v then None else Some v)"

definition scanInt :: "nat list \<Rightarrow> int option" where
  "scanInt rs = do {
     rs1 \<leftarrow> SkipSpace rs;
     (case rs1 of
        [] \<Rightarrow> None
      | r # rs2 \<Rightarrow> if r = 43 then scan_number False rs2 else if r = 45 then scan_number True rs2 else scan_number False rs1)
   }"

definition Sscanf_d :: "string \<Rightarrow> string \<Rightarrow> int option" where
  "Sscanf_d lit s = (if HasPrefix s lit then scanInt (map fst (runes (drop (length lit) s))) else None)"

subsection \<open>nparallel\<close>

definition worker_prefix :: "string \<Rightarrow> string" where
  "worker_prefix phase = ''mr-worker-'' @ phase @ ''-''"

definition worker_file :: "string \<Rightarrow> int \<Rightarrow> string" where
  "worker_file phase pid = worker_prefix phase @ Itoa pid"

definition nparallel_create :: "string \<Rightarrow> int \<Rightarrow> string list \<Rightarrow> string list" where
  "nparallel_create phase pid dir = List.insert (worker_file phase pid) dir"

definition nparallel_scan :: "string \<Rightarrow> (string list \<Rightarrow> string list) \<Rightarrow> (int \<Rightarrow> bool) \<Rightarrow> string list \<Rightarrow> int" where
  "nparallel_scan phase ord alive dir =
     (let names = take 1000000 (ord dir)
      in foldl (\<lambda>ret name.
           case Sscanf_d (worker_prefix phase) name of None \<Rightarrow> ret | Some xpid \<Rightarrow> if alive xpid then ret + 1 else ret) 0 names)"

text \<open>Removing a file that is not there panics.\<close>

definition nparallel_remove :: "string \<Rightarrow> int \<Rightarrow> string list \<Rightarrow> string list option" where
  "nparallel_remove phase pid dir =
     (if worker_file phase pid \<in> set dir then Some (removeAll (worker_file phase pid) dir) else None)"

text \<open>The whole function; \<open>others\<close> is what other processes do to the directory while it sleeps.\<close>

definition nparallel ::
  "(string list \<Rightarrow> string list) \<Rightarrow> (int \<Rightarrow> bool) \<Rightarrow> (string list \<Rightarrow> string list) \<Rightarrow> string \<Rightarrow> int \<Rightarrow> string list
     \<Rightarrow> (int \<times> string list) option" where
  "nparallel ord alive others phase pid dir = do {
     let dir1 = nparallel_create phase pid dir;
     let ret = nparallel_scan phase ord alive dir1;
     dir2 \<leftarrow> nparallel_remove phase pid (others dir1);
     Some (ret, dir2)
   }"

subsection \<open>mtiming.go and rtiming.go\<close>

definition mtiming_Map ::
  "(string list \<Rightarrow> string list) \<Rightarrow> (int \<Rightarrow> bool) \<Rightarrow> (string list \<Rightarrow> string list) \<Rightarrow> string \<Rightarrow> int
     \<Rightarrow> string \<Rightarrow> string \<Rightarrow> string list \<Rightarrow> (KeyValue list \<times> string list) option" where
  "mtiming_Map ord alive others ts pid filename contents dir = do {
     (n, dir1) \<leftarrow> nparallel ord alive others ''map'' pid dir;
     Some ([\<lparr>Key = ''times-'' @ Itoa pid, Value = ts\<rparr>, \<lparr>Key = ''parallel-'' @ Itoa pid, Value = Itoa n\<rparr>], dir1)
   }"

definition mtiming_Reduce :: "string \<Rightarrow> string list \<Rightarrow> string" where
  "mtiming_Reduce key values = (let vv = sort values in Join vv '' '')"

definition rtiming_Reduce ::
  "(string list \<Rightarrow> string list) \<Rightarrow> (int \<Rightarrow> bool) \<Rightarrow> (string list \<Rightarrow> string list) \<Rightarrow> int
     \<Rightarrow> string \<Rightarrow> string list \<Rightarrow> string list \<Rightarrow> (string \<times> string list) option" where
  "rtiming_Reduce ord alive others pid key values dir = do {
     (n, dir1) \<leftarrow> nparallel ord alive others ''reduce'' pid dir;
     Some (Itoa n, dir1)
   }"

lemma mtiming_Reduce_order_insensitive: "order_insensitive mtiming_Reduce"
  by (auto simp: order_insensitive_def mtiming_Reduce_def dest: sort_cong_mset)

subsection \<open>A file name is read back\<close>

lemma runes_ascii: "\<forall>c \<in> set s. byte_of c < 0x80 \<Longrightarrow> runes s = map (\<lambda>c. (byte_of c, [c])) s"
  by (induction s) (simp_all add: runes_ascii_Cons)

lemma rune_digits_value_bytes:
  assumes "\<forall>c \<in> set ds. 48 \<le> byte_of c"
  shows "rune_digits_value (map byte_of ds) = int (digits_value ds)"
  using assms by (induction ds rule: rev_induct) (auto simp: rune_digits_value_def digits_value_def)

lemma nat_digits_not_Nil [simp]: "nat_digits n \<noteq> []"
  by (simp add: nat_digits.simps)

lemma scan_nat_digits:
  assumes "in_int64 (if neg then - int n else int n)"
  shows "scan_number neg (map byte_of (nat_digits n)) = Some (if neg then - int n else int n)"
proof -
  have d: "48 \<le> byte_of c \<and> byte_of c \<le> 57" if "c \<in> set (nat_digits n)" for c using digits_in_nat_digits [OF that] .
  then have "takeWhile is_digit (map byte_of (nat_digits n)) = map byte_of (nat_digits n)" by (intro takeWhile_eq_all_conv [THEN iffD2]) (auto simp: is_digit_def)
  moreover have "rune_digits_value (map byte_of (nat_digits n)) = int n" using rune_digits_value_bytes [of "nat_digits n"] d digits_value_nat_digits by simp
  ultimately show ?thesis unfolding scan_number_def Let_def using assms by (simp only:) simp
qed

lemma isSpace_graphic [simp]: "33 \<le> r \<Longrightarrow> r \<le> 126 \<Longrightarrow> \<not> isSpace r"
  by (auto simp: isSpace_def)

lemma scanInt_Itoa:
  assumes "in_int64 i"
  shows "scanInt (map fst (runes (Itoa i))) = Some i"
proof (cases "i < 0")
  case True
  have "\<forall>c \<in> set (Itoa i). byte_of c < 0x80" using digits_in_nat_digits True by (fastforce simp: Itoa_def)
  then have "map fst (runes (Itoa i)) = 45 # map byte_of (nat_digits (nat (- i)))" using True by (simp add: runes_ascii Itoa_def)
  then show ?thesis using scan_nat_digits [of True "nat (- i)"] assms True by (simp add: scanInt_def)
next
  case False
  let ?n = "nat_digits (nat i)"
  have d: "\<forall>c \<in> set ?n. 48 \<le> byte_of c \<and> byte_of c \<le> 57" using digits_in_nat_digits by blast
  then have "\<forall>c \<in> set ?n. byte_of c < 0x80" by fastforce
  then have r: "map fst (runes (Itoa i)) = map byte_of ?n" using False by (simp add: runes_ascii Itoa_def)
  obtain c cs where c: "?n = c # cs" by (cases ?n) auto
  then have "48 \<le> byte_of c" "byte_of c \<le> 57" using d by auto
  then show ?thesis using scan_nat_digits [of False "nat i"] assms False by (simp add: scanInt_def r c)
qed

lemma Sscanf_worker_file: "in_int64 p \<Longrightarrow> Sscanf_d (worker_prefix phase) (worker_file phase p) = Some p"
  by (simp add: Sscanf_d_def worker_file_def HasPrefix_def scanInt_Itoa)

subsection \<open>Processes that run together\<close>

text \<open>
  Processes that call \<^verbatim>\<open>nparallel\<close> with the same phase in the same directory, their sections in any order.
  \<open>np_alive\<close> are the processes that run, \<open>np_inside\<close> those between creating and removing their file.  A process
  may die at any moment, and leaves its file.
\<close>

record np_state =
  np_dir :: "string list"
  np_alive :: "int set"
  np_inside :: "int set"

inductive np_step :: "string \<Rightarrow> np_state \<Rightarrow> np_state \<Rightarrow> bool" for phase where
  create: "p \<in> np_alive s \<Longrightarrow> p \<notin> np_inside s \<Longrightarrow>
    np_step phase s (s\<lparr>np_dir := nparallel_create phase p (np_dir s), np_inside := insert p (np_inside s)\<rparr>)"
| remove: "p \<in> np_inside s \<Longrightarrow> nparallel_remove phase p (np_dir s) = Some dir \<Longrightarrow>
    np_step phase s (s\<lparr>np_dir := dir, np_inside := np_inside s - {p}\<rparr>)"
| die: "np_step phase s (s\<lparr>np_alive := np_alive s - {p}, np_inside := np_inside s - {p}\<rparr>)"

inductive np_reach :: "string \<Rightarrow> string list \<Rightarrow> int set \<Rightarrow> np_state \<Rightarrow> bool" for phase dir0 A where
  begin_state: "np_reach phase dir0 A \<lparr>np_dir = dir0, np_alive = A, np_inside = {}\<rparr>"
| step: "np_reach phase dir0 A s \<Longrightarrow> np_step phase s t \<Longrightarrow> np_reach phase dir0 A t"

text \<open>The names that the scan recognises, and the number in each.\<close>

definition worker_names :: "string \<Rightarrow> string list \<Rightarrow> string set" where
  "worker_names phase dir = {x \<in> set dir. Sscanf_d (worker_prefix phase) x \<noteq> None}"

lemma worker_file_inj [simp]: "worker_file phase p = worker_file phase q \<longleftrightarrow> p = q"
  by (auto simp: worker_file_def dest: Itoa_inj)

lemma worker_names_create:
  "in_int64 p \<Longrightarrow> worker_names phase (nparallel_create phase p dir) = insert (worker_file phase p) (worker_names phase dir)"
  by (auto simp: worker_names_def nparallel_create_def Sscanf_worker_file)

lemma worker_names_remove:
  "nparallel_remove phase p dir = Some dir' \<Longrightarrow> worker_names phase dir' = worker_names phase dir - {worker_file phase p}"
  by (auto simp: worker_names_def nparallel_remove_def split: if_splits)

text \<open>The files of the phase belong to the processes inside and to dead ones.\<close>

definition np_ok :: "string \<Rightarrow> np_state \<Rightarrow> bool" where
  "np_ok phase s \<longleftrightarrow> distinct (np_dir s) \<and> finite (np_inside s) \<and> np_inside s \<subseteq> np_alive s \<and> (\<forall>p \<in> np_alive s. in_int64 p) \<and>
     (\<exists>D. (\<forall>p \<in> D. in_int64 p) \<and> D \<inter> np_alive s = {} \<and> worker_names phase (np_dir s) = worker_file phase ` (np_inside s \<union> D))"

lemma np_step_ok:
  assumes "np_step phase s t" and "np_ok phase s"
  shows "np_ok phase t"
proof -
  obtain D where D: "\<forall>p \<in> D. in_int64 p" "D \<inter> np_alive s = {}" "worker_names phase (np_dir s) = worker_file phase ` (np_inside s \<union> D)"
    and ok: "distinct (np_dir s)" "finite (np_inside s)" "np_inside s \<subseteq> np_alive s" "\<forall>p \<in> np_alive s. in_int64 p"
    using assms(2) by (auto simp: np_ok_def)
  from assms(1) show ?thesis
  proof cases
    case (create p)
    have "worker_names phase (np_dir t) = worker_file phase ` (np_inside t \<union> D)"
      using D(3) ok(4) create by (simp add: worker_names_create)
    then show ?thesis unfolding np_ok_def using D ok create by (intro conjI exI [of _ D]) (auto simp: nparallel_create_def)
  next
    case (remove p dir)
    have "p \<notin> D" using D(2) ok(3) remove by blast
    then have "worker_file phase ` (np_inside s \<union> D) - {worker_file phase p} = worker_file phase ` (np_inside t \<union> D)" using remove by auto
    then have "worker_names phase (np_dir t) = worker_file phase ` (np_inside t \<union> D)"
      using D(3) remove by (simp add: worker_names_remove)
    moreover have "distinct (np_dir t)" using ok(1) remove by (auto simp: nparallel_remove_def distinct_removeAll split: if_splits)
    ultimately show ?thesis unfolding np_ok_def using D ok remove by (intro conjI exI [of _ D]) auto
  next
    case (die p)
    let ?D = "if p \<in> np_inside s then insert p D else D"
    have "np_inside t \<union> ?D = np_inside s \<union> D" using die by auto
    then have "worker_names phase (np_dir t) = worker_file phase ` (np_inside t \<union> ?D)" using D(3) die by simp
    then show ?thesis unfolding np_ok_def using D ok die by (intro conjI exI [of _ ?D]) auto
  qed
qed

lemma np_reach_ok:
  assumes "np_reach phase dir0 A s" and "distinct dir0" "\<forall>p \<in> A. in_int64 p" "\<forall>x \<in> set dir0. Sscanf_d (worker_prefix phase) x = None"
  shows "np_ok phase s"
  using assms(1)
proof (induction rule: np_reach.induct)
  case begin_state
  have "worker_names phase dir0 = {}" using assms(4) by (auto simp: worker_names_def)
  then show ?case using assms(2,3) by (auto simp: np_ok_def)
qed (rule np_step_ok)

text \<open>The loop counts.\<close>

lemma scan_loop:
  "foldl (\<lambda>ret name. case f name of None \<Rightarrow> ret | Some x \<Rightarrow> if alive x then ret + 1 else ret) k names =
     k + int (length (filter (\<lambda>name. case f name of None \<Rightarrow> False | Some x \<Rightarrow> alive x) names))"
  by (induction names arbitrary: k) (auto split: option.split)

lemma nparallel_scan_card:
  assumes "mset (ord dir) = mset dir" and "distinct dir" and "length dir \<le> 1000000"
  shows "nparallel_scan phase ord alive dir = int (card {x \<in> set dir. case Sscanf_d (worker_prefix phase) x of None \<Rightarrow> False | Some p \<Rightarrow> alive p})"
proof -
  let ?P = "\<lambda>x. case Sscanf_d (worker_prefix phase) x of None \<Rightarrow> False | Some p \<Rightarrow> alive p"
  have "length (ord dir) \<le> 1000000" using assms(1,3) by (metis mset_eq_length)
  then have "nparallel_scan phase ord alive dir = int (length (filter ?P (ord dir)))" by (simp add: nparallel_scan_def scan_loop)
  also have "length (filter ?P (ord dir)) = card (set (filter ?P (ord dir)))"
    using assms(1,2) by (metis distinct_card distinct_filter mset_eq_imp_distinct_iff)
  also have "set (filter ?P (ord dir)) = {x \<in> set dir. ?P x}" using mset_eq_setD [OF assms(1)] by auto
  finally show ?thesis .
qed

subsection \<open>Property\<close>



end
