(* ===== verification/Drivers.thy ===== *)
theory Drivers
  imports Mr_Timing
begin

text \<open>
  The command line programs of \<^verbatim>\<open>src/main\<close>.  A program that prints its usage or an error and exits gives \<open>Inl\<close>; otherwise
  it gives what it has started.  The packages \<^verbatim>\<open>diskv\<close>, \<^verbatim>\<open>lockservice\<close>, \<^verbatim>\<open>pbservice\<close> and \<^verbatim>\<open>viewservice\<close> are not in the
  repository: their functions are arguments over an arbitrary world \<open>'w\<close>.  So is \<^verbatim>\<open>plugin.Open\<close>.  The endless
  sleep of a server after it has started its service does nothing.  The sequential program is in \<open>Sequential\<close>.
\<close>

datatype driver_error = Usage string | Fatal string | BadSymbol

subsection \<open>strconv\<close>

definition maxUint64 :: int where
  "maxUint64 = 2 ^ 64 - 1"

text \<open>The loop of \<^verbatim>\<open>ParseUint\<close> with base 10: \<open>None\<close> for a character that is no digit, the largest number as soon as
  the value is out of range.\<close>

fun ParseUint_loop :: "int \<Rightarrow> string \<Rightarrow> int option" where
  "ParseUint_loop n [] = Some n"
| "ParseUint_loop n (c # s) =
     (if \<not> is_digit (byte_of c) then None
      else if maxUint64 div 10 + 1 \<le> n then Some maxUint64
      else let n1 = n * 10 + (int (byte_of c) - 48) in if maxUint64 < n1 then Some maxUint64 else ParseUint_loop n1 s)"

definition ParseUint :: "string \<Rightarrow> int option" where
  "ParseUint s = (if s = [] then None else ParseUint_loop 0 s)"

text \<open>The value that \<^verbatim>\<open>ParseInt(s, 10, 64)\<close> returns beside its error: zero if the text is no number, the nearest number if it
  is out of range.  \<^verbatim>\<open>Atoi\<close> returns the same value.\<close>

definition int_of_Uint :: "bool \<Rightarrow> int option \<Rightarrow> int" where
  "int_of_Uint neg r = (case r of
     None \<Rightarrow> 0
   | Some un \<Rightarrow> if \<not> neg \<and> 2 ^ 63 \<le> un then 2 ^ 63 - 1
       else if neg \<and> 2 ^ 63 < un then - (2 ^ 63)
       else if neg then - un else un)"

definition ParseInt :: "string \<Rightarrow> int" where
  "ParseInt s = (case s of
     [] \<Rightarrow> 0
   | c # t \<Rightarrow> if c = CHR ''+'' then int_of_Uint False (ParseUint t)
       else if c = CHR ''-'' then int_of_Uint True (ParseUint t) else int_of_Uint False (ParseUint s))"

definition Atoi :: "string \<Rightarrow> int" where
  "Atoi s = ParseInt s"

definition ParseBool :: "string \<Rightarrow> bool" where
  "ParseBool s \<longleftrightarrow> s \<in> {''1'', ''t'', ''T'', ''TRUE'', ''true'', ''True''}"

subsection \<open>diskvd.go\<close>

record diskvd_flags =
  f_gid :: int
  f_masters :: "string list"
  f_replicas :: "string list"
  f_me :: int
  f_unreliable :: bool
  f_dir :: string
  f_restart :: bool

definition diskvd_usage :: driver_error where
  "diskvd_usage = Usage ''Usage: diskvd -g gid -m master... -s server... -i my-index -d dir''"

fun diskvd_loop :: "string list \<Rightarrow> diskvd_flags \<Rightarrow> driver_error + diskvd_flags" where
  "diskvd_loop (a0 # a1 # as) f =
     (if a0 = ''-g'' then diskvd_loop as (f\<lparr>f_gid := ParseInt a1\<rparr>)
      else if a0 = ''-m'' then diskvd_loop as (f\<lparr>f_masters := f_masters f @ [a1]\<rparr>)
      else if a0 = ''-s'' then diskvd_loop as (f\<lparr>f_replicas := f_replicas f @ [a1]\<rparr>)
      else if a0 = ''-i'' then diskvd_loop as (f\<lparr>f_me := Atoi a1\<rparr>)
      else if a0 = ''-u'' then diskvd_loop as (f\<lparr>f_unreliable := ParseBool a1\<rparr>)
      else if a0 = ''-d'' then diskvd_loop as (f\<lparr>f_dir := a1\<rparr>)
      else if a0 = ''-r'' then diskvd_loop as (f\<lparr>f_restart := ParseBool a1\<rparr>)
      else Inl diskvd_usage)"
| "diskvd_loop _ f = Inr f"

definition no_flags :: diskvd_flags where
  "no_flags = \<lparr>f_gid = -1, f_masters = [], f_replicas = [], f_me = -1, f_unreliable = False, f_dir = '''', f_restart = False\<rparr>"

definition diskvd_main ::
  "(int \<Rightarrow> string list \<Rightarrow> string list \<Rightarrow> int \<Rightarrow> string \<Rightarrow> bool \<Rightarrow> 'w \<Rightarrow> 'srv \<times> 'w) \<Rightarrow> (bool \<Rightarrow> 'srv \<Rightarrow> 'w \<Rightarrow> 'w)
     \<Rightarrow> string list \<Rightarrow> 'w \<Rightarrow> driver_error + 'w" where
  "diskvd_main StartServer Setunreliable osArgs w =
     (case diskvd_loop (drop 1 osArgs) no_flags of
        Inl e \<Rightarrow> Inl e
      | Inr f \<Rightarrow>
          if f_gid f < 0 \<or> f_me f < 0 \<or> length (f_masters f) < 1 \<or> int (length (f_replicas f)) \<le> f_me f \<or> f_dir f = ''''
          then Inl diskvd_usage
          else let (srv, w1) = StartServer (f_gid f) (f_masters f) (f_replicas f) (f_me f) (f_dir f) (f_restart f) w
               in Inr (Setunreliable (f_unreliable f) srv w1))"

subsection \<open>lockc.go and lockd.go\<close>

definition lockc_usage :: driver_error where
  "lockc_usage = Usage ''Usage: lockc -l|-u primaryport backupport lockname''"

text \<open>The result is the line that is printed and the world.\<close>

definition lockc_main ::
  "(string \<Rightarrow> string \<Rightarrow> 'ck) \<Rightarrow> (string \<Rightarrow> 'ck \<Rightarrow> 'w \<Rightarrow> bool \<times> 'w) \<Rightarrow> (string \<Rightarrow> 'ck \<Rightarrow> 'w \<Rightarrow> bool \<times> 'w)
     \<Rightarrow> string list \<Rightarrow> 'w \<Rightarrow> driver_error + string \<times> 'w" where
  "lockc_main MakeClerk Lock Unlock osArgs w =
     (if length osArgs = 5 then
        let ck = MakeClerk (osArgs ! 2) (osArgs ! 3);
            show_ok = (\<lambda>(ok, w1). Inr (''reply: '' @ (if ok then ''true'' else ''false''), w1)) in
        if osArgs ! 1 = ''-l'' then show_ok (Lock (osArgs ! 4) ck w)
        else if osArgs ! 1 = ''-u'' then show_ok (Unlock (osArgs ! 4) ck w)
        else Inl lockc_usage
      else Inl lockc_usage)"

definition lockd_main :: "(string \<Rightarrow> string \<Rightarrow> bool \<Rightarrow> 'w \<Rightarrow> 'w) \<Rightarrow> string list \<Rightarrow> 'w \<Rightarrow> driver_error + 'w" where
  "lockd_main StartServer osArgs w =
     (if length osArgs = 4 \<and> osArgs ! 1 = ''-p'' then Inr (StartServer (osArgs ! 2) (osArgs ! 3) True w)
      else if length osArgs = 4 \<and> osArgs ! 1 = ''-b'' then Inr (StartServer (osArgs ! 2) (osArgs ! 3) False w)
      else Inl (Usage ''Usage: lockd -p|-b primaryport backupport''))"

subsection \<open>pbc.go, pbd.go and viewd.go\<close>

definition pbc_usage :: driver_error where
  "pbc_usage = Usage (''Usage: pbc viewport key'' @ [CHR 0x0A] @ ''       pbc viewport key value'')"

definition pbc_main ::
  "(string \<Rightarrow> string \<Rightarrow> 'ck) \<Rightarrow> (string \<Rightarrow> 'ck \<Rightarrow> 'w \<Rightarrow> string \<times> 'w) \<Rightarrow> (string \<Rightarrow> string \<Rightarrow> 'ck \<Rightarrow> 'w \<Rightarrow> 'w)
     \<Rightarrow> string list \<Rightarrow> 'w \<Rightarrow> driver_error + string \<times> 'w" where
  "pbc_main MakeClerk Get Put osArgs w =
     (if length osArgs = 3 then
        let ck = MakeClerk (osArgs ! 1) ''''; (v, w1) = Get (osArgs ! 2) ck w in Inr (v @ [CHR 0x0A], w1)
      else if length osArgs = 4 then
        let ck = MakeClerk (osArgs ! 1) '''' in Inr ('''', Put (osArgs ! 2) (osArgs ! 3) ck w)
      else Inl pbc_usage)"

definition pbd_main :: "(string \<Rightarrow> string \<Rightarrow> 'w \<Rightarrow> 'w) \<Rightarrow> string list \<Rightarrow> 'w \<Rightarrow> driver_error + 'w" where
  "pbd_main StartServer osArgs w =
     (if length osArgs \<noteq> 3 then Inl (Usage ''Usage: pbd viewport myport'')
      else Inr (StartServer (osArgs ! 1) (osArgs ! 2) w))"

definition viewd_main :: "(string \<Rightarrow> 'w \<Rightarrow> 'w) \<Rightarrow> string list \<Rightarrow> 'w \<Rightarrow> driver_error + 'w" where
  "viewd_main StartServer osArgs w =
     (if length osArgs \<noteq> 2 then Inl (Usage ''Usage: viewd port'') else Inr (StartServer (osArgs ! 1) w))"

subsection \<open>mrcoordinator.go, mrworker.go and the loading of plugins\<close>

text \<open>A symbol of a plugin: a function of the type of \<^verbatim>\<open>Map\<close>, one of the type of \<^verbatim>\<open>Reduce\<close>, or something else, for which the
  type assertion panics.\<close>

datatype plugin_symbol =
    SymMap "string \<Rightarrow> string \<Rightarrow> KeyValue list"
  | SymReduce "string \<Rightarrow> string list \<Rightarrow> string"
  | SymOther

type_synonym go_plugin = "string \<Rightarrow> plugin_symbol option"

definition loadPlugin ::
  "(string \<Rightarrow> go_plugin option) \<Rightarrow> string
     \<Rightarrow> driver_error + (string \<Rightarrow> string \<Rightarrow> KeyValue list) \<times> (string \<Rightarrow> string list \<Rightarrow> string)" where
  "loadPlugin plugin_Open filename =
     (case plugin_Open filename of
        None \<Rightarrow> Inl (Fatal (''cannot load plugin '' @ filename))
      | Some p \<Rightarrow> (case p ''Map'' of
          None \<Rightarrow> Inl (Fatal (''cannot find Map in '' @ filename))
        | Some (SymMap mapf) \<Rightarrow> (case p ''Reduce'' of
            None \<Rightarrow> Inl (Fatal (''cannot find Reduce in '' @ filename))
          | Some (SymReduce reducef) \<Rightarrow> Inr (mapf, reducef)
          | Some _ \<Rightarrow> Inl BadSymbol)
        | Some _ \<Rightarrow> Inl BadSymbol))"

text \<open>The worker program gives the rounds of the endless loop of \<^verbatim>\<open>Worker\<close>.\<close>

definition mrworker_main ::
  "(string \<Rightarrow> go_plugin option) \<Rightarrow> (KeyValue list \<Rightarrow> KeyValue list) \<Rightarrow> string list
     \<Rightarrow> driver_error + ((int list \<Rightarrow> int list) \<Rightarrow> int \<Rightarrow> WorkerProc \<times> Coordinator \<times> FS \<Rightarrow> (WorkerProc \<times> Coordinator \<times> FS) option)" where
  "mrworker_main plugin_Open srt osArgs =
     (if length osArgs \<noteq> 2 then Inl (Usage ''Usage: mrworker xxx.so'')
      else (case loadPlugin plugin_Open (osArgs ! 1) of
        Inl e \<Rightarrow> Inl e
      | Inr (mapf, reducef) \<Rightarrow> Inr (Worker_round srt mapf reducef)))"

text \<open>The coordinator program looks at its coordinator once a second; \<open>seen\<close> are the states that it finds.  The result is the
  number of times that it sleeps before the program ends, or \<open>None\<close> if it still waits.\<close>

fun coordinator_waits :: "Coordinator list \<Rightarrow> nat option" where
  "coordinator_waits [] = None"
| "coordinator_waits (c # seen) = (if Done c = False then map_option Suc (coordinator_waits seen) else Some 1)"

definition mrcoordinator_main :: "(Coordinator \<Rightarrow> Coordinator list) \<Rightarrow> string list \<Rightarrow> driver_error + nat option" where
  "mrcoordinator_main seen osArgs =
     (if length osArgs < 2 then Inl (Usage ''Usage: mrcoordinator inputfiles...'')
      else let m = MakeCoordinator (drop 1 osArgs) (drop 1 osArgs) 10 in Inr (coordinator_waits (seen m)))"

subsection \<open>Numbers on the command line\<close>

lemma digits_fold_above:
  "\<forall>c \<in> set s. is_digit (byte_of c) \<Longrightarrow> 0 \<le> n \<Longrightarrow> n \<le> foldl (\<lambda>v r. 10 * v + (int r - 48)) n (map byte_of s)"
proof (induction s arbitrary: n)
  case (Cons c s)
  have "0 \<le> int (byte_of c) - 48" using Cons.prems(1) by (simp add: is_digit_def)
  then show ?case using Cons.IH [of "10 * n + (int (byte_of c) - 48)"] Cons.prems by simp
qed simp

lemma ParseUint_loop_digits:
  "\<forall>c \<in> set s. is_digit (byte_of c) \<Longrightarrow> 0 \<le> n \<Longrightarrow> foldl (\<lambda>v r. 10 * v + (int r - 48)) n (map byte_of s) \<le> maxUint64 \<Longrightarrow>
     ParseUint_loop n s = Some (foldl (\<lambda>v r. 10 * v + (int r - 48)) n (map byte_of s))"
proof (induction s arbitrary: n)
  case (Cons c s)
  let ?n = "10 * n + (int (byte_of c) - 48)"
  have c: "0 \<le> int (byte_of c) - 48" using Cons.prems(1) by (simp add: is_digit_def)
  then have le: "?n \<le> maxUint64" using Cons.prems digits_fold_above [of s ?n] by simp
  then have "n \<le> maxUint64 div 10" using c by (simp add: maxUint64_def)
  then show ?case using Cons.prems Cons.IH [of ?n] c le by (simp add: mult.commute)
qed simp

lemma ParseUint_nat_digits:
  assumes "int n \<le> maxUint64"
  shows "ParseUint (nat_digits n) = Some (int n)"
proof -
  have d: "48 \<le> byte_of c \<and> byte_of c \<le> 57" if "c \<in> set (nat_digits n)" for c using digits_in_nat_digits [OF that] .
  then have "foldl (\<lambda>v r. 10 * v + (int r - 48)) 0 (map byte_of (nat_digits n)) = int n"
    using rune_digits_value_bytes [of "nat_digits n"] by (simp add: rune_digits_value_def digits_value_nat_digits)
  then show ?thesis using ParseUint_loop_digits [of "nat_digits n" 0] assms d by (simp add: ParseUint_def is_digit_def)
qed

text \<open>A number in decimal is read back, and whatever is read fits into 64 bits.\<close>

lemma ParseInt_Itoa:
  assumes "in_int64 i"
  shows "ParseInt (Itoa i) = i"
proof -
  let ?n = "nat \<bar>i\<bar>"
  have n: "ParseUint (nat_digits ?n) = Some \<bar>i\<bar>" using ParseUint_nat_digits [of ?n] assms by (auto simp: in_int64_def maxUint64_def)
  obtain c cs where c: "nat_digits ?n = c # cs" by (cases "nat_digits ?n") auto
  have "48 \<le> byte_of c" using digits_in_nat_digits [of c ?n] c by simp
  then have "c \<noteq> CHR ''+''" "c \<noteq> CHR ''-''" by auto
  then show ?thesis using n assms c by (cases "i < 0") (auto simp: Itoa_def ParseInt_def int_of_Uint_def in_int64_def)
qed

lemma ParseUint_loop_nonneg: "ParseUint_loop n s = Some u \<Longrightarrow> 0 \<le> n \<Longrightarrow> 0 \<le> u"
  by (induction n s rule: ParseUint_loop.induct) (auto simp: Let_def maxUint64_def is_digit_def split: if_splits)

lemma ParseInt_in_int64: "in_int64 (ParseInt s)"
proof -
  have "in_int64 (int_of_Uint neg (ParseUint t))" for neg t
    using ParseUint_loop_nonneg [of 0 t] by (auto simp: in_int64_def int_of_Uint_def ParseUint_def split: option.split)
  then show ?thesis by (auto simp: ParseInt_def in_int64_def split: list.split)
qed

subsection \<open>The flags of diskvd\<close>

fun flag_pairs :: "string list \<Rightarrow> (string \<times> string) list" where
  "flag_pairs (a0 # a1 # as) = (a0, a1) # flag_pairs as"
| "flag_pairs _ = []"

definition flag_values :: "string \<Rightarrow> string list \<Rightarrow> string list" where
  "flag_values x as = map snd (filter (\<lambda>(a, b). a = x) (flag_pairs as))"

definition known_flags :: "string list \<Rightarrow> bool" where
  "known_flags as = list_all (\<lambda>(a, b). a \<in> {''-g'', ''-m'', ''-s'', ''-i'', ''-u'', ''-d'', ''-r''}) (flag_pairs as)"

definition last_or :: "'a \<Rightarrow> 'a list \<Rightarrow> 'a" where
  "last_or d xs = (if xs = [] then d else last xs)"

lemma last_or_simps [simp]: "last_or d [] = d" "last_or d (x # xs) = last_or x xs"
  by (simp_all add: last_or_def)

lemma flag_values_simps [simp]:
  "flag_values x [] = []" "flag_values x [a0] = []"
  "flag_values x (a0 # a1 # as) = (if a0 = x then a1 # flag_values x as else flag_values x as)"
  by (simp_all add: flag_values_def)

lemma diskvd_loop_spec:
  "diskvd_loop as f =
     (if known_flags as then
        Inr \<lparr>f_gid = last_or (f_gid f) (map ParseInt (flag_values ''-g'' as)), f_masters = f_masters f @ flag_values ''-m'' as,
          f_replicas = f_replicas f @ flag_values ''-s'' as, f_me = last_or (f_me f) (map Atoi (flag_values ''-i'' as)),
          f_unreliable = last_or (f_unreliable f) (map ParseBool (flag_values ''-u'' as)), f_dir = last_or (f_dir f) (flag_values ''-d'' as),
          f_restart = last_or (f_restart f) (map ParseBool (flag_values ''-r'' as))\<rparr>
      else Inl diskvd_usage)"
  by (induction as f rule: diskvd_loop.induct) (auto simp: known_flags_def)

subsection \<open>What diskvd starts\<close>

text \<open>\<^verbatim>\<open>diskvd\<close> prints its usage unless all its flags are known and they give a group number, at least one master, an index of
  one of the replicas, and a directory; then it starts the server with the masters and the replicas in the order of the flags,
  and with the last value of each of the other flags.\<close>

lemma diskvd_main_spec:
  "diskvd_main StartServer Setunreliable osArgs w =
     (let as = drop 1 osArgs; v = (\<lambda>x. flag_values x as);
          gid = last_or (-1) (map ParseInt (v ''-g'')); me = last_or (-1) (map Atoi (v ''-i'')); dir = last_or '''' (v ''-d'')
      in if known_flags as \<and> 0 \<le> gid \<and> v ''-m'' \<noteq> [] \<and> 0 \<le> me \<and> nat me < length (v ''-s'') \<and> dir \<noteq> ''''
         then let (srv, w1) = StartServer gid (v ''-m'') (v ''-s'') me dir (last_or False (map ParseBool (v ''-r''))) w
              in Inr (Setunreliable (last_or False (map ParseBool (v ''-u''))) srv w1)
         else Inl diskvd_usage)"
  by (simp add: diskvd_main_def diskvd_loop_spec no_flags_def Let_def not_less nat_less_iff) linarith

text \<open>The error of \<^verbatim>\<open>ParseInt\<close> is not looked at, so a group that is no number is group 0, which is accepted.\<close>

lemma diskvd_accepts_bad_group:
  "diskvd_main (\<lambda>gid masters replicas me dir restart w. ((), Some gid)) (\<lambda>u srv w. w)
     [''diskvd'', ''-g'', ''x7'', ''-m'', ''m'', ''-s'', ''s'', ''-i'', ''0'', ''-d'', ''d''] None = Inr (Some 0)"
  by code_simp


end
