(* ===== verification/Mr_System.thy ===== *)
theory Mr_System
  imports Sequential
begin

text \<open>
  The MapReduce system as a whole: one coordinator, any number of worker processes and the
  file system.  A step is one call of a worker to the coordinator, the execution of one
  task, the report of its completion, a heartbeat, or a round of the liveness check.  The
  main result: in every run in which no worker is declared dead, when the coordinator
  reports the job as done, the output files hold together the lines of the sequential
  program.
\<close>

subsection \<open>States and steps\<close>

text \<open>
  A process is the worker state with a flag: the current task has been executed and not yet
  reported.
\<close>

record mr_sys =
  mc :: Coordinator
  mfs :: FS
  procs :: "(WorkerProc \<times> bool) list"

inductive mr_step ::
  "(KeyValue list \<Rightarrow> KeyValue list) \<Rightarrow> (string \<Rightarrow> string \<Rightarrow> KeyValue list) \<Rightarrow>
   (string \<Rightarrow> string list \<Rightarrow> string) \<Rightarrow> mr_sys \<Rightarrow> mr_sys \<Rightarrow> bool"
  for srt mapf reducef where
  spawn: "mr_step srt mapf reducef s (s\<lparr>procs := procs s @ [(init_worker, False)]\<rparr>)"
| register: "p < length (procs s) \<Longrightarrow> procs s ! p = (w, b) \<Longrightarrow> info_id w = -1 \<Longrightarrow>
    CallRegister now w (mc s) = (w', c') \<Longrightarrow>
    mr_step srt mapf reducef s (s\<lparr>mc := c', procs := (procs s)[p := (w', False)]\<rparr>)"
| heartbeat: "p < length (procs s) \<Longrightarrow> procs s ! p = (w, b) \<Longrightarrow> info_id w \<noteq> -1 \<Longrightarrow>
    sendHeartbeat_round now w (mc s) = Some c' \<Longrightarrow>
    mr_step srt mapf reducef s (s\<lparr>mc := c'\<rparr>)"
| check_alive: "mr_step srt mapf reducef s (s\<lparr>mc := CheckAliveMachine_round now (mc s)\<rparr>)"
| assign: "p < length (procs s) \<Longrightarrow> procs s ! p = (w, b) \<Longrightarrow> info_id w \<noteq> -1 \<Longrightarrow>
    info_status w = ''idle'' \<Longrightarrow> (\<And>xs. mset (ord xs) = mset xs) \<Longrightarrow>
    CallAssignTask ord w (mc s) = Some (w', c') \<Longrightarrow>
    mr_step srt mapf reducef s (s\<lparr>mc := c', procs := (procs s)[p := (w', False)]\<rparr>)"
| exec_map: "p < length (procs s) \<Longrightarrow> procs s ! p = (w, False) \<Longrightarrow> info_status w = ''busy'' \<Longrightarrow>
    wt_Class (WorkerTask w) = ''map'' \<Longrightarrow> processMTask mapf w (mfs s) = Some fs' \<Longrightarrow>
    mr_step srt mapf reducef s (s\<lparr>mfs := fs', procs := (procs s)[p := (w, True)]\<rparr>)"
| exec_reduce: "p < length (procs s) \<Longrightarrow> procs s ! p = (w, False) \<Longrightarrow> info_status w = ''busy'' \<Longrightarrow>
    wt_Class (WorkerTask w) = ''reduce'' \<Longrightarrow> processRTask srt reducef w (mfs s) = Some fs' \<Longrightarrow>
    mr_step srt mapf reducef s (s\<lparr>mfs := fs', procs := (procs s)[p := (w, True)]\<rparr>)"
| report: "p < length (procs s) \<Longrightarrow> procs s ! p = (w, True) \<Longrightarrow> info_status w = ''busy'' \<Longrightarrow>
    CallCompleteTask w (mc s) = Some c' \<Longrightarrow>
    mr_step srt mapf reducef s
      (s\<lparr>mc := c', procs := (procs s)[p := (w\<lparr>info_status := ''idle''\<rparr>, False)]\<rparr>)"

definition mr_init :: "string list \<Rightarrow> int \<Rightarrow> FS \<Rightarrow> mr_sys" where
  "mr_init names n fs0 = \<lparr>mc = MakeCoordinator names names n, mfs = fs0, procs = []\<rparr>"

text \<open>
  What a job needs: a positive number of partitions, readable inputs whose names are not
  those of output files, no intermediate files of an earlier job, and map output in valid
  UTF-8 (which survives the JSON encoding).
\<close>

definition job_ok :: "(string \<Rightarrow> string \<Rightarrow> KeyValue list) \<Rightarrow> string list \<Rightarrow> int \<Rightarrow> FS \<Rightarrow> bool" where
  "job_ok mapf names n fs0 \<longleftrightarrow> 0 < n \<and> streams fs0 = Map.empty \<and>
     (\<forall>f \<in> set names. texts fs0 f \<noteq> None \<and> (\<forall>r. f \<noteq> out_name r) \<and>
        (\<forall>kv \<in> set (mapf f (the (texts fs0 f))). valid_utf8 (Key kv) \<and> valid_utf8 (Value kv)))"

definition all_alive :: "Coordinator \<Rightarrow> bool" where
  "all_alive c \<longleftrightarrow> (\<forall>m \<in> set (machines c). m_IsAlive m)"

subsection \<open>Invariant of the runs in which no worker is declared dead\<close>

definition task_kvs :: "(string \<Rightarrow> string \<Rightarrow> KeyValue list) \<Rightarrow> string list \<Rightarrow> FS \<Rightarrow> nat \<Rightarrow> KeyValue list" where
  "task_kvs mapf names fs0 i = mapf (names ! i) (the (texts fs0 (names ! i)))"

definition busy_with :: "WorkerProc \<Rightarrow> string \<Rightarrow> nat \<Rightarrow> bool" where
  "busy_with w cl i \<longleftrightarrow> info_status w = ''busy'' \<and> wt_Class (WorkerTask w) = cl \<and>
     wt_TaskID (WorkerTask w) = int i"

text \<open>The map tasks worker \<open>v\<close> has executed.\<close>

definition executed :: "Task list \<Rightarrow> (WorkerProc \<times> bool) list \<Rightarrow> int \<Rightarrow> nat \<Rightarrow> bool" where
  "executed ts ps v i \<longleftrightarrow> i < length ts \<and> t_AssignedWorker (ts ! i) = v \<and>
     (t_status (ts ! i) = ''completed'' \<or> (\<exists>q < length ps. snd (ps ! q) \<and> busy_with (fst (ps ! q)) ''map'' i))"

definition out_text :: "(string \<Rightarrow> string list \<Rightarrow> string) \<Rightarrow> int \<Rightarrow> KeyValue list \<Rightarrow> nat \<Rightarrow> string" where
  "out_text reducef n kvs r = concat (spec_lines reducef (part_of n (int r) kvs))"

definition proc_ok :: "(nat \<Rightarrow> string) \<Rightarrow> string list \<Rightarrow> int \<Rightarrow> Coordinator \<Rightarrow> FS \<Rightarrow> WorkerProc \<times> bool \<Rightarrow> bool" where
  "proc_ok out names n c fs = (\<lambda>(w, b).
     (info_id w = -1 \<and> info_status w \<noteq> ''busy'' \<or>
      registered (machines c) (info_id w) \<and> w_nReduce w = n) \<and>
     (info_status w = ''busy'' \<longrightarrow>
       (\<exists>i. busy_with w ''map'' i \<and> i < length (tasks c) \<and> t_status (tasks c ! i) = ''processing'' \<and>
          t_AssignedWorker (tasks c ! i) = info_id w \<and> wt_Key (WorkerTask w) = names ! i) \<or>
       (\<exists>r. busy_with w ''reduce'' r \<and> r < nat n \<and> all_maps_done c \<and>
          set (map uint (wt_Workers (WorkerTask w))) = t_AssignedWorker ` set (tasks c) \<and>
          distinct (map uint (wt_Workers (WorkerTask w))) \<and>
          (b \<longrightarrow> texts fs (out_name (int r)) = Some (out r)))))"

definition distinct_ids :: "(WorkerProc \<times> bool) list \<Rightarrow> bool" where
  "distinct_ids ps \<longleftrightarrow> (\<forall>p < length ps. \<forall>q < length ps.
     info_id (fst (ps ! p)) = info_id (fst (ps ! q)) \<longrightarrow> info_id (fst (ps ! p)) \<noteq> -1 \<longrightarrow> p = q)"

definition files_ok :: "(nat \<Rightarrow> KeyValue list) \<Rightarrow> int \<Rightarrow> (int \<Rightarrow> nat \<Rightarrow> bool) \<Rightarrow> FS \<Rightarrow> bool" where
  "files_ok K n ex fs \<longleftrightarrow> (\<forall>v \<ge> 0. \<forall>r. 0 \<le> r \<longrightarrow> r < n \<longrightarrow>
     mset (stream_of fs (inter_name v r)) = (\<Sum>i \<in> {i. ex v i}. mset (part_of n r (K i))) \<and>
     ((\<exists>i. ex v i) \<longrightarrow> streams fs (inter_name v r) \<noteq> None))"

definition mr_inv ::
  "(string \<Rightarrow> string \<Rightarrow> KeyValue list) \<Rightarrow> (string \<Rightarrow> string list \<Rightarrow> string) \<Rightarrow> string list \<Rightarrow> int \<Rightarrow> FS \<Rightarrow> mr_sys \<Rightarrow> bool"
where
  "mr_inv mapf reducef names n fs0 s \<longleftrightarrow>
     coord_inv (mc s) \<and> c_nReduce (mc s) = n \<and> map t_key (tasks (mc s)) = names \<and>
     distinct_ids (procs s) \<and>
     (\<forall>q < length (procs s). proc_ok (out_text reducef n (all_kvs mapf fs0 names)) names n (mc s) (mfs s) (procs s ! q)) \<and>
     (\<forall>r < nat n. rtask_completed (mc s) r \<longrightarrow>
        texts (mfs s) (out_name (int r)) = Some (out_text reducef n (all_kvs mapf fs0 names) r)) \<and>
     (\<forall>f \<in> set names. texts (mfs s) f = texts fs0 f) \<and>
     files_ok (task_kvs mapf names fs0) n (executed (tasks (mc s)) (procs s)) (mfs s)"

subsection \<open>Frame lemmas\<close>

abbreviation exec_flag :: "(WorkerProc \<times> bool) list \<Rightarrow> nat \<Rightarrow> bool" where
  "exec_flag ps i \<equiv> \<exists>q < length ps. snd (ps ! q) \<and> busy_with (fst (ps ! q)) ''map'' i"

lemma busy_with_inj: "busy_with w cl i \<Longrightarrow> busy_with w cl' j \<Longrightarrow> i = j \<and> cl = cl'"
  by (auto simp: busy_with_def)

lemma exec_flag_update:
  assumes "p < length ps"
  shows "exec_flag (ps[p := x]) i \<longleftrightarrow>
    snd x \<and> busy_with (fst x) ''map'' i \<or> (\<exists>q < length ps. q \<noteq> p \<and> snd (ps ! q) \<and> busy_with (fst (ps ! q)) ''map'' i)"
  using assms by (auto simp: nth_list_update)

lemma exec_flag_update_same:
  assumes "p < length ps" and "\<not> (snd x \<and> busy_with (fst x) ''map'' i)"
    and "\<not> (snd (ps ! p) \<and> busy_with (fst (ps ! p)) ''map'' i)"
  shows "exec_flag (ps[p := x]) i = exec_flag ps i"
  unfolding exec_flag_update [OF assms(1)] using assms(2,3) by blast

lemma executed_cong:
  assumes "\<And>i. exec_flag ps i = exec_flag ps' i"
  shows "executed ts ps = executed ts ps'"
  by (intro ext) (simp add: executed_def assms)

lemma all_maps_done_alive:
  assumes "coord_inv c" and "all_alive c"
  shows "all_maps_done c \<longleftrightarrow> (\<forall>t \<in> set (tasks c). t_status t = ''completed'')"
  using assms
  by (auto simp: all_maps_done_def map_task_done_def coord_inv_def task_ok_def is_alive_def
      all_alive_def registered_def)

lemma map_available_alive:
  assumes "coord_inv c" and "all_alive c" and "t \<in> set (tasks c)"
  shows "map_available (machines c) t \<longleftrightarrow> t_status t = ''idle''"
proof -
  from assms(1,3) have "task_ok (machines c) t" by (simp add: coord_inv_def)
  with assms(2) show ?thesis
    by (auto simp: map_available_def task_ok_def is_alive_def all_alive_def registered_def)
qed

lemma proc_ok_frame:
  assumes "proc_ok out names n c fs x" and "tasks c' = tasks c"
    and "length (machines c) \<le> length (machines c')" and "all_maps_done c \<Longrightarrow> all_maps_done c'"
  shows "proc_ok out names n c' fs x"
  using assms by (auto simp: proc_ok_def intro: registered_mono)

lemma proc_ok_not_busy:
  "registered (machines c) (info_id w) \<and> w_nReduce w = n \<or> info_id w = -1 \<Longrightarrow>
   info_status w \<noteq> ''busy'' \<Longrightarrow> proc_ok out names n c fs (w, b)"
  by (auto simp: proc_ok_def)

lemma proc_ok_busy_registered:
  "proc_ok out names n c fs (w, b) \<Longrightarrow> info_status w = ''busy'' \<Longrightarrow>
   registered (machines c) (info_id w) \<and> w_nReduce w = n"
  by (auto simp: proc_ok_def)

lemma proc_ok_map:
  assumes "proc_ok out names n c fs (w, b)" and "info_status w = ''busy''"
    and "wt_Class (WorkerTask w) = ''map''"
  obtains i where "busy_with w ''map'' i" "i < length (tasks c)" "t_status (tasks c ! i) = ''processing''"
    "t_AssignedWorker (tasks c ! i) = info_id w" "wt_Key (WorkerTask w) = names ! i"
  using assms by (auto simp: proc_ok_def busy_with_def)

lemma proc_ok_reduce:
  assumes "proc_ok out names n c fs (w, b)" and "info_status w = ''busy''"
    and "wt_Class (WorkerTask w) \<noteq> ''map''"
  obtains r where "busy_with w ''reduce'' r" "r < nat n" "all_maps_done c"
    "set (map uint (wt_Workers (WorkerTask w))) = t_AssignedWorker ` set (tasks c)"
    "distinct (map uint (wt_Workers (WorkerTask w)))"
    "b \<longrightarrow> texts fs (out_name (int r)) = Some (out r)"
  using assms by (auto simp: proc_ok_def busy_with_def)

lemma distinct_ids_update:
  assumes "distinct_ids ps" and "p < length ps"
    and "\<And>q. q < length ps \<Longrightarrow> q \<noteq> p \<Longrightarrow> info_id (fst (ps ! q)) = info_id (fst x) \<Longrightarrow> info_id (fst x) = -1"
  shows "distinct_ids (ps[p := x])"
  using assms unfolding distinct_ids_def by (auto simp: nth_list_update)

lemma distinct_ids_update_same:
  assumes "distinct_ids ps" and "p < length ps" and "info_id (fst x) = info_id (fst (ps ! p))"
  shows "distinct_ids (ps[p := x])"
  using assms(1,2)
proof (rule distinct_ids_update)
  fix q
  assume "q < length ps" "q \<noteq> p" "info_id (fst (ps ! q)) = info_id (fst x)"
  with assms show "info_id (fst x) = -1" unfolding distinct_ids_def by metis
qed

lemma processing_not_done:
  "coord_inv c \<Longrightarrow> i < length (tasks c) \<Longrightarrow> t_status (tasks c ! i) = ''processing'' \<Longrightarrow> \<not> all_maps_done c"
  by (auto simp: all_maps_done_def map_task_done_def intro!: bexI [of _ "tasks c ! i"])

subsection \<open>Steps that leave tasks and files alone\<close>

lemma mr_inv_frame:
  assumes inv: "mr_inv mapf reducef names n fs0 s"
    and "coord_inv c'" and "c_nReduce c' = c_nReduce (mc s)" and "tasks c' = tasks (mc s)"
    and "rtasks c' = rtasks (mc s)" and "length (machines (mc s)) \<le> length (machines c')"
    and "all_maps_done (mc s) \<Longrightarrow> all_maps_done c'"
    and "distinct_ids ps" and "\<And>i. exec_flag ps i = exec_flag (procs s) i"
    and "\<And>q. q < length ps \<Longrightarrow>
      proc_ok (out_text reducef n (all_kvs mapf fs0 names)) names n c' (mfs s) (ps ! q)"
  shows "mr_inv mapf reducef names n fs0 (s\<lparr>mc := c', procs := ps\<rparr>)"
  using assms executed_cong [of ps "procs s" "tasks (mc s)"]
  by (simp add: mr_inv_def rtask_completed_def)

lemma mr_inv_spawn:
  assumes inv: "mr_inv mapf reducef names n fs0 s"
  shows "mr_inv mapf reducef names n fs0 (s\<lparr>procs := procs s @ [(init_worker, False)]\<rparr>)"
proof -
  let ?ps = "procs s @ [(init_worker, False)]"
  have "mr_inv mapf reducef names n fs0 (s\<lparr>mc := mc s, procs := ?ps\<rparr>)"
  proof (rule mr_inv_frame [OF inv])
    show "distinct_ids ?ps"
      using inv by (auto simp: mr_inv_def distinct_ids_def nth_append init_worker_def less_Suc_eq)
    show "exec_flag ?ps i = exec_flag (procs s) i" for i
      by (auto simp: nth_append less_Suc_eq)
    show "proc_ok (out_text reducef n (all_kvs mapf fs0 names)) names n (mc s) (mfs s) (?ps ! q)"
      if "q < length ?ps" for q
      using inv that
      by (auto simp: mr_inv_def nth_append init_worker_def less_Suc_eq intro!: proc_ok_not_busy)
  qed (use inv in \<open>auto simp: mr_inv_def\<close>)
  then show ?thesis by simp
qed

lemma mr_inv_machines:
  assumes inv: "mr_inv mapf reducef names n fs0 s"
    and "coord_inv c'" and "c_nReduce c' = c_nReduce (mc s)" and "tasks c' = tasks (mc s)"
    and "rtasks c' = rtasks (mc s)" and "length (machines c') = length (machines (mc s))"
    and "all_maps_done (mc s) \<Longrightarrow> all_maps_done c'"
  shows "mr_inv mapf reducef names n fs0 (s\<lparr>mc := c'\<rparr>)"
proof -
  have "mr_inv mapf reducef names n fs0 (s\<lparr>mc := c', procs := procs s\<rparr>)"
    using assms by (intro mr_inv_frame [OF inv]) (auto simp: mr_inv_def intro: proc_ok_frame)
  then show ?thesis by simp
qed

lemma Register_fields:
  "Register now c = (c', rep) \<Longrightarrow>
   tasks c' = tasks c \<and> rtasks c' = rtasks c \<and> c_nReduce c' = c_nReduce c \<and>
   length (machines c') = Suc (length (machines c)) \<and>
   rep_Res rep = MachinesNumber c \<and> rep_NReduce rep = c_nReduce c"
  by (auto simp: Register_def Let_def)

lemma mr_inv_register:
  assumes inv: "mr_inv mapf reducef names n fs0 s" and alive: "all_alive c'"
    and p: "p < length (procs s)" "procs s ! p = (w, b)" and w: "info_id w = -1"
    and step: "CallRegister now w (mc s) = (w', c')" and old: "all_alive (mc s)"
  shows "mr_inv mapf reducef names n fs0 (s\<lparr>mc := c', procs := (procs s)[p := (w', False)]\<rparr>)"
proof -
  let ?c = "mc s"
  obtain rep where reg: "Register now ?c = (c', rep)"
    and w': "w' = w\<lparr>info_id := rep_Res rep, info_status := ''idle'', w_nReduce := rep_NReduce rep\<rparr>"
    using step by (auto simp: CallRegister_def split: prod.splits)
  note f = Register_fields [OF reg]
  have ci: "coord_inv ?c" and n: "c_nReduce ?c = n"
    and ok: "\<And>q. q < length (procs s) \<Longrightarrow>
      proc_ok (out_text reducef n (all_kvs mapf fs0 names)) names n ?c (mfs s) (procs s ! q)"
    using inv by (auto simp: mr_inv_def)
  have ci': "coord_inv c'" using Register_inv [OF ci, of now] reg by simp
  have id': "info_id w' = int (length (machines ?c))" using f ci by (simp add: w' coord_inv_def)
  have md: "all_maps_done ?c \<Longrightarrow> all_maps_done c'"
    using f all_maps_done_alive [OF ci old] all_maps_done_alive [OF ci' alive] by simp
  show ?thesis
  proof (rule mr_inv_frame [OF inv ci'])
    show "distinct_ids ((procs s)[p := (w', False)])"
    proof (rule distinct_ids_update)
      fix q
      assume "q < length (procs s)" "info_id (fst (procs s ! q)) = info_id (fst (w', False))"
      with ok [of q] id' show "info_id (fst (w', False)) = -1"
        by (cases "procs s ! q") (auto simp: proc_ok_def registered_def)
    qed (use inv p in \<open>auto simp: mr_inv_def\<close>)
    show "exec_flag ((procs s)[p := (w', False)]) i = exec_flag (procs s) i" for i
      using p(2) ok [OF p(1)] w
      by (intro exec_flag_update_same [OF p(1)]) (auto simp: proc_ok_def busy_with_def registered_def)
    show "proc_ok (out_text reducef n (all_kvs mapf fs0 names)) names n c' (mfs s)
        ((procs s)[p := (w', False)] ! q)" if "q < length ((procs s)[p := (w', False)])" for q
    proof (cases "q = p")
      case True
      have "registered (machines c') (info_id w')" using f id' by (simp add: registered_def)
      then show ?thesis using True p(1) f n w' by (auto intro!: proc_ok_not_busy)
    next
      case False
      then show ?thesis using that ok [of q] f md by (auto intro: proc_ok_frame)
    qed
  qed (use f md in auto)
qed

subsection \<open>Handing out and reporting tasks\<close>

lemma find_SomeD:
  "find P xs = Some x \<Longrightarrow> \<exists>i < length xs. xs ! i = x \<and> P x"
  by (auto simp: find_Some_iff)

lemma map_int_nth:
  "map f xs = map int [0..<length xs] \<Longrightarrow> i < length xs \<Longrightarrow> f (xs ! i) = int i"
  by (metis add_0 nth_map nth_upt length_map)

lemma ids_nth:
  assumes "coord_inv c"
  shows "i < length (tasks c) \<Longrightarrow> t_id (tasks c ! i) = int i"
    and "r < length (rtasks c) \<Longrightarrow> r_id (rtasks c ! r) = int r"
  by (rule map_int_nth; use assms in \<open>simp only: coord_inv_def\<close>)+

text \<open>The three outcomes of a request for work when no worker is dead.\<close>

lemma CallAssignTask_cases:
  assumes inv: "coord_inv c" and alive: "all_alive c" and w: "registered (machines c) (info_id w)"
    and ord: "\<And>xs. mset (ord xs) = mset xs" and few: "length (machines c) \<le> 256"
    and step: "CallAssignTask ord w c = Some (w', c')"
  obtains (none) "w' = w" "c' = c"
  | (mtask) i where "i < length (tasks c)" "t_status (tasks c ! i) = ''idle''"
      "c' = c\<lparr>tasks := (tasks c)[i := (tasks c ! i)\<lparr>t_status := ''processing'', t_AssignedWorker := info_id w\<rparr>]\<rparr>"
      "info_id w' = info_id w" "w_nReduce w' = w_nReduce w" "busy_with w' ''map'' i"
      "wt_Key (WorkerTask w') = t_key (tasks c ! i)"
  | (rtask) r where "r < length (rtasks c)" "r_status (rtasks c ! r) \<noteq> ''completed''" "all_maps_done c"
      "c' = c\<lparr>rtasks := (rtasks c)[r := (rtasks c ! r)\<lparr>r_status := ''processing'', r_AssignedWorker := info_id w\<rparr>]\<rparr>"
      "info_id w' = info_id w" "w_nReduce w' = w_nReduce w" "busy_with w' ''reduce'' r"
      "set (map uint (wt_Workers (WorkerTask w'))) = t_AssignedWorker ` set (tasks c)"
      "distinct (map uint (wt_Workers (WorkerTask w')))"
proof -
  obtain mp where mp: "all_maps_done c \<longrightarrow> set mp = t_AssignedWorker ` set (tasks c) \<and> distinct mp"
    and eq: "AssignTask ord \<lparr>wi_WorkerID = info_id w\<rparr> c = Some (assign_result c (info_id w) (ord mp))"
    using AssignTask_eq [OF inv, of ord "\<lparr>wi_WorkerID = info_id w\<rparr>"]
    unfolding WorkerInfo.select_convs by blast
  show ?thesis
  proof (cases "all_maps_done c")
    case False
    show ?thesis
    proof (cases "find (map_available (machines c)) (tasks c)")
      case None
      with False eq step show ?thesis
        by (intro none) (auto simp: CallAssignTask_def assign_result_def zero_TaskInfo_def)
    next
      case (Some t)
      then obtain i where i: "i < length (tasks c)" "tasks c ! i = t" "map_available (machines c) t"
        by (auto dest: find_SomeD)
      then have "t_status t = ''idle''" and "t_id t = int i"
        using map_available_alive [OF inv alive] ids_nth(1) [OF inv] nth_mem by fastforce+
      with False Some eq step i show ?thesis
        by (intro mtask [of i]) (auto simp: CallAssignTask_def assign_result_def zero_TaskInfo_def busy_with_def)
    qed
  next
    case True
    show ?thesis
    proof (cases "find (reduce_available (machines c)) (rtasks c)")
      case None
      with True eq step show ?thesis
        by (intro none) (auto simp: CallAssignTask_def assign_result_def zero_TaskInfo_def)
    next
      case (Some t)
      then obtain r where r: "r < length (rtasks c)" "rtasks c ! r = t" "reduce_available (machines c) t"
        by (auto dest: find_SomeD)
      then have "r_id t = int r" using ids_nth(2) [OF inv] by blast
      have sm: "set (ord mp) = t_AssignedWorker ` set (tasks c)" and dm: "distinct (ord mp)"
        using mp True mset_eq_setD [OF ord] mset_eq_imp_distinct_iff [OF ord] by simp_all
      have "0 \<le> v \<and> v < 256" if "v \<in> set (ord mp)" for v
        using that True few unfolding sm
        by (auto simp: all_maps_done_def map_task_done_def is_alive_def registered_def)
      then have um: "map uint (json_Unmarshal_bytes (json_Marshal_ints (ord mp)) old) = ord mp" for old
        by (rule unmarshal_marshal)
      from True Some eq step r \<open>r_id t = int r\<close> show ?thesis
        using um sm dm
        by (intro rtask [of r])
          (auto simp: CallAssignTask_def assign_result_def zero_TaskInfo_def busy_with_def reduce_available_def
            simp del: set_map)
    qed
  qed
qed

lemma exec_flag_processing:
  assumes "\<And>q. q < length ps \<Longrightarrow> proc_ok out names n c fs (ps ! q)" and "exec_flag ps i"
  shows "i < length (tasks c) \<and> t_status (tasks c ! i) = ''processing''"
proof -
  obtain q where q: "q < length ps" "busy_with (fst (ps ! q)) ''map'' i" using assms(2) by blast
  with assms(1) [OF q(1)] show ?thesis
    by (cases "ps ! q") (auto simp: proc_ok_def busy_with_def)
qed

lemma coord_inv_update_task:
  assumes "coord_inv c" and "i < length (tasks c)" and "registered (machines c) v"
    and "st \<in> {''processing'', ''completed''}"
  shows "coord_inv (c\<lparr>tasks := (tasks c)[i := (tasks c ! i)\<lparr>t_status := st, t_AssignedWorker := v\<rparr>]\<rparr>)"
  using assms
  by (intro coord_inv_tasks set_update_ok) (auto simp: map_update_same coord_inv_def task_ok_def)

lemma coord_inv_update_rtask:
  assumes "coord_inv c" and "i < length (rtasks c)" and "registered (machines c) v"
    and "st \<in> {''processing'', ''completed''}"
  shows "coord_inv (c\<lparr>rtasks := (rtasks c)[i := (rtasks c ! i)\<lparr>r_status := st, r_AssignedWorker := v\<rparr>]\<rparr>)"
  using assms
  by (intro coord_inv_rtasks set_update_ok) (auto simp: map_update_same coord_inv_def rtask_ok_def)

lemma proc_ok_update_task:
  assumes "proc_ok out names n c fs x" and "\<not> all_maps_done c" and "\<not> busy_with (fst x) ''map'' i"
    and "machines c' = machines c" and "tasks c' = (tasks c)[i := t]"
  shows "proc_ok out names n c' fs x"
proof (cases x)
  case (Pair w b)
  show ?thesis
  proof (cases "info_status w = ''busy''")
    case True
    from assms(1,2) True Pair obtain j where j: "busy_with w ''map'' j" "j < length (tasks c)"
      "t_status (tasks c ! j) = ''processing''" "t_AssignedWorker (tasks c ! j) = info_id w"
      "wt_Key (WorkerTask w) = names ! j" by (auto simp: proc_ok_def)
    moreover have "j \<noteq> i" using j(1) assms(3) Pair by auto
    ultimately show ?thesis using assms(1,4,5) Pair by (auto simp: proc_ok_def)
  qed (use assms Pair in \<open>auto simp: proc_ok_def\<close>)
qed

lemma mr_inv_assign:
  assumes inv: "mr_inv mapf reducef names n fs0 s" and alive: "all_alive (mc s)"
    and few: "length (machines (mc s)) \<le> 256" and p: "p < length (procs s)" "procs s ! p = (w, b)"
    and w: "info_id w \<noteq> -1" "info_status w = ''idle''" and ord: "\<And>xs. mset (ord xs) = mset xs"
    and step: "CallAssignTask ord w (mc s) = Some (w', c')"
  shows "mr_inv mapf reducef names n fs0 (s\<lparr>mc := c', procs := (procs s)[p := (w', False)]\<rparr>)"
proof -
  let ?c = "mc s"
  let ?out = "out_text reducef n (all_kvs mapf fs0 names)"
  let ?ps = "(procs s)[p := (w', False)]"
  have ci: "coord_inv ?c" and names: "map t_key (tasks ?c) = names" and ids: "distinct_ids (procs s)"
    and ok: "\<And>q. q < length (procs s) \<Longrightarrow> proc_ok ?out names n ?c (mfs s) (procs s ! q)"
    using inv by (auto simp: mr_inv_def)
  have reg: "registered (machines ?c) (info_id w)" and nr: "w_nReduce w = n"
    using ok [OF p(1)] p(2) w(1) by (auto simp: proc_ok_def)
  have flag: "exec_flag ?ps i = exec_flag (procs s) i" for i
    using p(2) w(2) by (intro exec_flag_update_same [OF p(1)]) (auto simp: busy_with_def)
  have dist: "distinct_ids ?ps" if "info_id w' = info_id w"
    using ids p that by (intro distinct_ids_update_same) auto
  show ?thesis
    using ci alive reg ord few step
  proof (cases rule: CallAssignTask_cases)
    case none
    with flag dist inv ok p w reg nr show ?thesis
      by (intro mr_inv_frame) (auto simp: mr_inv_def nth_list_update intro!: proc_ok_not_busy)
  next
    case (mtask i)
    have nd: "\<not> all_maps_done ?c" using mtask(1,2)
      by (auto simp: all_maps_done_def map_task_done_def intro!: bexI [of _ "tasks ?c ! i"])
    have nb: "\<not> busy_with (fst (procs s ! q)) ''map'' i" if "q < length (procs s)" for q
      using ok [OF that] mtask(2) by (cases "procs s ! q") (auto simp: proc_ok_def busy_with_def)
    have "executed (tasks c') ?ps = executed (tasks ?c) (procs s)"
    proof (intro ext)
      show "executed (tasks c') ?ps v j = executed (tasks ?c) (procs s) v j" for v j
        using mtask(1-3) exec_flag_processing [OF ok, of j] unfolding executed_def flag
        by (cases "exec_flag (procs s) j") (auto simp: nth_list_update)
    qed
    moreover have "proc_ok ?out names n c' (mfs s) (?ps ! q)" if "q < length ?ps" for q
    proof (cases "q = p")
      case True
      have "wt_Key (WorkerTask w') = names ! i" using mtask(1,7) names by auto
      with True show ?thesis using mtask(1,3-6) p(1) reg nr by (simp add: proc_ok_def) (auto simp: busy_with_def)
    next
      case False
      then show ?thesis using that mtask(3) proc_ok_update_task [OF ok nd nb, of q c'] by simp
    qed
    moreover have "map t_key (tasks c') = names" using mtask(1,3) names by (simp add: map_update_same)
    moreover have "coord_inv c'" using coord_inv_update_task [OF ci mtask(1) reg] mtask(3) by simp
    ultimately show ?thesis using inv dist mtask(3,4) by (simp add: mr_inv_def rtask_completed_def)
  next
    case (rtask r)
    have "rtask_completed c' j \<longleftrightarrow> rtask_completed ?c j" for j
      using rtask(1,2,4) by (auto simp: rtask_completed_def nth_list_update)
    moreover have "all_maps_done c' = all_maps_done ?c" using rtask(4) by (simp add: all_maps_done_def)
    moreover have "proc_ok ?out names n c' (mfs s) (?ps ! q)" if "q < length ?ps" for q
    proof (cases "q = p")
      case True
      have "r < nat n" using rtask(1) inv by (auto simp: mr_inv_def coord_inv_def)
      then show ?thesis using True rtask p reg nr
        by (auto simp: proc_ok_def all_maps_done_def intro!: exI [of _ r])
    next
      case False
      then show ?thesis using that rtask(4) proc_ok_frame [OF ok, of q c'] by (simp add: all_maps_done_def)
    qed
    moreover have "coord_inv c'" using coord_inv_update_rtask [OF ci rtask(1) reg] rtask(4) by simp
    moreover have "executed (tasks c') ?ps = executed (tasks ?c) (procs s)"
      using rtask(4) executed_cong [OF flag, of "tasks ?c"] by simp
    ultimately show ?thesis using inv dist rtask(4,5) by (simp add: mr_inv_def)
  qed
qed

subsection \<open>Executing tasks\<close>

lemma same_map_task:
  assumes "distinct_ids ps" and "\<And>q. q < length ps \<Longrightarrow> proc_ok out names n c fs (ps ! q)"
    and "p < length ps" and "q < length ps"
    and "busy_with (fst (ps ! p)) ''map'' i" and "busy_with (fst (ps ! q)) ''map'' i"
  shows "q = p"
proof -
  have id: "t_AssignedWorker (tasks c ! i) = info_id (fst (ps ! k)) \<and> info_id (fst (ps ! k)) \<noteq> -1"
    if "k < length ps" "busy_with (fst (ps ! k)) ''map'' i" for k
    using assms(2) [OF that(1)] that(2) by (cases "ps ! k") (auto simp: proc_ok_def busy_with_def registered_def)
  from id [OF assms(3,5)] id [OF assms(4,6)] assms(1,3,4) show ?thesis
    unfolding distinct_ids_def by metis
qed

lemma executed_finite: "finite {i. executed ts ps v i}"
  by (rule finite_subset [of _ "{..<length ts}"]) (auto simp: executed_def)

lemma json_part:
  assumes "\<forall>kv \<in> set kvs. valid_utf8 (Key kv) \<and> valid_utf8 (Value kv)"
  shows "map json_kv (part_of n r kvs) = part_of n r kvs"
  using assms by (intro map_idI) (simp add: part_of_def json_kv_def json_string_valid)

lemma proc_ok_texts:
  assumes "proc_ok out names n c fs (w, b)"
    and "\<And>r. texts fs (out_name (int r)) = Some (out r) \<Longrightarrow> texts fs' (out_name (int r)) = Some (out r)"
    and "\<And>r. b' \<Longrightarrow> \<not> b \<Longrightarrow> busy_with w ''reduce'' r \<Longrightarrow> texts fs' (out_name (int r)) = Some (out r)"
  shows "proc_ok out names n c fs' (w, b')"
  using assms unfolding proc_ok_def by blast

lemma proc_ok_texts_same:
  assumes "proc_ok out names n c fs x"
    and "\<And>r. texts fs (out_name (int r)) = Some (out r) \<Longrightarrow> texts fs' (out_name (int r)) = Some (out r)"
  shows "proc_ok out names n c fs' x"
  using assms by (cases x) (blast intro: proc_ok_texts)

lemma files_ok_append:
  assumes ok: "files_ok K n ex fs" and id: "0 \<le> v" and new: "\<not> ex v i"
    and fin: "finite {j. ex v j}" and ex': "\<And>u j. ex' u j \<longleftrightarrow> ex u j \<or> u = v \<and> j = i"
    and same: "\<And>r. 0 \<le> r \<Longrightarrow> r < n \<Longrightarrow> streams fs' (inter_name v r)
      = Some (stream_of fs (inter_name v r) @ part_of n r (K i))"
    and other: "\<And>name. (\<And>r. 0 \<le> r \<Longrightarrow> r < n \<Longrightarrow> name \<noteq> inter_name v r) \<Longrightarrow> streams fs' name = streams fs name"
  shows "files_ok K n ex' fs'"
  unfolding files_ok_def
proof (intro allI impI)
  fix u r :: int
  assume u: "0 \<le> u" and r: "0 \<le> r" "r < n"
  show "mset (stream_of fs' (inter_name u r)) = (\<Sum>j \<in> {j. ex' u j}. mset (part_of n r (K j))) \<and>
    ((\<exists>j. ex' u j) \<longrightarrow> streams fs' (inter_name u r) \<noteq> None)"
  proof (cases "u = v")
    case True
    have "{j. ex' u j} = insert i {j. ex v j}" using True by (auto simp: ex')
    then have "(\<Sum>j \<in> {j. ex' u j}. mset (part_of n r (K j)))
        = mset (part_of n r (K i)) + mset (stream_of fs (inter_name v r))"
      using ok id r new fin by (simp add: files_ok_def)
    then show ?thesis using same [OF r] True by (simp add: stream_of_def)
  next
    case False
    have "streams fs' (inter_name u r) = streams fs (inter_name u r)"
      using inter_name_inj [OF u id] False by (intro other) blast
    moreover have "ex' u = ex u" using False by (intro ext) (simp add: ex')
    ultimately show ?thesis using ok u r by (simp add: files_ok_def stream_of_def)
  qed
qed

lemma mr_inv_exec_map:
  assumes inv: "mr_inv mapf reducef names n fs0 s" and job: "job_ok mapf names n fs0"
    and p: "p < length (procs s)" "procs s ! p = (w, False)"
    and w: "info_status w = ''busy''" "wt_Class (WorkerTask w) = ''map''"
    and step: "processMTask mapf w (mfs s) = Some fs'"
  shows "mr_inv mapf reducef names n fs0 (s\<lparr>mfs := fs', procs := (procs s)[p := (w, True)]\<rparr>)"
proof -
  let ?c = "mc s"
  let ?out = "out_text reducef n (all_kvs mapf fs0 names)"
  let ?ps = "(procs s)[p := (w, True)]"
  have ci: "coord_inv ?c" and ids: "distinct_ids (procs s)" and names: "map t_key (tasks ?c) = names"
    and ok: "\<And>q. q < length (procs s) \<Longrightarrow> proc_ok ?out names n ?c (mfs s) (procs s ! q)"
    and files: "files_ok (task_kvs mapf names fs0) n (executed (tasks ?c) (procs s)) (mfs s)"
    and inputs: "\<forall>f \<in> set names. texts (mfs s) f = texts fs0 f"
    using inv by (auto simp: mr_inv_def)
  note okp = ok [OF p(1), unfolded p(2)]
  obtain i where i: "busy_with w ''map'' i" "i < length (tasks ?c)" "t_status (tasks ?c ! i) = ''processing''"
    "t_AssignedWorker (tasks ?c ! i) = info_id w" "wt_Key (WorkerTask w) = names ! i"
    using proc_ok_map [OF okp w] by metis
  have id: "0 \<le> info_id w" and nr: "w_nReduce w = n" and n: "0 < n"
    using proc_ok_busy_registered [OF okp w(1)] job by (auto simp: registered_def job_ok_def)
  have "names ! i \<in> set names" using i(2) names by auto
  then have kvs: "saveIntermediate w (task_kvs mapf names fs0 i) (mfs s) = Some fs'"
    and valid: "\<forall>kv \<in> set (task_kvs mapf names fs0 i). valid_utf8 (Key kv) \<and> valid_utf8 (Value kv)"
    using step job i(5) inputs w(2) by (auto simp: processMTask_def job_ok_def task_kvs_def)
  obtain texts: "texts fs' = texts (mfs s)"
    and same: "\<And>r. 0 \<le> r \<Longrightarrow> r < n \<Longrightarrow> streams fs' (inter_name (info_id w) r)
      = Some (stream_of (mfs s) (inter_name (info_id w) r) @ part_of n r (task_kvs mapf names fs0 i))"
    and other: "\<And>name. (\<And>r. 0 \<le> r \<Longrightarrow> r < n \<Longrightarrow> name \<noteq> inter_name (info_id w) r) \<Longrightarrow>
      streams fs' name = streams (mfs s) name"
    using saveIntermediate_spec [of w "task_kvs mapf names fs0 i" "mfs s"] n id kvs
    unfolding nr json_part [OF valid] by (metis option.inject)
  have other_flag: "\<not> busy_with (fst (procs s ! q)) ''map'' i" if "q < length (procs s)" "q \<noteq> p" for q
    using same_map_task [OF ids ok p(1) that(1)] i(1) p(2) that(2) by auto
  have "\<not> exec_flag (procs s) i" using other_flag p(2) by (metis snd_conv)
  then have notex: "\<not> executed (tasks ?c) (procs s) (info_id w) i" using i(3) by (simp add: executed_def)
  have flag: "exec_flag ?ps j \<longleftrightarrow> exec_flag (procs s) j \<or> j = i" for j
  proof -
    have "busy_with w ''map'' j \<longleftrightarrow> j = i" using i(1) busy_with_inj by blast
    moreover have "exec_flag (procs s) j \<longleftrightarrow> (\<exists>q < length (procs s). q \<noteq> p \<and> snd (procs s ! q) \<and> busy_with (fst (procs s ! q)) ''map'' j)"
      using p(2) by (metis snd_conv)
    ultimately show ?thesis unfolding exec_flag_update [OF p(1)] by auto
  qed
  have ex: "executed (tasks ?c) ?ps v j \<longleftrightarrow> executed (tasks ?c) (procs s) v j \<or> v = info_id w \<and> j = i" for v j
    unfolding executed_def flag using i(2,4) by blast
  have "files_ok (task_kvs mapf names fs0) n (executed (tasks ?c) ?ps) fs'"
    using files_ok_append [OF files id notex executed_finite ex same other] .
  moreover have "proc_ok ?out names n ?c fs' (?ps ! q)" if "q < length ?ps" for q
  proof (cases "q = p")
    case True
    then show ?thesis using p(1) proc_ok_texts [OF okp, of fs' True] texts w(2) by (simp add: busy_with_def)
  next
    case False
    then show ?thesis using that proc_ok_texts_same [OF ok, of q fs'] texts by simp
  qed
  moreover have "distinct_ids ?ps" using ids p by (intro distinct_ids_update_same) auto
  ultimately show ?thesis using inv texts by (simp add: mr_inv_def)
qed

lemma read_loop_all:
  "\<forall>x \<in> set ns. streams fs x \<noteq> None \<Longrightarrow>
   read_loop fs ns acc = Some (acc @ concat (map (stream_of fs) ns))"
  by (induction ns arbitrary: acc) (auto simp: stream_of_def)

lemma part_of_all_kvs:
  "mset (part_of n r (all_kvs mapf fs0 names)) =
   (\<Sum>i < length names. mset (part_of n r (task_kvs mapf names fs0 i)))"
proof -
  have "all_kvs mapf fs0 names = concat (map (task_kvs mapf names fs0) [0..<length names])"
    unfolding all_kvs_def task_kvs_def
    by (intro arg_cong [of _ _ concat] nth_equalityI) simp_all
  then have "part_of n r (all_kvs mapf fs0 names)
      = concat (map (\<lambda>i. part_of n r (task_kvs mapf names fs0 i)) [0..<length names])"
    by (simp add: part_of_def filter_concat comp_def)
  then show ?thesis
    by (simp add: mset_concat comp_def interv_sum_list_conv_sum_set_nat atLeast0LessThan)
qed

text \<open>Once all map tasks are done, the files of a partition hold the records of all inputs.\<close>

lemma partition_complete:
  assumes fin: "all_maps_done c" and reg: "coord_inv c" and len: "length names = length (tasks c)"
    and files: "files_ok (task_kvs mapf names fs0) n (executed (tasks c) ps) fs"
    and vs: "set vs = t_AssignedWorker ` set (tasks c)" "distinct vs" and r: "0 \<le> r" "r < n"
  shows "\<exists>kvs. read_loop fs (map (\<lambda>v. inter_name v r) vs) [] = Some kvs \<and>
    mset kvs = mset (part_of n r (all_kvs mapf fs0 names))"
proof -
  let ?E = "\<lambda>v. {i. executed (tasks c) ps v i}"
  have E: "?E v = {i. i < length (tasks c) \<and> t_AssignedWorker (tasks c ! i) = v}" for v
    using fin by (auto simp: executed_def all_maps_done_def map_task_done_def)
  have v0: "0 \<le> v" if "v \<in> set vs" for v
    using that vs(1) fin by (auto simp: all_maps_done_def map_task_done_def is_alive_def registered_def)
  have "streams fs (inter_name v r) \<noteq> None" if v: "v \<in> set vs" for v
  proof -
    obtain i where "i < length (tasks c)" "t_AssignedWorker (tasks c ! i) = v"
      using v unfolding vs(1) by (auto simp: in_set_conv_nth)
    then have "executed (tasks c) ps v i" using E by blast
    then show ?thesis using files v0 [OF v] r unfolding files_ok_def by blast
  qed
  then have read: "read_loop fs (map (\<lambda>v. inter_name v r) vs) []
      = Some (concat (map (\<lambda>v. stream_of fs (inter_name v r)) vs))"
    by (subst read_loop_all) (auto simp: comp_def)
  have "mset (concat (map (\<lambda>v. stream_of fs (inter_name v r)) vs))
      = (\<Sum>v \<in> set vs. mset (stream_of fs (inter_name v r)))"
    using vs(2) by (simp add: mset_concat comp_def sum_list_distinct_conv_sum_set)
  also have "\<dots> = (\<Sum>v \<in> set vs. \<Sum>i \<in> ?E v. mset (part_of n r (task_kvs mapf names fs0 i)))"
    using files v0 r by (intro sum.cong) (auto simp: files_ok_def)
  also have "\<dots> = (\<Sum>i \<in> (\<Union>v \<in> set vs. ?E v). mset (part_of n r (task_kvs mapf names fs0 i)))"
    by (rule sum.UNION_disjoint [symmetric]) (auto simp: E)
  also have "(\<Union>v \<in> set vs. ?E v) = {..<length names}"
    using vs(1) len by (auto simp: E)
  finally show ?thesis using read part_of_all_kvs [of n r mapf fs0 names] by simp
qed

lemma mr_inv_exec_reduce:
  assumes inv: "mr_inv mapf reducef names n fs0 s" and job: "job_ok mapf names n fs0"
    and srt: "go_sort srt" and red: "order_insensitive reducef"
    and p: "p < length (procs s)" "procs s ! p = (w, False)"
    and w: "info_status w = ''busy''" "wt_Class (WorkerTask w) = ''reduce''"
    and step: "processRTask srt reducef w (mfs s) = Some fs'"
  shows "mr_inv mapf reducef names n fs0 (s\<lparr>mfs := fs', procs := (procs s)[p := (w, True)]\<rparr>)"
proof -
  let ?c = "mc s"
  let ?out = "out_text reducef n (all_kvs mapf fs0 names)"
  let ?ps = "(procs s)[p := (w, True)]"
  have ci: "coord_inv ?c" and ids: "distinct_ids (procs s)" and names: "map t_key (tasks ?c) = names"
    and ok: "\<And>q. q < length (procs s) \<Longrightarrow> proc_ok ?out names n ?c (mfs s) (procs s ! q)"
    and files: "files_ok (task_kvs mapf names fs0) n (executed (tasks ?c) (procs s)) (mfs s)"
    using inv by (auto simp: mr_inv_def)
  note okp = ok [OF p(1), unfolded p(2)]
  obtain r where r: "busy_with w ''reduce'' r" "r < nat n" "all_maps_done ?c"
    "set (map uint (wt_Workers (WorkerTask w))) = t_AssignedWorker ` set (tasks ?c)"
    "distinct (map uint (wt_Workers (WorkerTask w)))"
    "False \<longrightarrow> texts (mfs s) (out_name (int r)) = Some (?out r)"
    by (rule proc_ok_reduce [OF okp w(1)]) (use w(2) in simp)
  have len: "length names = length (tasks ?c)" using names by auto
  obtain kvs where kvs: "read_loop (mfs s) (map (\<lambda>v. inter_name v (int r)) (map uint (wt_Workers (WorkerTask w)))) [] = Some kvs"
    "mset kvs = mset (part_of n (int r) (all_kvs mapf fs0 names))"
    using partition_complete [OF r(3) ci len files r(4,5), of "int r"] r(2) by (auto simp: zless_nat_eq_int_zless)
  have fs': "fs' = (mfs s)\<lparr>texts := (texts (mfs s))(out_name (int r) \<mapsto> ?out r)\<rparr>"
    using step kvs r(1) go_sort.reduce_srt_perm [OF srt red kvs(2)]
    by (simp add: processRTask_def busy_with_def comp_def out_text_def)
  have texts: "texts (mfs s) (out_name (int k)) = Some (?out k) \<Longrightarrow> texts fs' (out_name (int k)) = Some (?out k)" for k
    using out_name_inj fs' by force
  have inputs: "texts fs' f = texts (mfs s) f" if "f \<in> set names" for f
    using that job fs' by (auto simp: job_ok_def)
  have "exec_flag ?ps j \<longleftrightarrow> exec_flag (procs s) j" for j
    using p w by (intro exec_flag_update_same) (auto simp: busy_with_def)
  then have ex: "executed (tasks ?c) ?ps = executed (tasks ?c) (procs s)" by (rule executed_cong)
  have "proc_ok ?out names n ?c fs' (?ps ! q)" if "q < length ?ps" for q
  proof (cases "q = p")
    case True
    have "texts fs' (out_name (int k)) = Some (?out k)" if "busy_with w ''reduce'' k" for k
      using busy_with_inj [OF that r(1)] fs' by simp
    with True p(1) show ?thesis using proc_ok_texts [OF okp texts] by simp
  next
    case False
    then show ?thesis using that proc_ok_texts_same [OF ok texts, of q] by simp
  qed
  moreover have "distinct_ids ?ps" using ids p by (intro distinct_ids_update_same) auto
  moreover have "files_ok (task_kvs mapf names fs0) n (executed (tasks ?c) ?ps) fs'"
    using files fs' unfolding ex by (simp add: files_ok_def stream_of_def)
  ultimately show ?thesis using inv texts inputs by (simp add: mr_inv_def)
qed

lemma mr_inv_report:
  assumes inv: "mr_inv mapf reducef names n fs0 s"
    and p: "p < length (procs s)" "procs s ! p = (w, True)" and w: "info_status w = ''busy''"
    and step: "CallCompleteTask w (mc s) = Some c'"
  shows "mr_inv mapf reducef names n fs0
    (s\<lparr>mc := c', procs := (procs s)[p := (w\<lparr>info_status := ''idle''\<rparr>, False)]\<rparr>)"
proof -
  let ?c = "mc s"
  let ?out = "out_text reducef n (all_kvs mapf fs0 names)"
  let ?ps = "(procs s)[p := (w\<lparr>info_status := ''idle''\<rparr>, False)]"
  let ?args = "\<lparr>wct_WorkerID = info_id w, wct_TaskID = wt_TaskID (WorkerTask w), wct_Class = wt_Class (WorkerTask w)\<rparr>"
  have ci: "coord_inv ?c" and ids: "distinct_ids (procs s)" and names: "map t_key (tasks ?c) = names"
    and ok: "\<And>q. q < length (procs s) \<Longrightarrow> proc_ok ?out names n ?c (mfs s) (procs s ! q)"
    using inv by (auto simp: mr_inv_def)
  note okp = ok [OF p(1), unfolded p(2)]
  note reg = proc_ok_busy_registered [OF okp w(1)]
  have dist: "distinct_ids ?ps" using ids p by (intro distinct_ids_update_same) auto
  have idle: "proc_ok ?out names n c (mfs s) (w\<lparr>info_status := ''idle''\<rparr>, False)"
    if "machines c = machines ?c" for c
    using reg that by (intro proc_ok_not_busy) auto
  show ?thesis
  proof (cases "wt_Class (WorkerTask w) = ''map''")
    case True
    obtain i where i: "busy_with w ''map'' i" "i < length (tasks ?c)" "t_status (tasks ?c ! i) = ''processing''"
      "t_AssignedWorker (tasks ?c ! i) = info_id w" "wt_Key (WorkerTask w) = names ! i"
      by (rule proc_ok_map [OF okp w True])
    have c': "c' = ?c\<lparr>tasks := (tasks ?c)[i := (tasks ?c ! i)\<lparr>t_status := ''completed'', t_AssignedWorker := info_id w\<rparr>]\<rparr>"
      using step i(1,2) CompleteTask_map_eq [of ?c ?args]
      by (simp add: CallCompleteTask_def task_exists_def busy_with_def)
    have nd: "\<not> all_maps_done ?c" using processing_not_done [OF ci i(2,3)] .
    have other: "\<not> busy_with (fst (procs s ! q)) ''map'' i" if "q < length (procs s)" "q \<noteq> p" for q
      using same_map_task [OF ids ok p(1) that(1)] i(1) p(2) that(2) by auto
    have flag: "exec_flag ?ps j \<longleftrightarrow> j \<noteq> i \<and> exec_flag (procs s) j" for j
    proof (cases "j = i")
      case True
      then show ?thesis unfolding exec_flag_update [OF p(1)] using other by auto
    next
      case False
      then have "\<not> busy_with w ''map'' j" using i(1) busy_with_inj by blast
      then show ?thesis using False p by (subst exec_flag_update_same) auto
    qed
    have old: "exec_flag (procs s) i" using p i(1) by (intro exI [of _ p]) simp
    have "executed (tasks c') ?ps = executed (tasks ?c) (procs s)"
    proof (intro ext)
      show "executed (tasks c') ?ps v j = executed (tasks ?c) (procs s) v j" for v j
        using i(2,4) old unfolding executed_def flag c' by (cases "j = i") simp_all
    qed
    moreover have "proc_ok ?out names n c' (mfs s) (?ps ! q)" if "q < length ?ps" for q
    proof (cases "q = p")
      case True
      then show ?thesis using idle [of c'] p(1) c' by simp
    next
      case False
      then show ?thesis using that c' proc_ok_update_task [OF ok nd other, of q c'] by simp
    qed
    moreover have "coord_inv c'" using coord_inv_update_task [OF ci i(2)] reg c' by simp
    moreover have "map t_key (tasks c') = names" using i(2) names c' by (simp add: map_update_same)
    ultimately show ?thesis using inv dist c' by (simp add: mr_inv_def rtask_completed_def)
  next
    case False
    obtain r where r: "busy_with w ''reduce'' r" "r < nat n" "all_maps_done ?c"
      "set (map uint (wt_Workers (WorkerTask w))) = t_AssignedWorker ` set (tasks ?c)"
      "distinct (map uint (wt_Workers (WorkerTask w)))"
      "True \<longrightarrow> texts (mfs s) (out_name (int r)) = Some (?out r)"
      by (rule proc_ok_reduce [OF okp w(1) False])
    have len: "r < length (rtasks ?c)" using r(2) inv by (auto simp: mr_inv_def coord_inv_def)
    have c': "c' = ?c\<lparr>rtasks := (rtasks ?c)[r := (rtasks ?c ! r)\<lparr>r_status := ''completed'', r_AssignedWorker := info_id w\<rparr>]\<rparr>"
      using step r(1) len CompleteTask_reduce_eq [of ?c ?args]
      by (simp add: CallCompleteTask_def task_exists_def busy_with_def)
    have "rtask_completed c' j \<longleftrightarrow> rtask_completed ?c j \<or> j = r" for j
      using len c' by (auto simp: rtask_completed_def nth_list_update)
    moreover have "exec_flag ?ps j = exec_flag (procs s) j" for j
      using p False by (intro exec_flag_update_same) (auto simp: busy_with_def)
    then have "executed (tasks c') ?ps = executed (tasks ?c) (procs s)"
      using executed_cong [of ?ps "procs s" "tasks ?c"] c' by simp
    moreover have "proc_ok ?out names n c' (mfs s) (?ps ! q)" if "q < length ?ps" for q
    proof (cases "q = p")
      case True
      then show ?thesis using idle [of c'] p(1) c' by simp
    next
      case False
      then show ?thesis using that c' proc_ok_frame [OF ok, of q c'] by (simp add: all_maps_done_def)
    qed
    moreover have "coord_inv c'" using coord_inv_update_rtask [OF ci len] reg c' by simp
    ultimately show ?thesis using inv dist c' r(6) by (auto simp: mr_inv_def)
  qed
qed

subsection \<open>Runs\<close>

lemma Heartbeat_fields:
  assumes "ReceiveHeartbeat args c = Some c'"
  shows "tasks c' = tasks c" "rtasks c' = rtasks c" "c_nReduce c' = c_nReduce c"
    "length (machines c') = length (machines c)" "map m_IsAlive (machines c') = map m_IsAlive (machines c)"
    "registered (machines c) (hb_WorkerID args)"
  using assms
  by (auto simp: ReceiveHeartbeat_def option_bind_simps slice_get_def slice_set_def map_update_same
      registered_def split: if_splits)

lemma all_alive_map: "map m_IsAlive (machines c') = map m_IsAlive (machines c) \<Longrightarrow> all_alive c' = all_alive c"
proof -
  assume "map m_IsAlive (machines c') = map m_IsAlive (machines c)"
  from arg_cong [OF this, of "list_all (\<lambda>b. b)"] show ?thesis
    by (simp add: all_alive_def list_all_iff)
qed

lemma CheckAlive_fields:
  "tasks (CheckAliveMachine_round now c) = tasks c" "rtasks (CheckAliveMachine_round now c) = rtasks c"
  "c_nReduce (CheckAliveMachine_round now c) = c_nReduce c"
  by (simp_all add: CheckAliveMachine_round_def)

lemma CheckAlive_alive:
  assumes "all_alive (CheckAliveMachine_round now c)"
  shows "all_alive c"
  unfolding all_alive_def
proof
  fix m
  assume "m \<in> set (machines c)"
  let ?f = "\<lambda>m :: Machine. if timeoutDuration < now - m_Lastime m \<and> m_IsAlive m then m\<lparr>m_IsAlive := False\<rparr> else m"
  have "\<forall>x \<in> ?f ` set (machines c). m_IsAlive x"
  proof -
    have "machines (CheckAliveMachine_round now c) = map ?f (machines c)" by (simp add: CheckAliveMachine_round_def)
    with assms show ?thesis unfolding all_alive_def by (simp only: set_map)
  qed
  then have "m_IsAlive (?f m)" using \<open>m \<in> set (machines c)\<close> by (rule bspec [OF _ imageI])
  then show "m_IsAlive m" by (cases "timeoutDuration < now - m_Lastime m \<and> m_IsAlive m") simp_all
qed

lemma AssignTask_machines: "AssignTask ord args c = Some (c', reply) \<Longrightarrow> machines c' = machines c"
  by (auto simp: AssignTask_def AssignTask_map_def AssignTask_reduce_def option_bind_simps split: if_splits)

lemma CompleteTask_machines: "CompleteTask args c = Some c' \<Longrightarrow> machines c' = machines c"
  by (auto simp: CompleteTask_def Let_def option_bind_simps split: if_splits)

lemma mr_step_mono:
  assumes "mr_step srt mapf reducef s t"
  shows "length (machines (mc s)) \<le> length (machines (mc t)) \<and> (all_alive (mc t) \<longrightarrow> all_alive (mc s))"
  using assms
proof cases
  case (register p w b now w' c')
  then show ?thesis by (auto simp: CallRegister_def Register_def Let_def all_alive_def)
next
  case (heartbeat p w b now c')
  note f = Heartbeat_fields(4,5) [OF heartbeat(5) [unfolded sendHeartbeat_round_def]]
  from f(1) all_alive_map [OF f(2)] show ?thesis unfolding heartbeat(1) by simp
next
  case (check_alive now)
  then show ?thesis using CheckAlive_alive by simp
next
  case (assign p w b ord w' c')
  then have "machines c' = machines (mc s)"
    by (auto simp: CallAssignTask_def option_bind_simps split: if_splits dest: AssignTask_machines)
  with assign show ?thesis by (simp add: all_alive_def)
next
  case (report p w c')
  then have "machines c' = machines (mc s)" by (auto simp: CallCompleteTask_def dest: CompleteTask_machines)
  with report show ?thesis by (simp add: all_alive_def)
qed auto

lemma mr_step_inv:
  assumes step: "mr_step srt mapf reducef s t" and inv: "mr_inv mapf reducef names n fs0 s"
    and job: "job_ok mapf names n fs0" and srt: "go_sort srt" and red: "order_insensitive reducef"
    and alive: "all_alive (mc t)" and few: "length (machines (mc t)) \<le> 256"
  shows "mr_inv mapf reducef names n fs0 t"
proof -
  have old: "all_alive (mc s)" "length (machines (mc s)) \<le> 256"
    using mr_step_mono [OF step] alive few by simp_all
  have ci: "coord_inv (mc s)" using inv by (simp add: mr_inv_def)
  show ?thesis
    using step
  proof cases
    case spawn
    then show ?thesis using mr_inv_spawn [OF inv] by simp
  next
    case (register p w b now w' c')
    then show ?thesis using mr_inv_register [OF inv _ register(2-5) old(1)] alive by simp
  next
    case (heartbeat p w b now c')
    note hb = heartbeat(5) [unfolded sendHeartbeat_round_def]
    note f = Heartbeat_fields [OF hb]
    have ci': "coord_inv c'" using ReceiveHeartbeat_inv [OF ci f(6)] hb by simp
    have "all_maps_done (mc s) \<Longrightarrow> all_maps_done c'"
      using all_maps_done_alive [OF ci old(1)] all_maps_done_alive [OF ci'] all_alive_map [OF f(5)] old(1) f(1)
      by simp
    then show ?thesis unfolding heartbeat(1) using mr_inv_machines [OF inv ci'] f by simp
  next
    case (check_alive now)
    let ?c' = "CheckAliveMachine_round now (mc s)"
    have ci': "coord_inv ?c'" by (rule CheckAlive_inv [OF ci])
    have "all_maps_done (mc s) \<Longrightarrow> all_maps_done ?c'"
      using all_maps_done_alive [OF ci old(1)] all_maps_done_alive [OF ci'] alive check_alive CheckAlive_fields(1)
      by simp
    then show ?thesis unfolding check_alive
      using mr_inv_machines [OF inv ci'] CheckAlive_fields(1-3) machines_CheckAlive by simp
  next
    case (assign p w b ord w' c')
    then show ?thesis using mr_inv_assign [OF inv old assign(2-7)] by simp
  next
    case (exec_map p w fs')
    then show ?thesis using mr_inv_exec_map [OF inv job exec_map(2-6)] by simp
  next
    case (exec_reduce p w fs')
    then show ?thesis using mr_inv_exec_reduce [OF inv job srt red exec_reduce(2-6)] by simp
  next
    case (report p w c')
    then show ?thesis using mr_inv_report [OF inv report(2-5)] by simp
  qed
qed

lemma make_tasks_keys: "map t_key (make_tasks cnt fs) = fs"
  by (induction fs arbitrary: cnt) auto

lemma mr_init_inv:
  assumes "job_ok mapf names n fs0"
  shows "mr_inv mapf reducef names n fs0 (mr_init names n fs0)"
proof -
  have "\<not> executed (make_tasks 0 names) [] v i" for v i
    using make_tasks_ok [OF nth_mem] by (fastforce simp: executed_def)
  then have "files_ok (task_kvs mapf names fs0) n (executed (make_tasks 0 names) []) fs0"
    using assms by (simp add: files_ok_def stream_of_def job_ok_def)
  then show ?thesis
    using MakeCoordinator_inv [of names names n]
    by (auto simp: mr_inv_def mr_init_def MakeCoordinator_def make_tasks_keys distinct_ids_def
        rtask_completed_def make_rtask_def)
qed

lemma mr_reach_inv:
  assumes "(mr_step srt mapf reducef)\<^sup>*\<^sup>* (mr_init names n fs0) s"
    and job: "job_ok mapf names n fs0" and srt: "go_sort srt" and red: "order_insensitive reducef"
    and "all_alive (mc s)" and "length (machines (mc s)) \<le> 256"
  shows "mr_inv mapf reducef names n fs0 s"
  using assms(1,5,6)
proof (induction rule: rtranclp_induct)
  case base
  show ?case by (rule mr_init_inv [OF job])
next
  case (step s t)
  with mr_step_mono [OF step.hyps(2)] have "mr_inv mapf reducef names n fs0 s" by simp
  then show ?case using mr_step_inv [OF step.hyps(2) _ job srt red] step.prems by blast
qed

subsection \<open>Executable schedules\<close>

datatype mr_action = Spawn | DoRegister nat int | CheckAlive int | DoAssign nat | DoExec nat | DoReport nat

definition proc_at :: "nat \<Rightarrow> mr_sys \<Rightarrow> (WorkerProc \<times> bool) option" where
  "proc_at p s = (if p < length (procs s) then Some (procs s ! p) else None)"

fun mr_do ::
  "(KeyValue list \<Rightarrow> KeyValue list) \<Rightarrow> (string \<Rightarrow> string \<Rightarrow> KeyValue list) \<Rightarrow>
   (string \<Rightarrow> string list \<Rightarrow> string) \<Rightarrow> mr_action \<Rightarrow> mr_sys \<Rightarrow> mr_sys option" where
  "mr_do srt mapf reducef Spawn s = Some (s\<lparr>procs := procs s @ [(init_worker, False)]\<rparr>)"
| "mr_do srt mapf reducef (DoRegister p now) s = do {
     (w, b) \<leftarrow> proc_at p s;
     (if info_id w = -1 then
        (let (w', c') = CallRegister now w (mc s)
         in Some (s\<lparr>mc := c', procs := (procs s)[p := (w', False)]\<rparr>))
      else None)
   }"
| "mr_do srt mapf reducef (CheckAlive now) s = Some (s\<lparr>mc := CheckAliveMachine_round now (mc s)\<rparr>)"
| "mr_do srt mapf reducef (DoAssign p) s = do {
     (w, b) \<leftarrow> proc_at p s;
     (if info_id w \<noteq> -1 \<and> info_status w = ''idle'' then do {
        (w', c') \<leftarrow> CallAssignTask (\<lambda>xs. xs) w (mc s);
        Some (s\<lparr>mc := c', procs := (procs s)[p := (w', False)]\<rparr>)
      } else None)
   }"
| "mr_do srt mapf reducef (DoExec p) s = do {
     (w, b) \<leftarrow> proc_at p s;
     (if b \<or> info_status w \<noteq> ''busy'' then None
      else if wt_Class (WorkerTask w) = ''map'' then do {
        fs' \<leftarrow> processMTask mapf w (mfs s);
        Some (s\<lparr>mfs := fs', procs := (procs s)[p := (w, True)]\<rparr>)
      } else if wt_Class (WorkerTask w) = ''reduce'' then do {
        fs' \<leftarrow> processRTask srt reducef w (mfs s);
        Some (s\<lparr>mfs := fs', procs := (procs s)[p := (w, True)]\<rparr>)
      } else None)
   }"
| "mr_do srt mapf reducef (DoReport p) s = do {
     (w, b) \<leftarrow> proc_at p s;
     (if b \<and> info_status w = ''busy'' then do {
        c' \<leftarrow> CallCompleteTask w (mc s);
        Some (s\<lparr>mc := c', procs := (procs s)[p := (w\<lparr>info_status := ''idle''\<rparr>, False)]\<rparr>)
      } else None)
   }"

fun mr_run ::
  "(KeyValue list \<Rightarrow> KeyValue list) \<Rightarrow> (string \<Rightarrow> string \<Rightarrow> KeyValue list) \<Rightarrow>
   (string \<Rightarrow> string list \<Rightarrow> string) \<Rightarrow> mr_action list \<Rightarrow> mr_sys \<Rightarrow> mr_sys option" where
  "mr_run srt mapf reducef [] s = Some s"
| "mr_run srt mapf reducef (a # as) s = do {
     t \<leftarrow> mr_do srt mapf reducef a s;
     mr_run srt mapf reducef as t
   }"

lemma mr_do_step: "mr_do srt mapf reducef a s = Some t \<Longrightarrow> mr_step srt mapf reducef s t"
  by (cases a)
    (auto simp: option_bind_simps proc_at_def split: if_splits prod.splits intro: mr_step.intros)

lemma mr_run_reach:
  "mr_run srt mapf reducef as s = Some t \<Longrightarrow> (mr_step srt mapf reducef)\<^sup>*\<^sup>* s t"
proof (induction as arbitrary: s)
  case (Cons a as)
  then obtain u where "mr_do srt mapf reducef a s = Some u" "mr_run srt mapf reducef as u = Some t"
    by (auto simp: option_bind_simps)
  with Cons.IH show ?case by (blast intro: mr_do_step converse_rtranclp_into_rtranclp)
qed simp

subsection \<open>Properties\<close>

text \<open>C1: The MapReduce system is correct in every run, with any number of workers joining at
  any time and any interleaving of their steps, as long as no worker is declared dead and at
  most 256 register: when the coordinator's \<^verbatim>\<open>Done\<close> answers true, output file \<open>r\<close> holds
  the reduced lines of exactly the keys of partition \<open>r\<close> over all inputs, in key order, and the
  lines of all output files are together a permutation of those that the sequential program
  writes for the same inputs.\<close>

theorem mr_system_correct:
  assumes "(mr_step srt mapf reducef)\<^sup>*\<^sup>* (mr_init names n fs0) s"
    and "job_ok mapf names n fs0" and "go_sort srt" and "order_insensitive reducef"
    and "all_alive (mc s)" and "length (machines (mc s)) \<le> 256" and "Done (mc s)" and "names \<noteq> []"
  shows "(\<forall>r < nat n. texts (mfs s) (out_name (int r)) =
        Some (concat (spec_lines reducef (part_of n (int r) (all_kvs mapf fs0 names))))) \<and>
    (\<exists>lines fs'. seq_main srt mapf reducef ([prog, plugin] @ names) fs0 = Some fs' \<and>
       texts fs' ''mr-out-0'' = Some (concat lines) \<and>
       mset (concat (map (\<lambda>r. spec_lines reducef (part_of n (int r) (all_kvs mapf fs0 names))) [0..<nat n]))
         = mset lines)"
proof (intro conjI allI impI)
  have inv: "mr_inv mapf reducef names n fs0 s" using mr_reach_inv [OF assms(1-6)] .
  fix r
  assume "r < nat n"
  with inv assms(7) have "rtask_completed (mc s) r"
    by (auto simp: Done_def ReduceDone_iff mr_inv_def coord_inv_def split: if_splits)
  with inv \<open>r < nat n\<close> show "texts (mfs s) (out_name (int r)) =
      Some (concat (spec_lines reducef (part_of n (int r) (all_kvs mapf fs0 names))))"
    by (auto simp: mr_inv_def out_text_def)
next
  have "seq_read mapf fs0 names [] = Some (all_kvs mapf fs0 names)"
    using seq_read_spec [of names fs0 mapf "[]"] assms(2) by (simp add: job_ok_def)
  moreover have "\<not> length ([prog, plugin] @ names) < 3" using assms(8) by (cases names) simp_all
  ultimately have "seq_main srt mapf reducef ([prog, plugin] @ names) fs0 =
      Some (fs0\<lparr>texts := (texts fs0)(''mr-out-0'' \<mapsto> concat (spec_lines reducef (all_kvs mapf fs0 names)))\<rparr>)"
    using go_sort.reduce_srt [OF assms(3,4)] assms(8) by (simp add: seq_main_def)
  moreover have "0 < n" using assms(2) by (simp add: job_ok_def)
  ultimately show "\<exists>lines fs'. seq_main srt mapf reducef ([prog, plugin] @ names) fs0 = Some fs' \<and>
       texts fs' ''mr-out-0'' = Some (concat lines) \<and>
       mset (concat (map (\<lambda>r. spec_lines reducef (part_of n (int r) (all_kvs mapf fs0 names))) [0..<nat n]))
         = mset lines"
    using spec_lines_partition [of n reducef "all_kvs mapf fs0 names"] by auto
qed

text \<open>A job with one input file, whose content is its only key, and one partition.\<close>

definition key_map :: "string \<Rightarrow> string \<Rightarrow> KeyValue list" where
  "key_map f c = [\<lparr>Key = c, Value = f\<rparr>]"

definition count_reduce :: "string \<Rightarrow> string list \<Rightarrow> string" where
  "count_reduce k vs = Itoa (int (length vs))"

definition one_fs :: FS where
  "one_fs = \<lparr>texts = [''x'' \<mapsto> ''w''], streams = Map.empty\<rparr>"

definition one_job :: mr_sys where
  "one_job = mr_init [''x''] 1 one_fs"

lemma json_string_samples: "json_string ''w'' = ''w''" "json_string ''x'' = ''x''"
  by (simp_all add: json_string_def runes_ascii_Cons RuneError_def)

lemma Itoa_012: "Itoa 0 = ''0''" "Itoa 1 = ''1''" "Itoa 2 = ''2''"
  by code_simp+

lemmas mr_run_simps = proc_at_def init_worker_def CallRegister_def Register_def CallAssignTask_def
  AssignTask_def MapDone_def AssignTask_map_def AssignTask_reduce_def ReduceDone_def map_skip_def
  reduce_skip_def alive_worker_def slice_get_def slice_set_def CallCompleteTask_def CompleteTask_def
  Let_def zero_TaskInfo_def processMTask_def saveIntermediate_def processRTask_def append_stream_def
  inter_name_def out_name_def CheckAliveMachine_round_def timeoutDuration_def MakeCoordinator_def
  mr_init_def make_rtask_def one_job_def one_fs_def json_Marshal_ints_def unmarshal_byte_def
  key_map_def json_string_samples json_kv_def Itoa_012 enumerate_eq_zip

lemma one_job_run:
  "\<exists>s. mr_run (sort_key Key) key_map count_reduce
     [Spawn, DoRegister 0 0, DoAssign 0, DoExec 0, DoReport 0, DoAssign 0, DoExec 0, DoReport 0] one_job = Some s \<and>
     Done (mc s) \<and> all_alive (mc s) \<and> length (machines (mc s)) = 1"
  by (simp add: mr_run_simps Done_def all_alive_def)

lemma one_job_ok: "job_ok key_map [''x''] 1 one_fs"
proof -
  have "valid_utf8 ''w''" "valid_utf8 ''x''"
    by (simp_all add: valid_utf8_def runes_ascii_Cons RuneError_def)
  then show ?thesis by (simp add: job_ok_def one_fs_def key_map_def out_name_def)
qed

lemma count_reduce_insensitive: "order_insensitive count_reduce"
  by (auto simp: order_insensitive_def count_reduce_def dest: mset_eq_length)

theorem mr_system_correct_witness:
  "\<exists>s. (mr_step (sort_key Key) key_map count_reduce)\<^sup>*\<^sup>* one_job s \<and> Done (mc s) \<and>
     texts (mfs s) ''mr-out-0'' = Some (''w 1'' @ [CHR 0x0A])"
proof -
  obtain s where run: "mr_run (sort_key Key) key_map count_reduce
      [Spawn, DoRegister 0 0, DoAssign 0, DoExec 0, DoReport 0, DoAssign 0, DoExec 0, DoReport 0] one_job = Some s"
    and fin: "Done (mc s)" "all_alive (mc s)" "length (machines (mc s)) = 1"
    using one_job_run by blast
  note reach = mr_run_reach [OF run]
  have "texts (mfs s) (out_name (int 0)) =
      Some (concat (spec_lines count_reduce (part_of 1 (int 0) (all_kvs key_map one_fs [''x'']))))"
    using mr_system_correct [OF reach [unfolded one_job_def] one_job_ok key_sort.go_sort_axioms
        count_reduce_insensitive fin(2) _ fin(1)] fin(3) by auto
  then have "texts (mfs s) ''mr-out-0'' = Some (''w 1'' @ [CHR 0x0A])"
    by (simp add: out_name_def Itoa_012 spec_lines_def part_of_def all_kvs_def values_of_def
        key_map_def one_fs_def count_reduce_def out_line_def)
  with reach fin(1) show ?thesis by blast
qed

text \<open>C39: Without the restriction on dead workers the output can be wrong: a worker that is
  declared dead while it runs a map task may report it later; the report makes the dead worker
  the owner of the completed task, so the task is handed out again, possibly to a worker that
  has executed it before, whose second execution appends its records to its files a second
  time.  In this run the only word is counted twice and the coordinator reports the job as
  done.\<close>

theorem late_report_counts_twice:
  "\<exists>s. (mr_step (sort_key Key) key_map count_reduce)\<^sup>*\<^sup>* one_job s \<and> Done (mc s) \<and>
     texts (mfs s) ''mr-out-0'' = Some (''w 2'' @ [CHR 0x0A]) \<and>
     concat (spec_lines count_reduce (all_kvs key_map one_fs [''x''])) = ''w 1'' @ [CHR 0x0A]"
proof -
  have "\<exists>s. mr_run (sort_key Key) key_map count_reduce
      [Spawn, Spawn, DoRegister 0 0, DoRegister 1 200000000, DoAssign 0, DoExec 0, CheckAlive 200000001,
       DoAssign 1, DoExec 1, DoReport 1, DoReport 0, DoAssign 1, DoExec 1, DoReport 1, DoAssign 1,
       DoExec 1, DoReport 1] one_job = Some s \<and> Done (mc s) \<and>
      texts (mfs s) ''mr-out-0'' = Some (''w 2'' @ [CHR 0x0A])"
    by (simp add: mr_run_simps Done_def reduce_loop.simps group_end.simps out_line_def count_reduce_def upt_rec)
  moreover have "concat (spec_lines count_reduce (all_kvs key_map one_fs [''x''])) = ''w 1'' @ [CHR 0x0A]"
    by (simp add: spec_lines_def all_kvs_def values_of_def key_map_def one_fs_def count_reduce_def
        out_line_def Itoa_012)
  ultimately show ?thesis by (blast intro: mr_run_reach)
qed

text \<open>C15: The steps of the system model are those of the worker's main loop: one round of the loop
  of \<^verbatim>\<open>Worker\<close>, whichever branch it takes (registration, request, execution and report
  of a map or a reduce task), is a sequence of steps of the system.\<close>

theorem Worker_round_is_steps:
  assumes "p < length (procs s)" and "procs s ! p = (w, False)"
    and "Worker_round srt mapf reducef ord now (w, mc s, mfs s) = Some (w', c', fs')"
    and "info_status w = ''busy'' \<longrightarrow> wt_Class (WorkerTask w) \<in> {''map'', ''reduce''}"
    and "\<And>xs. mset (ord xs) = mset xs"
  shows "(mr_step srt mapf reducef)\<^sup>*\<^sup>* s (s\<lparr>mc := c', mfs := fs', procs := (procs s)[p := (w', False)]\<rparr>)"
proof -
  let ?R = "mr_step srt mapf reducef"
  let ?t = "s\<lparr>mc := c', mfs := fs', procs := (procs s)[p := (w', False)]\<rparr>"
  consider (reg) "info_id w = -1" | (idle) "info_id w \<noteq> -1" "info_status w = ''idle''"
    | (busy) "info_id w \<noteq> -1" "info_status w = ''busy''"
    | (other) "info_id w \<noteq> -1" "info_status w \<noteq> ''idle''" "info_status w \<noteq> ''busy''" by blast
  then show ?thesis
  proof cases
    case reg
    then have "CallRegister now w (mc s) = (w', c')" "fs' = mfs s"
      using assms(3) by (auto simp: Worker_round_def split: prod.splits)
    then have "?R s ?t" using mr_step.register [OF assms(1,2) reg, of now w' c'] by simp
    then show ?thesis by blast
  next
    case idle
    then have "CallAssignTask ord w (mc s) = Some (w', c')" "fs' = mfs s"
      using assms(3) by (auto simp: Worker_round_def option_bind_simps)
    then have "?R s ?t" using mr_step.assign [OF assms(1,2) idle assms(5), of w' c'] by simp
    then show ?thesis by blast
  next
    case busy
    have w': "w' = w\<lparr>info_status := ''idle''\<rparr>" and c': "CallCompleteTask w (mc s) = Some c'"
      using assms(3,4) busy by (auto simp: Worker_round_def option_bind_simps split: if_splits)
    let ?u = "s\<lparr>mfs := fs', procs := (procs s)[p := (w, True)]\<rparr>"
    have "?R s ?u"
    proof (cases "wt_Class (WorkerTask w) = ''map''")
      case True
      then have "processMTask mapf w (mfs s) = Some fs'"
        using assms(3) busy by (auto simp: Worker_round_def option_bind_simps)
      then show ?thesis using mr_step.exec_map [OF assms(1,2) busy(2) True] by blast
    next
      case False
      then have "wt_Class (WorkerTask w) = ''reduce''" using assms(4) busy(2) by simp
      moreover from this have "processRTask srt reducef w (mfs s) = Some fs'"
        using assms(3) busy by (auto simp: Worker_round_def option_bind_simps)
      ultimately show ?thesis using mr_step.exec_reduce [OF assms(1,2) busy(2)] by blast
    qed
    moreover have "?R ?u ?t"
      using mr_step.report [of p ?u w c' srt mapf reducef] assms(1) busy(2) c' w' by (cases s) simp
    ultimately show ?thesis by (rule converse_rtranclp_into_rtranclp [OF _ r_into_rtranclp])
  next
    case other
    then have "w' = w" "c' = mc s" "fs' = mfs s" using assms(3) by (simp_all add: Worker_round_def)
    moreover have "(procs s)[p := (w, False)] = procs s" using assms(2) list_update_id [of "procs s" p] by simp
    ultimately have "?t = s" by simp
    then show ?thesis by simp
  qed
qed

theorem Worker_round_is_steps_witness:
  "\<exists>w' c' fs'. (mr_step (sort_key Key) key_map count_reduce)\<^sup>*\<^sup>* (one_job\<lparr>procs := [(init_worker, False)]\<rparr>)
     \<lparr>mc = c', mfs = fs', procs = [(w', False)]\<rparr> \<and> info_status w' = ''idle'' \<and> info_id w' = 0"
proof -
  let ?s = "one_job\<lparr>procs := [(init_worker, False)]\<rparr>"
  obtain w' c' fs' where r: "Worker_round (sort_key Key) key_map count_reduce (\<lambda>xs. xs) 0
      (init_worker, mc ?s, mfs ?s) = Some (w', c', fs')" and "info_status w' = ''idle''" "info_id w' = 0"
    by (simp add: Worker_round_def mr_run_simps)
  with Worker_round_is_steps [of 0 ?s init_worker, OF _ _ r] show ?thesis
    by (auto simp: one_job_def mr_init_def init_worker_def)
qed

end
