(* ===== verification/Persister.thy ===== *)
theory Persister
  imports Prelude
begin

text \<open>
  \<^verbatim>\<open>src/raft/persister.go\<close> and the encoder that Raft uses with it.  A \<^verbatim>\<open>[]byte\<close> made by a
  gob encoder is the list of the values encoded into it, in order; the empty list is a slice
  without bytes.  Decoding takes the next value and fails at the end of the bytes or when the
  value has another type.  A slice without elements decodes to \<^verbatim>\<open>nil\<close>, so the entries need
  no separate value for it.  \<^verbatim>\<open>interface{}\<close> values are \<open>nil\<close>, an integer or a string, the
  commands that the clients of the package send.
\<close>

datatype iface = INil | IInt int | IStr string

record Entry =
  e_Term :: int
  e_Command :: iface

datatype gval = GInt int | GStr string | GEntries "Entry list"

type_synonym bytes = "gval list"

fun decode_int :: "bytes \<Rightarrow> (int \<times> bytes) option" where
  "decode_int (GInt n # d) = Some (n, d)"
| "decode_int d = None"

fun decode_entries :: "bytes \<Rightarrow> (Entry list \<times> bytes) option" where
  "decode_entries (GEntries es # d) = Some (es, d)"
| "decode_entries d = None"

text \<open>\<^verbatim>\<open>labgob\<close>'s \<^verbatim>\<open>Encode\<close> of an interface value: \<^verbatim>\<open>nil\<close> has no type to check, a nil
  dereference in \<^verbatim>\<open>checkType\<close>.\<close>

fun encode_iface :: "iface \<Rightarrow> bytes option" where
  "encode_iface INil = None"
| "encode_iface (IInt n) = Some [GInt n]"
| "encode_iface (IStr s) = Some [GStr s]"

record Persister =
  raftstate :: bytes
  snapshot :: bytes

definition MakePersister :: Persister where
  "MakePersister = \<lparr>raftstate = [], snapshot = []\<rparr>"

definition clone_bytes :: "bytes \<Rightarrow> bytes" where
  "clone_bytes orig = orig"

definition Persister_Copy :: "Persister \<Rightarrow> Persister" where
  "Persister_Copy ps = MakePersister\<lparr>raftstate := raftstate ps, snapshot := snapshot ps\<rparr>"

definition SaveRaftState :: "bytes \<Rightarrow> Persister \<Rightarrow> Persister" where
  "SaveRaftState state ps = ps\<lparr>raftstate := clone_bytes state\<rparr>"

definition ReadRaftState :: "Persister \<Rightarrow> bytes" where
  "ReadRaftState ps = clone_bytes (raftstate ps)"

definition SaveStateAndSnapshot :: "bytes \<Rightarrow> bytes \<Rightarrow> Persister \<Rightarrow> Persister" where
  "SaveStateAndSnapshot state snap ps = ps\<lparr>raftstate := clone_bytes state, snapshot := clone_bytes snap\<rparr>"

definition ReadSnapshot :: "Persister \<Rightarrow> bytes" where
  "ReadSnapshot ps = clone_bytes (snapshot ps)"

text \<open>How many bytes the encoder needs for values is the encoder's business: \<open>blen\<close> is the length of a \<^verbatim>\<open>[]byte\<close>.\<close>

definition RaftStateSize :: "(bytes \<Rightarrow> int) \<Rightarrow> Persister \<Rightarrow> int" where
  "RaftStateSize blen ps = blen (raftstate ps)"

definition SnapshotSize :: "(bytes \<Rightarrow> int) \<Rightarrow> Persister \<Rightarrow> int" where
  "SnapshotSize blen ps = blen (snapshot ps)"

text \<open>What Raft relies on: what is saved is what is read, and the two parts are independent.\<close>

locale stable_store =
  fixes save :: "'b \<Rightarrow> 's \<Rightarrow> 's" and load :: "'s \<Rightarrow> 'b" and other :: "'s \<Rightarrow> 'c"
  assumes load_save: "load (save d s) = d"
    and other_save: "other (save d s) = other s"
begin

lemma last_save_wins: "load (save d (save d' s)) = d" "other (save d (save d' s)) = other s"
  by (simp_all add: load_save other_save)

end

interpretation raft_store: stable_store SaveRaftState ReadRaftState ReadSnapshot
  by unfold_locales (simp_all add: SaveRaftState_def ReadRaftState_def ReadSnapshot_def clone_bytes_def)

lemma SaveStateAndSnapshot_read [simp]:
  "ReadRaftState (SaveStateAndSnapshot st sn ps) = st" "ReadSnapshot (SaveStateAndSnapshot st sn ps) = sn"
  "Persister_Copy ps = ps"
  by (simp_all add: SaveStateAndSnapshot_def ReadRaftState_def ReadSnapshot_def clone_bytes_def
      Persister_Copy_def MakePersister_def)

end
