(* ===== verification/Raft.thy ===== *)
theory Raft
  imports Persister
begin

text \<open>
  \<^verbatim>\<open>src/raft/raft.go\<close>: the state of a peer and its code.  Every method runs in sections under
  the peer's mutex; each section is a function on the state.  \<open>None\<close> is a run-time panic or
  \<^verbatim>\<open>log.Fatal\<close>.  Goroutines that a section starts are returned as values of \<open>go_call\<close>.
  Times are integers (nanoseconds); the current time and random draws are arguments.

  The log is a Go slice: \<open>rlog\<close> is its content and \<open>logcap\<close> its capacity.  Appending to a
  prefix of it writes into the same array when the capacity suffices, which the model keeps
  (\<open>append_log\<close>); the capacity of a newly allocated array is chosen by the runtime and is
  the argument \<open>alloc\<close>.
\<close>

subsection \<open>Data\<close>

record ApplyMsg =
  CommandValid :: bool
  am_Command :: iface
  CommandIndex :: int
  SnapshotValid :: bool
  am_Snapshot :: bytes
  SnapshotTerm :: int
  SnapshotIndex :: int

record Raft =
  peers :: nat
  persister :: Persister
  me :: int
  dead :: int
  status :: string
  currentTerm :: int
  votedFor :: int
  votedTerm :: int
  rlog :: "Entry list"
  logcap :: nat
  lastIncludedTerm :: int
  lastIncludedIndex :: int
  lastTime :: int
  electionTime :: int
  commitIndex :: int
  lastApplied :: int
  largestIndexMathWithLeader :: int
  nextIndex :: "int list"
  matchIndex :: "int list"
  leaderId :: int

record InstallSnapshotArgs =
  is_Term :: int
  is_LeaderId :: int
  is_LastIncludedIndex :: int
  is_LastIncludedTerm :: int
  is_Snapshot :: bytes

record RequestVoteArgs =
  rv_Term :: int
  rv_CandidateId :: int
  rv_LastLogIndex :: int
  rv_LastLogTerm :: int

record RequestVoteReply =
  rvr_Term :: int
  rvr_VoteGranted :: bool

record AppendEntriesArgs =
  ae_Term :: int
  ae_LeaderId :: int
  ae_PrevLogIndex :: int
  ae_PrevLogTerm :: int
  ae_Entries :: bytes
  ae_LeaderCommit :: int

record AppendEntriesReply =
  aer_Term :: int
  aer_Success :: bool
  aer_NewPrevLogIndex :: int

datatype go_call =
    GoApplyNewCommand int
  | GoReplicatedEntries
  | GoReplicatedEntriesToOne int
  | GoSendInstallSnapshotToOne int
  | GoSendHeartBeatToOne int
  | GoSendApplyMsg ApplyMsg
  | GoStartElection
  | GoStartSendHeartBeats

subsection \<open>Small functions\<close>

definition getRelativeIndex :: "int \<Rightarrow> Raft \<Rightarrow> int" where
  "getRelativeIndex absoluteIndex rf = absoluteIndex - lastIncludedIndex rf"

definition getAbsoluteIndex :: "int \<Rightarrow> Raft \<Rightarrow> int" where
  "getAbsoluteIndex relativeIndex rf = relativeIndex + lastIncludedIndex rf"

definition min_int :: "int \<Rightarrow> int \<Rightarrow> int" where
  "min_int a b = (if a > b then b else a)"

definition max_int :: "int \<Rightarrow> int \<Rightarrow> int" where
  "max_int a b = (if a > b then a else b)"

text \<open>\<open>r\<close> is the draw of \<^verbatim>\<open>rand.Intn(right-left)\<close>.\<close>

definition getRandomizedElecionTime :: "int \<Rightarrow> int" where
  "getRandomizedElecionTime r = (r mod (800 - 400) + 400) * 1000000"

definition serialEntries :: "Entry list \<Rightarrow> bytes" where
  "serialEntries entries = [GEntries entries]"

definition d_serialEntries :: "bytes \<Rightarrow> Entry list option" where
  "d_serialEntries receivedBytes =
     (if receivedBytes = [] then Some []
      else do { (es, rest) \<leftarrow> decode_entries receivedBytes; Some es })"

definition Kill :: "Raft \<Rightarrow> Raft" where
  "Kill rf = rf\<lparr>dead := 1\<rparr>"

definition killed :: "Raft \<Rightarrow> bool" where
  "killed rf \<longleftrightarrow> dead rf = 1"

definition GetState :: "Raft \<Rightarrow> int \<times> bool" where
  "GetState rf = (currentTerm rf, status rf = ''leader'')"

subsection \<open>Persistent state\<close>

definition raft_bytes :: "Raft \<Rightarrow> bytes" where
  "raft_bytes rf =
     [GInt (currentTerm rf), GInt (votedFor rf), GInt (votedTerm rf), GEntries (rlog rf),
      GInt (lastIncludedTerm rf), GInt (lastIncludedIndex rf)]"

definition persist :: "Raft \<Rightarrow> Raft" where
  "persist rf = rf\<lparr>persister := SaveRaftState (raft_bytes rf) (persister rf)\<rparr>"

definition readPersist :: "(nat \<Rightarrow> nat) \<Rightarrow> bytes \<Rightarrow> Raft \<Rightarrow> Raft option" where
  "readPersist alloc data rf =
     (if data = [] then Some rf
      else do {
        (ct, d) \<leftarrow> decode_int data;
        (vf, d) \<leftarrow> decode_int d;
        (vt, d) \<leftarrow> decode_int d;
        (restortedLog, d) \<leftarrow> decode_entries d;
        (lit, d) \<leftarrow> decode_int d;
        (lii, d) \<leftarrow> decode_int d;
        Some (rf\<lparr>currentTerm := ct, votedFor := vf, votedTerm := vt, rlog := restortedLog,
                 logcap := max (length restortedLog) (alloc (length restortedLog)),
                 lastIncludedTerm := lit, lastIncludedIndex := lii\<rparr>)
      })"

definition Make :: "(nat \<Rightarrow> nat) \<Rightarrow> int \<Rightarrow> int \<Rightarrow> nat \<Rightarrow> int \<Rightarrow> Persister \<Rightarrow> Raft option" where
  "Make alloc now r prs self ps =
     readPersist alloc (ReadRaftState ps)
       \<lparr>peers = prs, persister = ps, me = self, dead = 0, status = ''follower'', currentTerm = 0,
        votedFor = 0, votedTerm = 0, rlog = [\<lparr>e_Term = 0, e_Command = INil\<rparr>], logcap = 1,
        lastIncludedTerm = 0, lastIncludedIndex = 0, lastTime = now,
        electionTime = getRandomizedElecionTime r, commitIndex = 0, lastApplied = 0,
        largestIndexMathWithLeader = 0, nextIndex = [], matchIndex = [], leaderId = 0\<rparr>"

subsection \<open>Snapshots\<close>

definition CondInstallSnapshot :: "int \<Rightarrow> int \<Rightarrow> bytes \<Rightarrow> Raft \<Rightarrow> (Raft \<times> bool) option" where
  "CondInstallSnapshot lit lii snap rf =
     (if commitIndex rf \<ge> lii \<or> lastIncludedIndex rf \<ge> lii then Some (rf, False)
      else do {
        (cmd, rest) \<leftarrow> decode_int snap;
        Some (persist (rf\<lparr>rlog := [\<lparr>e_Term = lit, e_Command = IInt cmd\<rparr>], logcap := 1,
                lastIncludedTerm := lit, lastIncludedIndex := lii,
                commitIndex := lii, lastApplied := lii\<rparr>), True)
      })"

text \<open>The body of the goroutine that \<^verbatim>\<open>Snapshot\<close> starts.\<close>

definition Snapshot :: "(nat \<Rightarrow> nat) \<Rightarrow> int \<Rightarrow> Raft \<Rightarrow> Raft option" where
  "Snapshot alloc index rf =
     (if index \<le> lastIncludedIndex rf then Some rf
      else do {
        e \<leftarrow> slice_get (rlog rf) (getRelativeIndex index rf);
        es \<leftarrow> slice_from (rlog rf) (getRelativeIndex index rf);
        newLog \<leftarrow> d_serialEntries (serialEntries es);
        Some (persist (rf\<lparr>lastIncludedTerm := e_Term e, rlog := newLog,
                logcap := max (length newLog) (alloc (length newLog)), lastIncludedIndex := index\<rparr>))
      })"

definition InstallSnapshot :: "int \<Rightarrow> InstallSnapshotArgs \<Rightarrow> Raft \<Rightarrow> Raft \<times> int \<times> go_call list" where
  "InstallSnapshot now args rf =
     (let replyTerm = currentTerm rf in
      if is_Term args < currentTerm rf then (rf, replyTerm, [])
      else
        let rf1 = (if is_Term args > currentTerm rf then persist (rf\<lparr>currentTerm := is_Term args\<rparr>) else rf);
            rf2 = rf1\<lparr>status := ''follower'', lastTime := now, leaderId := is_LeaderId args\<rparr>;
            applyMsg = \<lparr>CommandValid = False, am_Command = INil, CommandIndex = 0, SnapshotValid = True,
                        am_Snapshot = is_Snapshot args, SnapshotTerm = is_LastIncludedTerm args,
                        SnapshotIndex = is_LastIncludedIndex args\<rparr>
        in (rf2, replyTerm, [GoSendApplyMsg applyMsg]))"

subsection \<open>Votes\<close>

definition isAdvanceThanCandidate :: "int \<Rightarrow> int \<Rightarrow> Raft \<Rightarrow> bool option" where
  "isAdvanceThanCandidate LastLogTerm LastLogIndex rf =
     (let tail = int (length (rlog rf)) - 1 in do {
        e \<leftarrow> slice_get (rlog rf) tail;
        Some (if e_Term e > LastLogTerm then True
              else if e_Term e < LastLogTerm then False
              else getAbsoluteIndex tail rf > LastLogIndex)
      })"

definition RequestVote :: "int \<Rightarrow> RequestVoteArgs \<Rightarrow> Raft \<Rightarrow> (Raft \<times> RequestVoteReply) option" where
  "RequestVote now args rf =
     (let reply = \<lparr>rvr_Term = currentTerm rf, rvr_VoteGranted = False\<rparr> in
      if rv_Term args = currentTerm rf then do {
        adv \<leftarrow> isAdvanceThanCandidate (rv_LastLogTerm args) (rv_LastLogIndex args) rf;
        Some (if \<not> adv \<and> votedTerm rf < rv_Term args
              then (persist (rf\<lparr>votedFor := rv_CandidateId args, votedTerm := rv_Term args, lastTime := now,
                      status := ''follower'', leaderId := rv_CandidateId args,
                      largestIndexMathWithLeader := 0\<rparr>),
                    reply\<lparr>rvr_VoteGranted := True\<rparr>)
              else (rf, reply))
      } else if rv_Term args > currentTerm rf then do {
        adv \<leftarrow> isAdvanceThanCandidate (rv_LastLogTerm args) (rv_LastLogIndex args) rf;
        let rf1 = rf\<lparr>currentTerm := rv_Term args, status := ''follower''\<rparr>;
        Some (if \<not> adv
              then (persist (rf1\<lparr>votedFor := rv_CandidateId args, votedTerm := rv_Term args, lastTime := now,
                      leaderId := rv_CandidateId args, largestIndexMathWithLeader := 0\<rparr>),
                    reply\<lparr>rvr_VoteGranted := True\<rparr>)
              else (persist rf1, reply))
      } else Some (rf, reply))"

subsection \<open>Appending entries\<close>

text \<open>The loop that looks for the position before the entries of the conflicting term.\<close>

function back_loop :: "Raft \<Rightarrow> int \<Rightarrow> int \<Rightarrow> int option" where
  "back_loop rf PrevLogIndex NewPrevLogIndex =
     (if NewPrevLogIndex > 0 then do {
        a \<leftarrow> slice_get (rlog rf) (getRelativeIndex NewPrevLogIndex rf);
        b \<leftarrow> slice_get (rlog rf) (getRelativeIndex PrevLogIndex rf);
        (if e_Term a = e_Term b then back_loop rf PrevLogIndex (NewPrevLogIndex - 1)
         else Some NewPrevLogIndex)
      } else Some NewPrevLogIndex)"
  by pat_completeness auto
termination by (relation "measure (\<lambda>(rf, p, k). nat k)") auto

declare back_loop.simps [simp del]

definition isMatchPrevLog :: "int \<Rightarrow> int \<Rightarrow> Raft \<Rightarrow> (bool \<times> int) option" where
  "isMatchPrevLog PrevLogIndex PrevLogTerm rf =
     (if PrevLogIndex \<ge> getAbsoluteIndex (int (length (rlog rf))) rf
      then Some (False, getAbsoluteIndex (int (length (rlog rf))) rf - 1)
      else if PrevLogIndex \<le> lastIncludedIndex rf then Some (True, lastIncludedIndex rf)
      else do {
        e \<leftarrow> slice_get (rlog rf) (getRelativeIndex PrevLogIndex rf);
        (if e_Term e \<noteq> PrevLogTerm then do {
           NewPrevLogIndex \<leftarrow> back_loop rf PrevLogIndex PrevLogIndex;
           Some (False, NewPrevLogIndex)
         } else Some (True, PrevLogIndex))
      })"

text \<open>
  \<^verbatim>\<open>append(rf.log[:k], es...)\<close> for \<open>k\<close> up to the length: the new slice with its capacity, and
  the content of the old slice afterwards, which has changed when the array is reused.
\<close>

definition append_log :: "(nat \<Rightarrow> nat) \<Rightarrow> nat \<Rightarrow> Entry list \<Rightarrow> Raft \<Rightarrow> Entry list \<times> nat \<times> Entry list" where
  "append_log alloc k es rf =
     (let newLog = take k (rlog rf) @ es; n = length newLog in
      if n \<le> logcap rf
      then (newLog, logcap rf, take (length (rlog rf)) (newLog @ drop n (rlog rf)))
      else (newLog, max n (alloc n), rlog rf))"

definition store_entries :: "(nat \<Rightarrow> nat) \<Rightarrow> int \<Rightarrow> Entry list \<Rightarrow> Raft \<Rightarrow> Raft option" where
  "store_entries alloc PrevLogIndex restoredEntries rf =
     (if restoredEntries \<noteq> [] \<and> getRelativeIndex (PrevLogIndex + 1) rf > 0 then do {
        p \<leftarrow> slice_to (rlog rf) (getRelativeIndex (PrevLogIndex + 1) rf);
        let (newLog, newCap, oldLog) = append_log alloc (length p) restoredEntries rf;
        Some (if largestIndexMathWithLeader rf < getAbsoluteIndex (int (length newLog) - 1) rf
              then persist (rf\<lparr>rlog := newLog, logcap := newCap,
                     largestIndexMathWithLeader := getAbsoluteIndex (int (length newLog) - 1) rf\<rparr>)
              else rf\<lparr>rlog := oldLog\<rparr>)
      } else Some rf)"

definition AppendEntries ::
  "(nat \<Rightarrow> nat) \<Rightarrow> int \<Rightarrow> AppendEntriesArgs \<Rightarrow> Raft \<Rightarrow> (Raft \<times> AppendEntriesReply \<times> go_call list) option" where
  "AppendEntries alloc now args rf =
     (let reply = \<lparr>aer_Term = currentTerm rf, aer_Success = False, aer_NewPrevLogIndex = 0\<rparr> in
      if currentTerm rf > ae_Term args then Some (rf, reply, [])
      else
        let rf1 = (if currentTerm rf < ae_Term args then persist (rf\<lparr>currentTerm := ae_Term args\<rparr>) else rf);
            rf2 = rf1\<lparr>lastTime := now, status := ''follower''\<rparr>
        in do {
          (ok, newPrevLogIndex) \<leftarrow> isMatchPrevLog (ae_PrevLogIndex args) (ae_PrevLogTerm args) rf2;
          (if \<not> ok then Some (rf2, reply\<lparr>aer_NewPrevLogIndex := newPrevLogIndex, aer_Success := False\<rparr>, [])
           else do {
             restoredEntries \<leftarrow> d_serialEntries (ae_Entries args);
             rf3 \<leftarrow> store_entries alloc (ae_PrevLogIndex args) restoredEntries rf2;
             let gos = (if min_int (ae_LeaderCommit args) (ae_PrevLogIndex args) > commitIndex rf3
                        then [GoApplyNewCommand (min_int (ae_LeaderCommit args) (ae_PrevLogIndex args))]
                        else []);
             Some (rf3, reply\<lparr>aer_Success := True\<rparr>, gos)
           })
        })"

definition Start :: "(nat \<Rightarrow> nat) \<Rightarrow> iface \<Rightarrow> Raft \<Rightarrow> Raft \<times> (int \<times> int \<times> bool) \<times> go_call list" where
  "Start alloc command rf =
     (if killed rf \<or> status rf \<noteq> ''leader'' then (rf, (-1, -1, False), [])
      else
        let newEntry = \<lparr>e_Term = currentTerm rf, e_Command = command\<rparr>;
            (newLog, newCap, oldLog) = append_log alloc (length (rlog rf)) [newEntry] rf;
            rf1 = rf\<lparr>rlog := newLog, logcap := newCap\<rparr>
        in (persist rf1, (getAbsoluteIndex (int (length (rlog rf1)) - 1) rf1, currentTerm rf, True),
            [GoReplicatedEntries]))"

subsection \<open>Elections\<close>

text \<open>
  \<^verbatim>\<open>ticker\<close> in sections: the start of an election; the two sections of each goroutine that asks
  for a vote (the handling of the reply, and the final count of finished requests); the wait
  loop's condition; and the section after the wait.  The variables that the goroutines share
  (\<^verbatim>\<open>count\<close>, \<^verbatim>\<open>finished\<close>) and the arguments of the requests are in the record \<open>Election\<close>.
\<close>

record Election =
  el_args :: RequestVoteArgs
  el_majority :: int
  el_count :: int
  el_finished :: int

definition becomeLeaderInit :: "Raft \<Rightarrow> Raft" where
  "becomeLeaderInit rf =
     rf\<lparr>status := ''leader'',
        nextIndex := replicate (peers rf) (getAbsoluteIndex (int (length (rlog rf))) rf),
        matchIndex := replicate (peers rf) 0\<rparr>"

definition ticker_start :: "int \<Rightarrow> int \<Rightarrow> Raft \<Rightarrow> (Raft \<times> Election option) option" where
  "ticker_start now r rf =
     (if status rf \<noteq> ''candidate'' then Some (rf, None)
      else
        let rf1 = persist (rf\<lparr>currentTerm := currentTerm rf + 1, votedFor := me rf, votedTerm := currentTerm rf + 1\<rparr>);
            rf2 = rf1\<lparr>lastTime := now, electionTime := getRandomizedElecionTime r\<rparr>
        in do {
          e \<leftarrow> slice_get (rlog rf2) (int (length (rlog rf2)) - 1);
          Some (rf2, Some \<lparr>el_args = \<lparr>rv_Term = currentTerm rf2, rv_CandidateId = me rf2,
                  rv_LastLogIndex = getAbsoluteIndex (int (length (rlog rf2)) - 1) rf2,
                  rv_LastLogTerm = e_Term e\<rparr>,
                el_majority = int (peers rf2 div 2 + 1), el_count = 1, el_finished = 1\<rparr>)
        })"

text \<open>The reply section returns whether the goroutine goes on to the count of finished requests.\<close>

definition vote_reply :: "RequestVoteReply \<Rightarrow> Raft \<times> Election \<Rightarrow> (Raft \<times> Election) \<times> bool" where
  "vote_reply reply = (\<lambda>(rf, el).
     if status rf \<noteq> ''candidate'' then ((rf, el), False)
     else if rvr_VoteGranted reply then ((rf, el\<lparr>el_count := el_count el + 1\<rparr>), True)
     else if rvr_Term reply > currentTerm rf
       then (((persist (rf\<lparr>currentTerm := rvr_Term reply\<rparr>))\<lparr>status := ''follower''\<rparr>, el), True)
     else ((rf, el), True))"

definition vote_finished :: "Election \<Rightarrow> Election" where
  "vote_finished el = el\<lparr>el_finished := el_finished el + 1\<rparr>"

definition ticker_waits :: "int \<Rightarrow> Raft \<Rightarrow> Election \<Rightarrow> bool" where
  "ticker_waits now rf el \<longleftrightarrow> status rf = ''candidate'' \<and> el_count el < el_majority el \<and>
     el_finished el \<noteq> int (peers rf) \<and> now - lastTime rf \<le> electionTime rf"

definition ticker_end :: "Raft \<Rightarrow> Election \<Rightarrow> Raft \<times> go_call list" where
  "ticker_end rf el =
     (if status rf = ''candidate'' \<and> el_count el \<ge> el_majority el
      then (becomeLeaderInit rf, [GoStartSendHeartBeats]) else (rf, []))"

text \<open>One round of the loop of \<^verbatim>\<open>checkState\<close>.\<close>

definition checkState_round :: "int \<Rightarrow> Raft \<Rightarrow> Raft \<times> go_call list" where
  "checkState_round now rf =
     (if status rf = ''follower'' \<and> now - lastTime rf > electionTime rf
      then (rf\<lparr>status := ''candidate''\<rparr>, [GoStartElection]) else (rf, []))"

definition atomicReadStatus :: "Raft \<Rightarrow> string" where
  "atomicReadStatus rf = status rf"

subsection \<open>Applying commands\<close>

function apply_loop :: "Raft \<Rightarrow> int \<Rightarrow> int \<Rightarrow> ApplyMsg list option" where
  "apply_loop rf i stop =
     (if i \<le> stop then do {
        e \<leftarrow> slice_get (rlog rf) (getRelativeIndex i rf);
        ms \<leftarrow> apply_loop rf (i + 1) stop;
        Some (\<lparr>CommandValid = True, am_Command = e_Command e, CommandIndex = i, SnapshotValid = False,
               am_Snapshot = [], SnapshotTerm = 0, SnapshotIndex = 0\<rparr> # ms)
      } else Some [])"
  by pat_completeness auto
termination by (relation "measure (\<lambda>(rf, i, stop). nat (stop + 1 - i))") auto

declare apply_loop.simps [simp del]

text \<open>The messages go to \<^verbatim>\<open>applyCh\<close> in this order while the mutex is held.\<close>

definition applyNewCommand :: "int \<Rightarrow> Raft \<Rightarrow> (Raft \<times> ApplyMsg list) option" where
  "applyNewCommand newIndex rf =
     (let LastIndex = getAbsoluteIndex (int (length (rlog rf)) - 1) rf;
          rf1 = rf\<lparr>lastApplied := max_int (lastApplied rf) (lastIncludedIndex rf)\<rparr>
      in do {
        ms \<leftarrow> apply_loop rf1 (lastApplied rf1 + 1) (min_int newIndex LastIndex);
        Some (rf1\<lparr>lastApplied := newIndex, commitIndex := newIndex\<rparr>, ms)
      })"

function others_loop :: "Raft \<Rightarrow> int \<Rightarrow> nat \<Rightarrow> int \<Rightarrow> bool option" where
  "others_loop rf i j others =
     (if j < peers rf then
        (if int j = me rf then others_loop rf i (j + 1) others
         else do {
           m \<leftarrow> slice_get (matchIndex rf) (int j);
           let others' = (if m \<ge> i then others + 1 else others);
           (if others' \<ge> int (peers rf div 2) then Some True else others_loop rf i (j + 1) others')
         })
      else Some False)"
  by pat_completeness auto
termination by (relation "measure (\<lambda>(rf, i, j, others). peers rf - j)") auto

declare others_loop.simps [simp del]

function commit_loop :: "Raft \<Rightarrow> int \<Rightarrow> int option option" where
  "commit_loop rf i =
     (if i > commitIndex rf then do {
        flag \<leftarrow> others_loop rf i 0 0;
        (if flag then Some (Some i) else commit_loop rf (i - 1))
      } else Some None)"
  by pat_completeness auto
termination by (relation "measure (\<lambda>(rf, i). nat (i - commitIndex rf))") auto

declare commit_loop.simps [simp del]

definition leaderApply :: "Raft \<Rightarrow> (Raft \<times> ApplyMsg list) option" where
  "leaderApply rf =
     (if status rf \<noteq> ''leader'' then Some (rf, [])
      else do {
        r \<leftarrow> commit_loop rf (getAbsoluteIndex (int (length (rlog rf)) - 1) rf);
        (case r of
           None \<Rightarrow> Some (rf, [])
         | Some newIndex \<Rightarrow> do {
             ms \<leftarrow> apply_loop rf (lastApplied rf + 1) newIndex;
             Some (rf\<lparr>commitIndex := newIndex, lastApplied := newIndex\<rparr>, ms)
           })
      })"

subsection \<open>Leader: requests and replies\<close>

definition other_peers :: "Raft \<Rightarrow> int list" where
  "other_peers rf = filter (\<lambda>i. i \<noteq> me rf) (map int [0..<peers rf])"

definition replicatedEntries :: "Raft \<Rightarrow> go_call list" where
  "replicatedEntries rf =
     concat (map (\<lambda>i. [GoReplicatedEntriesToOne i, GoSendInstallSnapshotToOne i]) (other_peers rf))"

text \<open>One round of the inner loop of \<^verbatim>\<open>sendHeartBeats\<close>; \<open>None\<close> when the loop ends.\<close>

definition sendHeartBeats_round :: "Raft \<Rightarrow> go_call list option" where
  "sendHeartBeats_round rf =
     (if \<not> killed rf \<and> atomicReadStatus rf = ''leader''
      then Some (concat (map (\<lambda>i. [GoSendHeartBeatToOne i, GoSendInstallSnapshotToOne i]) (other_peers rf)))
      else None)"

definition sendHeartBeatToOne_send :: "int \<Rightarrow> Raft \<Rightarrow> AppendEntriesArgs option option" where
  "sendHeartBeatToOne_send server rf =
     (if status rf \<noteq> ''leader'' then Some None
      else do {
        ni \<leftarrow> slice_get (nextIndex rf) server;
        (if ni \<le> lastIncludedIndex rf then Some None
         else do {
           e \<leftarrow> slice_get (rlog rf) (getRelativeIndex (ni - 1) rf);
           Some (Some \<lparr>ae_Term = currentTerm rf, ae_LeaderId = me rf, ae_PrevLogIndex = ni - 1,
             ae_PrevLogTerm = e_Term e, ae_Entries = [], ae_LeaderCommit = commitIndex rf\<rparr>)
         })
      })"

text \<open>The handling of a refused append, the same in both reply sections.\<close>

definition append_refused :: "int \<Rightarrow> int \<Rightarrow> AppendEntriesReply \<Rightarrow> Raft \<Rightarrow> Raft option" where
  "append_refused now server reply rf =
     (if aer_Term reply > currentTerm rf
      then Some ((persist (rf\<lparr>currentTerm := aer_Term reply\<rparr>))\<lparr>lastTime := now, status := ''follower''\<rparr>)
      else do {
        ni \<leftarrow> slice_set (nextIndex rf) server (aer_NewPrevLogIndex reply + 1);
        Some (rf\<lparr>nextIndex := ni\<rparr>)
      })"

definition sendHeartBeatToOne_reply ::
  "int \<Rightarrow> int \<Rightarrow> AppendEntriesReply \<Rightarrow> Raft \<Rightarrow> (Raft \<times> go_call list) option" where
  "sendHeartBeatToOne_reply now server reply rf =
     (if status rf \<noteq> ''leader'' then Some (rf, [])
      else if \<not> aer_Success reply then do {
        rf1 \<leftarrow> append_refused now server reply rf;
        Some (rf1, [])
      } else do {
        ni \<leftarrow> slice_get (nextIndex rf) server;
        Some (rf, if ni < getAbsoluteIndex (int (length (rlog rf))) rf
                  then [GoReplicatedEntriesToOne server] else [])
      })"

definition sendInstallSnapshotToOne_send :: "int \<Rightarrow> Raft \<Rightarrow> InstallSnapshotArgs option option" where
  "sendInstallSnapshotToOne_send server rf =
     (if status rf \<noteq> ''leader'' then Some None
      else do {
        ni \<leftarrow> slice_get (nextIndex rf) server;
        (if ni > lastIncludedIndex rf then Some None
         else do {
           e \<leftarrow> slice_get (rlog rf) 0;
           snap \<leftarrow> encode_iface (e_Command e);
           Some (Some \<lparr>is_Term = currentTerm rf, is_LeaderId = me rf,
             is_LastIncludedIndex = lastIncludedIndex rf, is_LastIncludedTerm = lastIncludedTerm rf,
             is_Snapshot = snap\<rparr>)
         })
      })"

definition sendInstallSnapshotToOne_reply :: "int \<Rightarrow> int \<Rightarrow> Raft \<Rightarrow> Raft option" where
  "sendInstallSnapshotToOne_reply server replyTerm rf =
     (if status rf \<noteq> ''leader'' then Some rf
      else if replyTerm > currentTerm rf
        then Some ((persist (rf\<lparr>currentTerm := replyTerm\<rparr>))\<lparr>status := ''follower''\<rparr>)
      else do {
        ni \<leftarrow> slice_set (nextIndex rf) server (getAbsoluteIndex (int (length (rlog rf))) rf);
        Some (rf\<lparr>nextIndex := ni\<rparr>)
      })"

definition replicatedEntriesToOne_send :: "int \<Rightarrow> Raft \<Rightarrow> (AppendEntriesArgs \<times> int) option option" where
  "replicatedEntriesToOne_send server rf =
     (if status rf \<noteq> ''leader'' then Some None
      else do {
        ni \<leftarrow> slice_get (nextIndex rf) server;
        (if ni \<le> lastIncludedIndex rf then Some None
         else do {
           e \<leftarrow> slice_get (rlog rf) (getRelativeIndex (ni - 1) rf);
           es \<leftarrow> slice_from (rlog rf) (getRelativeIndex ni rf);
           Some (Some (\<lparr>ae_Term = currentTerm rf, ae_LeaderId = me rf, ae_PrevLogIndex = ni - 1,
               ae_PrevLogTerm = e_Term e, ae_Entries = serialEntries es, ae_LeaderCommit = 0\<rparr>,
             getAbsoluteIndex (int (length (rlog rf))) rf - 1))
         })
      })"

definition replicatedEntriesToOne_reply ::
  "int \<Rightarrow> int \<Rightarrow> int \<Rightarrow> AppendEntriesReply \<Rightarrow> Raft \<Rightarrow> (Raft \<times> ApplyMsg list) option" where
  "replicatedEntriesToOne_reply now server sendLogLastIndex reply rf =
     (if status rf \<noteq> ''leader'' then Some (rf, [])
      else if \<not> aer_Success reply then do {
        rf1 \<leftarrow> append_refused now server reply rf;
        Some (rf1, [])
      } else do {
        ni \<leftarrow> slice_set (nextIndex rf) server (getAbsoluteIndex (int (length (rlog rf))) rf);
        mi \<leftarrow> slice_set (matchIndex rf) server sendLogLastIndex;
        leaderApply (rf\<lparr>nextIndex := ni, matchIndex := mi\<rparr>)
      })"

end
