(* ===== verification/Raft_Node.thy ===== *)
theory Raft_Node
  imports Raft
begin

text \<open>
  What holds of a single peer in every run.  \<open>node_step\<close> lets the peer take any section of its
  code at any time, with arbitrary arguments and replies, and crash and restart from its
  persister at any time; so whatever holds of its reachable states holds of a peer in any
  cluster and on any network.  The second component of a state is the history of the votes
  the peer has given, as pairs of a term and a candidate.
\<close>

subsection \<open>Steps\<close>

type_synonym node = "Raft \<times> (int \<times> int) set"

inductive passive_step :: "Raft \<Rightarrow> Raft \<Rightarrow> bool" where
  append_entries: "AppendEntries alloc now aargs rf = Some (rf', areply, gos) \<Longrightarrow> passive_step rf rf'"
| install_snapshot: "InstallSnapshot now iargs rf = (rf', t, gos) \<Longrightarrow> passive_step rf rf'"
| cond_install: "CondInstallSnapshot lit lii snap rf = Some (rf', b) \<Longrightarrow> passive_step rf rf'"
| take_snapshot: "Snapshot alloc index rf = Some rf' \<Longrightarrow> passive_step rf rf'"
| start: "Start alloc command rf = (rf', res, gos) \<Longrightarrow> passive_step rf rf'"
| kill: "passive_step rf (Kill rf)"
| apply_new: "applyNewCommand newIndex rf = Some (rf', msgs) \<Longrightarrow> passive_step rf rf'"
| heartbeat_reply: "sendHeartBeatToOne_reply now server areply rf = Some (rf', gos) \<Longrightarrow> passive_step rf rf'"
| snapshot_reply: "sendInstallSnapshotToOne_reply server t rf = Some rf' \<Longrightarrow> passive_step rf rf'"
| replicate_reply: "replicatedEntriesToOne_reply now server lastIdx areply rf = Some (rf', msgs) \<Longrightarrow>
    passive_step rf rf'"

inductive section_step :: "Raft \<Rightarrow> Raft \<Rightarrow> bool" where
  vote_reply: "vote_reply reply (rf, el) = ((rf', el'), goes_on) \<Longrightarrow> section_step rf rf'"
| election_end: "ticker_end rf el = (rf', gos) \<Longrightarrow> section_step rf rf'"
| check_state: "checkState_round now rf = (rf', gos) \<Longrightarrow> section_step rf rf'"
| rest: "passive_step rf rf' \<Longrightarrow> section_step rf rf'"

inductive node_step :: "node \<Rightarrow> node \<Rightarrow> bool" where
  restart: "Make alloc now r (peers rf) (me rf) (persister rf) = Some rf' \<Longrightarrow> node_step (rf, V) (rf', V)"
| request_vote: "RequestVote now args rf = Some (rf', reply) \<Longrightarrow>
    node_step (rf, V) (rf', if rvr_VoteGranted reply then insert (rv_Term args, rv_CandidateId args) V else V)"
| election: "ticker_start now r rf = Some (rf', el) \<Longrightarrow>
    node_step (rf, V) (rf', if el = None then V else insert (currentTerm rf', me rf') V)"
| other: "section_step rf rf' \<Longrightarrow> node_step (rf, V) (rf', V)"

inductive node_reach :: "node \<Rightarrow> bool" where
  boot: "Make alloc now r n self MakePersister = Some rf \<Longrightarrow> node_reach (rf, {})"
| step: "node_reach s \<Longrightarrow> node_step s t \<Longrightarrow> node_reach t"

subsection \<open>Invariant\<close>

text \<open>
  The stable storage holds the current term, vote and snapshot position at all times, and a log
  of the same length; before the first write the peer is in its initial state.
\<close>

definition stored :: "Raft \<Rightarrow> bool" where
  "stored rf \<longleftrightarrow>
     raftstate (persister rf) = [] \<and> currentTerm rf = 0 \<and> votedFor rf = 0 \<and> votedTerm rf = 0 \<and>
       lastIncludedTerm rf = 0 \<and> lastIncludedIndex rf = 0 \<and> largestIndexMathWithLeader rf = 0 \<and>
       rlog rf = [\<lparr>e_Term = 0, e_Command = INil\<rparr>] \<or>
     (\<exists>l. raftstate (persister rf) = raft_bytes (rf\<lparr>rlog := l\<rparr>) \<and> length l = length (rlog rf))"

definition raft_ok :: "Raft \<Rightarrow> bool" where
  "raft_ok rf \<longleftrightarrow> rlog rf \<noteq> [] \<and> length (rlog rf) \<le> logcap rf \<and>
     0 \<le> votedTerm rf \<and> votedTerm rf \<le> currentTerm rf \<and> 0 \<le> lastIncludedIndex rf \<and>
     status rf \<in> {''leader'', ''follower'', ''candidate''} \<and>
     (status rf = ''leader'' \<longrightarrow> length (nextIndex rf) = peers rf \<and> length (matchIndex rf) = peers rf) \<and>
     stored rf"

definition votes_ok :: "node \<Rightarrow> bool" where
  "votes_ok = (\<lambda>(rf, V). (\<forall>(t, c) \<in> V. t \<le> votedTerm rf \<and> (t = votedTerm rf \<longrightarrow> c = votedFor rf)) \<and>
     (\<forall>t c c'. (t, c) \<in> V \<longrightarrow> (t, c') \<in> V \<longrightarrow> c = c'))"

text \<open>How the persistent fields may change.\<close>

definition advances :: "Raft \<Rightarrow> Raft \<Rightarrow> bool" where
  "advances rf rf' \<longleftrightarrow> currentTerm rf \<le> currentTerm rf' \<and> lastIncludedIndex rf \<le> lastIncludedIndex rf' \<and>
     me rf' = me rf \<and> peers rf' = peers rf \<and>
     (votedTerm rf' = votedTerm rf \<and> votedFor rf' = votedFor rf \<or> votedTerm rf < votedTerm rf')"

named_theorems raft_defs

declare raft_ok_def [raft_defs] advances_def [raft_defs] stored_def [raft_defs] raft_bytes_def [raft_defs]
  persist_def [raft_defs] SaveRaftState_def [raft_defs] clone_bytes_def [raft_defs] Let_def [raft_defs]

lemma persist_sel [simp]:
  "currentTerm (persist rf) = currentTerm rf" "votedFor (persist rf) = votedFor rf"
  "votedTerm (persist rf) = votedTerm rf" "rlog (persist rf) = rlog rf" "logcap (persist rf) = logcap rf"
  "lastIncludedTerm (persist rf) = lastIncludedTerm rf" "lastIncludedIndex (persist rf) = lastIncludedIndex rf"
  "status (persist rf) = status rf" "nextIndex (persist rf) = nextIndex rf" "matchIndex (persist rf) = matchIndex rf"
  "peers (persist rf) = peers rf" "me (persist rf) = me rf" "commitIndex (persist rf) = commitIndex rf"
  "lastApplied (persist rf) = lastApplied rf" "largestIndexMathWithLeader (persist rf) = largestIndexMathWithLeader rf"
  "raftstate (persister (persist rf)) = raft_bytes rf"
  by (simp_all add: raft_defs)

lemma stored_persist [intro, simp]: "stored (persist rf)"
  unfolding stored_def by (rule disjI2, rule exI [of _ "rlog rf"]) (simp add: raft_bytes_def)

text \<open>Changes to fields that are not persisted.\<close>

lemma stored_update [simp]:
  "stored (rf\<lparr>status := st\<rparr>) = stored rf" "stored (rf\<lparr>lastTime := x\<rparr>) = stored rf"
  "stored (rf\<lparr>electionTime := x\<rparr>) = stored rf" "stored (rf\<lparr>commitIndex := x\<rparr>) = stored rf"
  "stored (rf\<lparr>lastApplied := x\<rparr>) = stored rf" "stored (rf\<lparr>nextIndex := xs\<rparr>) = stored rf"
  "stored (rf\<lparr>matchIndex := xs\<rparr>) = stored rf" "stored (rf\<lparr>leaderId := x\<rparr>) = stored rf"
  "stored (rf\<lparr>dead := x\<rparr>) = stored rf" "stored (rf\<lparr>logcap := n\<rparr>) = stored rf"
  by (simp_all add: stored_def raft_bytes_def)

subsection \<open>The handlers keep the invariant\<close>

lemma readPersist_bytes:
  "readPersist alloc (raft_bytes rf0) rf = Some (rf\<lparr>currentTerm := currentTerm rf0, votedFor := votedFor rf0,
     votedTerm := votedTerm rf0, rlog := rlog rf0, logcap := max (length (rlog rf0)) (alloc (length (rlog rf0))),
     lastIncludedTerm := lastIncludedTerm rf0, lastIncludedIndex := lastIncludedIndex rf0\<rparr>)"
  by (simp add: readPersist_def raft_bytes_def)

lemma Make_ok:
  assumes "stored rf" and "raft_ok rf"
  shows "\<exists>rf'. Make alloc now r (peers rf) (me rf) (persister rf) = Some rf' \<and> raft_ok rf' \<and>
    currentTerm rf' = currentTerm rf \<and> votedFor rf' = votedFor rf \<and> votedTerm rf' = votedTerm rf \<and>
    lastIncludedTerm rf' = lastIncludedTerm rf \<and> lastIncludedIndex rf' = lastIncludedIndex rf \<and>
    status rf' = ''follower'' \<and> persister rf' = persister rf \<and> me rf' = me rf \<and> peers rf' = peers rf"
proof (cases "raftstate (persister rf) = []")
  case True
  with assms(1) show ?thesis
    by (auto simp: Make_def readPersist_def ReadRaftState_def raft_defs)
next
  case False
  with assms(1) obtain l where l: "raftstate (persister rf) = raft_bytes (rf\<lparr>rlog := l\<rparr>)" "length l = length (rlog rf)"
    by (auto simp: stored_def)
  from l(2) assms(2) have "l \<noteq> []" by (auto simp: raft_ok_def)
  with l assms(2) show ?thesis
    by (auto simp: Make_def ReadRaftState_def clone_bytes_def readPersist_bytes raft_ok_def stored_def
        intro: exI [of _ l]) (auto simp: raft_bytes_def)
qed

lemma isAdvance_total: "rlog rf \<noteq> [] \<Longrightarrow> \<exists>b. isAdvanceThanCandidate t i rf = Some b"
  by (simp add: isAdvanceThanCandidate_def Let_def slice_get_def)

lemma RequestVote_ok:
  assumes "raft_ok rf"
  shows "\<exists>rf' reply. RequestVote now args rf = Some (rf', reply) \<and> raft_ok rf' \<and> advances rf rf' \<and>
    (rvr_VoteGranted reply \<longrightarrow> votedTerm rf < rv_Term args \<and> votedTerm rf' = rv_Term args \<and>
       votedFor rf' = rv_CandidateId args \<and> currentTerm rf' = rv_Term args) \<and>
    (\<not> rvr_VoteGranted reply \<longrightarrow> votedTerm rf' = votedTerm rf \<and> votedFor rf' = votedFor rf)"
proof -
  obtain b where b: "isAdvanceThanCandidate (rv_LastLogTerm args) (rv_LastLogIndex args) rf = Some b"
    using isAdvance_total [of rf] assms unfolding raft_ok_def by metis
  consider "rv_Term args = currentTerm rf" | "rv_Term args > currentTerm rf" | "rv_Term args < currentTerm rf"
    by linarith
  then show ?thesis
    by cases (use assms b in \<open>auto simp: RequestVote_def Let_def raft_ok_def advances_def\<close>)
qed

lemma ticker_start_ok:
  assumes "raft_ok rf"
  shows "\<exists>rf' el. ticker_start now r rf = Some (rf', el) \<and> raft_ok rf' \<and> advances rf rf' \<and>
    (el = None \<longrightarrow> rf' = rf) \<and>
    (el \<noteq> None \<longrightarrow> votedTerm rf < votedTerm rf' \<and> votedTerm rf' = currentTerm rf' \<and> votedFor rf' = me rf')"
  using assms
  by (cases "status rf = ''candidate''")
    (auto simp: ticker_start_def Let_def raft_ok_def advances_def slice_get_def)

text \<open>Steps that give no vote.\<close>

definition quiet :: "Raft \<Rightarrow> Raft \<Rightarrow> bool" where
  "quiet rf rf' \<longleftrightarrow> raft_ok rf' \<and> advances rf rf' \<and> votedTerm rf' = votedTerm rf \<and> votedFor rf' = votedFor rf"

lemma quiet_refl [simp]: "raft_ok rf \<Longrightarrow> quiet rf rf"
  by (simp add: quiet_def advances_def)

lemmas quiet_simps = quiet_def raft_ok_def advances_def

lemma quiet_trans: "quiet a b \<Longrightarrow> quiet b c \<Longrightarrow> quiet a c"
  by (auto simp: quiet_def advances_def)

lemma quiet_term:
  assumes "raft_ok rf" and "currentTerm rf < t"
  shows "quiet rf (persist (rf\<lparr>currentTerm := t\<rparr>))"
  using assms by (auto simp: quiet_simps)

lemma quiet_follower:
  assumes "quiet rf rf'"
  shows "quiet rf (rf'\<lparr>status := ''follower''\<rparr>)"
  using assms by (auto simp: quiet_simps)

lemma quiet_update:
  assumes "quiet rf rf'"
  shows "quiet rf (rf'\<lparr>lastTime := x\<rparr>)" "quiet rf (rf'\<lparr>leaderId := x\<rparr>)" "quiet rf (rf'\<lparr>commitIndex := x\<rparr>)"
    "quiet rf (rf'\<lparr>lastApplied := x\<rparr>)" "quiet rf (rf'\<lparr>dead := x\<rparr>)"
    "length xs = length (nextIndex rf') \<Longrightarrow> quiet rf (rf'\<lparr>nextIndex := xs\<rparr>)"
    "length xs = length (matchIndex rf') \<Longrightarrow> quiet rf (rf'\<lparr>matchIndex := xs\<rparr>)"
  using assms by (auto simp: quiet_simps)

lemmas quiet_intros = quiet_term quiet_follower quiet_update

lemma vote_reply_quiet:
  "raft_ok rf \<Longrightarrow> vote_reply reply (rf, el) = ((rf', el'), b) \<Longrightarrow> quiet rf rf'"
  by (auto simp: vote_reply_def split: if_splits intro!: quiet_intros)

lemma ticker_end_quiet: "raft_ok rf \<Longrightarrow> ticker_end rf el = (rf', gos) \<Longrightarrow> quiet rf rf'"
  by (auto simp: ticker_end_def becomeLeaderInit_def quiet_simps split: if_splits)

lemma checkState_quiet: "raft_ok rf \<Longrightarrow> checkState_round now rf = (rf', gos) \<Longrightarrow> quiet rf rf'"
  by (auto simp: checkState_round_def quiet_simps split: if_splits)

lemma InstallSnapshot_quiet: "raft_ok rf \<Longrightarrow> InstallSnapshot now args rf = (rf', t, gos) \<Longrightarrow> quiet rf rf'"
  by (auto simp: InstallSnapshot_def Let_def split: if_splits intro!: quiet_intros)

lemma CondInstallSnapshot_quiet:
  "raft_ok rf \<Longrightarrow> CondInstallSnapshot lit lii snap rf = Some (rf', b) \<Longrightarrow> quiet rf rf'"
  by (auto simp: CondInstallSnapshot_def quiet_simps option_bind_simps split: if_splits)

lemma Snapshot_quiet: "raft_ok rf \<Longrightarrow> Snapshot alloc index rf = Some rf' \<Longrightarrow> quiet rf rf'"
  by (auto simp: Snapshot_def quiet_simps option_bind_simps go_simps d_serialEntries_def serialEntries_def
      getRelativeIndex_def split: if_splits)

lemma append_log_props:
  assumes "append_log alloc k es rf = (newLog, newCap, oldLog)"
  shows "newLog = take k (rlog rf) @ es" "length newLog \<le> newCap" "length oldLog = length (rlog rf)"
  using assms by (auto simp: append_log_def Let_def split: if_splits)

lemma append_log_conj:
  "append_log alloc k es rf = (newLog, newCap, oldLog) \<Longrightarrow> newLog = take k (rlog rf) @ es \<and> length newLog \<le> newCap"
  using append_log_props(1,2) by blast

lemma Start_quiet: "raft_ok rf \<Longrightarrow> Start alloc command rf = (rf', res, gos) \<Longrightarrow> quiet rf rf'"
  by (auto simp: Start_def Let_def quiet_simps split: if_splits prod.splits dest!: append_log_conj)

text \<open>The part of \<^verbatim>\<open>AppendEntries\<close> that changes the log.\<close>

lemma append_log_quiet:
  assumes ok: "raft_ok rf" and "append_log alloc k es rf = (newLog, newCap, oldLog)" and "0 < k" and "es \<noteq> []"
  shows "quiet rf (persist (rf\<lparr>rlog := newLog, logcap := newCap, largestIndexMathWithLeader := x\<rparr>))"
    and "\<not> largestIndexMathWithLeader rf < getAbsoluteIndex (int (length newLog) - 1) rf \<Longrightarrow>
      quiet rf (rf\<lparr>rlog := oldLog\<rparr>)"
proof -
  note a = append_log_props [OF assms(2)]
  have ne: "rlog rf \<noteq> []" using ok by (simp add: raft_ok_def)
  have "2 \<le> length newLog" using a(1) assms(3,4) ne
    by (cases k; cases "rlog rf"; cases es) auto
  then show "quiet rf (persist (rf\<lparr>rlog := newLog, logcap := newCap, largestIndexMathWithLeader := x\<rparr>))"
    using ok a(2) by (auto simp: quiet_simps)
  assume "\<not> largestIndexMathWithLeader rf < getAbsoluteIndex (int (length newLog) - 1) rf"
  with \<open>2 \<le> length newLog\<close> have "\<not> (largestIndexMathWithLeader rf = 0 \<and> lastIncludedIndex rf = 0)"
    by (auto simp: getAbsoluteIndex_def)
  with ok a(3) have "stored (rf\<lparr>rlog := oldLog\<rparr>)"
    by (auto simp: raft_ok_def stored_def raft_bytes_def)
  with ok a(3) ne show "quiet rf (rf\<lparr>rlog := oldLog\<rparr>)"
    by (auto simp: quiet_simps)
qed

lemma store_entries_quiet:
  assumes ok: "raft_ok rf" and step: "store_entries alloc prev es rf = Some rf'"
  shows "quiet rf rf'"
proof (cases "es \<noteq> [] \<and> getRelativeIndex (prev + 1) rf > 0")
  case True
  with step obtain p where p: "slice_to (rlog rf) (getRelativeIndex (prev + 1) rf) = Some p"
    by (auto simp: store_entries_def option_bind_simps)
  obtain newLog newCap oldLog where a: "append_log alloc (length p) es rf = (newLog, newCap, oldLog)"
    by (cases "append_log alloc (length p) es rf") auto
  have "0 < length p" using True p ok by (auto simp: go_simps raft_ok_def)
  note q = append_log_quiet [OF ok a this]
  from step True p a q show ?thesis
    by (auto simp: store_entries_def split: if_splits)
next
  case False
  with step ok show ?thesis by (auto simp: store_entries_def)
qed

lemma AppendEntries_quiet:
  assumes ok: "raft_ok rf" and step: "AppendEntries alloc now args rf = Some (rf', reply, gos)"
  shows "quiet rf rf'"
proof (cases "currentTerm rf > ae_Term args")
  case True
  with step ok show ?thesis by (simp add: AppendEntries_def)
next
  case False
  define rf1 where "rf1 = (if currentTerm rf < ae_Term args then persist (rf\<lparr>currentTerm := ae_Term args\<rparr>) else rf)"
  define rf2 where "rf2 = rf1\<lparr>lastTime := now, status := ''follower''\<rparr>"
  have "quiet rf rf1" using ok by (simp add: rf1_def quiet_term)
  then have q: "quiet rf rf2" unfolding rf2_def by (intro quiet_intros)
  then have "raft_ok rf2" by (simp add: quiet_def)
  moreover have "rf' = rf2 \<or> (\<exists>es. store_entries alloc (ae_PrevLogIndex args) es rf2 = Some rf')"
    using step False unfolding AppendEntries_def Let_def rf1_def [symmetric] rf2_def [symmetric]
    by (auto simp: option_bind_simps split: if_splits)
  ultimately show ?thesis using q store_entries_quiet quiet_trans by blast
qed

lemma applyNewCommand_quiet:
  "raft_ok rf \<Longrightarrow> applyNewCommand newIndex rf = Some (rf', ms) \<Longrightarrow> quiet rf rf'"
  by (auto simp: applyNewCommand_def Let_def option_bind_simps intro!: quiet_intros)

lemma leaderApply_quiet: "raft_ok rf \<Longrightarrow> leaderApply rf = Some (rf', ms) \<Longrightarrow> quiet rf rf'"
  by (auto simp: leaderApply_def option_bind_simps split: if_splits option.splits intro!: quiet_intros)

lemma append_refused_quiet: "raft_ok rf \<Longrightarrow> append_refused now server reply rf = Some rf' \<Longrightarrow> quiet rf rf'"
  by (auto simp: append_refused_def option_bind_simps go_simps split: if_splits intro!: quiet_intros)

lemma heartbeat_reply_quiet:
  "raft_ok rf \<Longrightarrow> sendHeartBeatToOne_reply now server reply rf = Some (rf', gos) \<Longrightarrow> quiet rf rf'"
  by (auto simp: sendHeartBeatToOne_reply_def option_bind_simps split: if_splits intro: append_refused_quiet)

lemma snapshot_reply_quiet:
  "raft_ok rf \<Longrightarrow> sendInstallSnapshotToOne_reply server t rf = Some rf' \<Longrightarrow> quiet rf rf'"
  by (auto simp: sendInstallSnapshotToOne_reply_def option_bind_simps go_simps split: if_splits intro!: quiet_intros)

lemma replicate_reply_quiet:
  assumes "raft_ok rf" and "replicatedEntriesToOne_reply now server i reply rf = Some (rf', ms)"
  shows "quiet rf rf'"
proof (cases "status rf \<noteq> ''leader'' \<or> \<not> aer_Success reply")
  case True
  with assms show ?thesis
    by (auto simp: replicatedEntriesToOne_reply_def option_bind_simps intro: append_refused_quiet split: if_splits)
next
  case False
  let ?rf = "rf\<lparr>nextIndex := (nextIndex rf)[nat server := getAbsoluteIndex (int (length (rlog rf))) rf],
    matchIndex := (matchIndex rf)[nat server := i]\<rparr>"
  from assms False have la: "leaderApply ?rf = Some (rf', ms)"
    by (auto simp: replicatedEntriesToOne_reply_def option_bind_simps go_simps)
  have q: "quiet rf ?rf" using assms(1) by (auto intro!: quiet_intros)
  then have "raft_ok ?rf" by (simp add: quiet_def)
  from leaderApply_quiet [OF this la] q show ?thesis by (blast intro: quiet_trans)
qed

lemmas quiet_steps = vote_reply_quiet ticker_end_quiet checkState_quiet AppendEntries_quiet InstallSnapshot_quiet
  CondInstallSnapshot_quiet Snapshot_quiet Start_quiet applyNewCommand_quiet heartbeat_reply_quiet
  snapshot_reply_quiet replicate_reply_quiet

lemma passive_step_quiet: "passive_step rf rf' \<Longrightarrow> raft_ok rf \<Longrightarrow> quiet rf rf'"
proof (induction rule: passive_step.induct)
  case (kill rf)
  then show ?case by (simp add: Kill_def quiet_update)
qed (rule quiet_steps; assumption)+

lemma section_step_quiet: "section_step rf rf' \<Longrightarrow> raft_ok rf \<Longrightarrow> quiet rf rf'"
  by (induction rule: section_step.induct) (rule quiet_steps passive_step_quiet; assumption)+

subsection \<open>Reachable states\<close>

lemma votes_quiet: "votes_ok (rf, V) \<Longrightarrow> quiet rf rf' \<Longrightarrow> votes_ok (rf', V)"
  by (simp add: votes_ok_def quiet_def)

lemma votes_new:
  assumes "votes_ok (rf, V)" and "votedTerm rf < t" and "votedTerm rf' = t" and "votedFor rf' = c"
  shows "votes_ok (rf', insert (t, c) V)"
proof -
  have "u < t" if "(u, d) \<in> V" for u d using assms(1,2) that by (auto simp: votes_ok_def)
  with assms show ?thesis by (auto simp: votes_ok_def)
qed

lemma node_step_ok:
  assumes "node_step s t" and "raft_ok (fst s)" and "votes_ok s"
  shows "raft_ok (fst t) \<and> votes_ok t \<and> advances (fst s) (fst t) \<and> snd s \<subseteq> snd t"
  using assms
proof cases
  case (restart alloc now r rf rf' V)
  with Make_ok [of rf alloc now r] assms(2,3) show ?thesis
    by (auto simp: raft_ok_def advances_def votes_ok_def)
next
  case (request_vote now args rf rf' reply V)
  with assms(2) RequestVote_ok [of rf now args] have r: "raft_ok rf'" "advances rf rf'"
    "rvr_VoteGranted reply \<Longrightarrow> votedTerm rf < rv_Term args \<and> votedTerm rf' = rv_Term args \<and> votedFor rf' = rv_CandidateId args"
    "\<not> rvr_VoteGranted reply \<Longrightarrow> votedTerm rf' = votedTerm rf \<and> votedFor rf' = votedFor rf"
    by auto
  have "votes_ok t"
    using r(3,4) votes_new [of rf V _ rf'] votes_quiet [of rf V rf'] assms(3) r(1,2) request_vote(1,2)
    by (cases "rvr_VoteGranted reply") (auto simp: quiet_def)
  with r request_vote show ?thesis by auto
next
  case (election now r rf rf' el V)
  with assms(2) ticker_start_ok [of rf now r] have r: "raft_ok rf'" "advances rf rf'" "el = None \<Longrightarrow> rf' = rf"
    "el \<noteq> None \<Longrightarrow> votedTerm rf < votedTerm rf' \<and> votedTerm rf' = currentTerm rf' \<and> votedFor rf' = me rf'"
    by auto
  have "votes_ok t"
    using r(3,4) votes_new [of rf V _ rf'] assms(3) election(1,2) by (cases "el = None") auto
  with r election show ?thesis by auto
next
  case (other rf rf' V)
  with assms(2) section_step_quiet have "quiet rf rf'" by simp
  with other assms(3) show ?thesis by (auto simp: quiet_def intro: votes_quiet)
qed

lemma boot_ok:
  assumes "Make alloc now r n self MakePersister = Some rf"
  shows "raft_ok rf \<and> votes_ok (rf, {})"
  using assms
  by (auto simp: Make_def readPersist_def ReadRaftState_def MakePersister_def votes_ok_def raft_defs)

lemma node_reach_ok: "node_reach s \<Longrightarrow> raft_ok (fst s) \<and> votes_ok s"
proof (induction rule: node_reach.induct)
  case (boot alloc now r n self rf)
  then show ?case using boot_ok by auto
next
  case (step s t)
  then show ?case using node_step_ok by blast
qed

subsection \<open>Properties\<close>

text \<open>C6: A Raft peer never gives two different candidates its vote in the same term, whatever
  requests it receives, in whatever order, and however often it crashes and restarts from its
  persister: the vote and its term are on stable storage before the vote is answered.\<close>

theorem one_vote_per_term:
  assumes "node_reach (rf, V)" and "(t, c) \<in> V" and "(t, c') \<in> V"
  shows "c = c'"
  using node_reach_ok [OF assms(1)] assms(2,3) by (auto simp: votes_ok_def)

text \<open>Election safety of the votes: of a group of peers, two candidates cannot both collect
  votes of a majority in the same term.\<close>

lemma vote_quorum_unique:
  assumes "\<And>i. i < n \<Longrightarrow> node_reach (peer i)"
    and "n div 2 + 1 \<le> card {i. i < n \<and> (t, c) \<in> snd (peer i)}"
    and "n div 2 + 1 \<le> card {i. i < n \<and> (t, c') \<in> snd (peer i)}"
  shows "c = c'"
proof -
  let ?Q = "{i. i < n \<and> (t, c) \<in> snd (peer i)}"
  let ?R = "{i. i < n \<and> (t, c') \<in> snd (peer i)}"
  have "card (?Q \<union> ?R) \<le> card {..<n}" by (rule card_mono) auto
  then have "card (?Q \<union> ?R) < card ?Q + card ?R" using assms(2,3) by simp
  then have "?Q \<inter> ?R \<noteq> {}" using card_Un_disjoint [of ?Q ?R] by fastforce
  then obtain i where "i < n" "(t, c) \<in> snd (peer i)" "(t, c') \<in> snd (peer i)" by blast
  with node_reach_ok [OF assms(1)] show ?thesis by (cases "peer i") (fastforce simp: votes_ok_def)
qed

text \<open>C7: A restart loses nothing that Raft needs: at any moment of any run, creating the peer anew
  from its persister succeeds and gives a follower with the same term, vote and snapshot position
  as before the crash, and a log of the same length, even if the crash comes at the worst time.\<close>

theorem restart_restores:
  assumes "node_reach (rf, V)"
  shows "\<exists>rf'. Make alloc now r (peers rf) (me rf) (persister rf) = Some rf' \<and> status rf' = ''follower'' \<and>
    currentTerm rf' = currentTerm rf \<and> votedFor rf' = votedFor rf \<and> votedTerm rf' = votedTerm rf \<and>
    lastIncludedTerm rf' = lastIncludedTerm rf \<and> lastIncludedIndex rf' = lastIncludedIndex rf \<and>
    length (rlog rf') = length (rlog rf)"
proof -
  have ok: "raft_ok rf" using node_reach_ok [OF assms] by simp
  then have "stored rf" by (simp add: raft_ok_def)
  with Make_ok [OF this ok, of alloc now r] show ?thesis
    by (auto simp: stored_def Make_def readPersist_bytes ReadRaftState_def clone_bytes_def)
      (auto simp: readPersist_def raft_bytes_def)
qed


text \<open>\<^verbatim>\<open>RequestVote\<close> never panics and grants the vote exactly when the request's term is newer than
  the peer's, or equal with no vote given in it, and the candidate's log is at least as up to date
  (compared by the term, then the index, of the last entry); it answers with the peer's old term, and the
  peer's term becomes the larger of the two.\<close>

lemma RequestVote_grants:
  assumes "node_reach (rf, V)"
  shows "\<exists>rf' reply. RequestVote now args rf = Some (rf', reply) \<and> rvr_Term reply = currentTerm rf \<and>
    currentTerm rf' = max (currentTerm rf) (rv_Term args) \<and>
    (rvr_VoteGranted reply \<longleftrightarrow>
       (currentTerm rf < rv_Term args \<or> currentTerm rf = rv_Term args \<and> votedTerm rf < rv_Term args) \<and>
       (e_Term (last (rlog rf)) < rv_LastLogTerm args \<or>
        e_Term (last (rlog rf)) = rv_LastLogTerm args \<and>
          int (length (rlog rf)) - 1 + lastIncludedIndex rf \<le> rv_LastLogIndex args))"
proof -
  have ok: "raft_ok rf" using node_reach_ok [OF assms] by simp
  then have ne: "rlog rf \<noteq> []" by (simp add: raft_ok_def)
  then have adv: "isAdvanceThanCandidate t i rf = Some (\<not> (e_Term (last (rlog rf)) < t \<or>
      e_Term (last (rlog rf)) = t \<and> int (length (rlog rf)) - 1 + lastIncludedIndex rf \<le> i))" for t i
    by (auto simp: isAdvanceThanCandidate_def Let_def slice_get_def last_conv_nth getAbsoluteIndex_def
        nat_diff_distrib' not_less)
  consider "rv_Term args = currentTerm rf" | "rv_Term args > currentTerm rf" | "rv_Term args < currentTerm rf"
    by linarith
  then show ?thesis
    by cases (use ok in \<open>auto simp: RequestVote_def Let_def adv\<close>)
qed

subsection \<open>Witnesses\<close>

text \<open>Peer 0 of a cluster of three after its start, and after voting for peer 2 in term 1.\<close>

definition fresh_raft :: Raft where
  "fresh_raft = \<lparr>peers = 3, persister = MakePersister, me = 0, dead = 0, status = ''follower'', currentTerm = 0,
     votedFor = 0, votedTerm = 0, rlog = [\<lparr>e_Term = 0, e_Command = INil\<rparr>], logcap = 1,
     lastIncludedTerm = 0, lastIncludedIndex = 0, lastTime = 0, electionTime = 400 * 1000000, commitIndex = 0,
     lastApplied = 0, largestIndexMathWithLeader = 0, nextIndex = [], matchIndex = [], leaderId = 0\<rparr>"

definition voted_raft :: Raft where
  "voted_raft = persist (fresh_raft\<lparr>currentTerm := 1, votedFor := 2, votedTerm := 1, leaderId := 2\<rparr>)"

lemma fresh_raft_reach: "node_reach (fresh_raft, {})"
proof (rule node_reach.boot)
  show "Make (\<lambda>n. n) 0 0 3 0 MakePersister = Some fresh_raft"
    by (simp add: Make_def readPersist_def ReadRaftState_def MakePersister_def clone_bytes_def
        getRandomizedElecionTime_def fresh_raft_def)
qed

lemma voted_raft_reach: "node_reach (voted_raft, {(1, 2)})"
proof -
  have "RequestVote 0 \<lparr>rv_Term = 1, rv_CandidateId = 2, rv_LastLogIndex = 0, rv_LastLogTerm = 0\<rparr> fresh_raft
      = Some (voted_raft, \<lparr>rvr_Term = 0, rvr_VoteGranted = True\<rparr>)"
    by (simp add: RequestVote_def isAdvanceThanCandidate_def getAbsoluteIndex_def Let_def slice_get_def
        voted_raft_def fresh_raft_def persist_def raft_bytes_def)
  from node_reach.step [OF fresh_raft_reach node_step.request_vote [OF this]] show ?thesis by simp
qed

theorem one_vote_per_term_witness:
  "\<exists>V. node_reach (voted_raft, V) \<and> {c. (1, c) \<in> V} = {2}"
proof (intro exI conjI)
  show "node_reach (voted_raft, {(1, 2)})" by (rule voted_raft_reach)
  show "{c. (1, c) \<in> {(1 :: int, 2 :: int)}} = {2}"
    using one_vote_per_term [OF voted_raft_reach, of 1 _ 2] by auto
qed

theorem restart_restores_witness:
  "\<exists>rf'. Make (\<lambda>n. n) 7 0 3 0 (persister voted_raft) = Some rf' \<and> votedFor rf' = 2 \<and> votedTerm rf' = 1 \<and>
     currentTerm rf' = 1 \<and> length (rlog rf') = 1"
  using restart_restores [OF voted_raft_reach, of "\<lambda>n. n" 7 0]
  by (auto simp: voted_raft_def fresh_raft_def persist_def)


end
