(* ===== verification/Raft_Election.thy ===== *)
theory Raft_Election
  imports Raft_Node
begin

text \<open>
  Elections in a cluster.  The peers run the sections of \<^verbatim>\<open>ticker\<close>, \<^verbatim>\<open>checkState\<close> and
  \<^verbatim>\<open>RequestVote\<close>, exchange vote requests over a network that delays, reorders and loses
  them, take every other section of their code at any time, and crash and restart.  Each vote
  request goroutine is identified by its candidate, the term of its election and the peer asked.
  \<open>tokens\<close> counts the goroutines that wait to send on \<^verbatim>\<open>startElection\<close>; the timer that every election
  starts may fire at any time (\<open>ATimer\<close>).
  \<open>won\<close> records every \<^verbatim>\<open>becomeLeaderInit\<close>: the term in which the peer is leader from then on,
  the peer, and the term of the election in which it collected the votes.
\<close>

subsection \<open>Cluster\<close>

datatype vote_rpc = NoRpc | Todo RequestVoteArgs | InNet RequestVoteArgs | Orphan RequestVoteArgs
  | Replied RequestVoteReply | Finishing bool | Counted | Over

record cluster =
  nodes :: "node list"
  elections :: "Election option list"
  tokens :: "nat list"
  rpc :: "nat \<Rightarrow> int \<Rightarrow> nat \<Rightarrow> vote_rpc"
  won :: "(int \<times> nat \<times> int) set"

datatype cl_action =
    ACheckState nat int
  | AElect nat int int
  | ASend nat int nat
  | ADeliver nat int nat int
  | ALose nat int nat
  | AReply nat int nat
  | AFinish nat int nat
  | AWake nat int
  | ATimer nat
  | ARestart nat int int

definition set_rpc :: "nat \<Rightarrow> int \<Rightarrow> nat \<Rightarrow> vote_rpc \<Rightarrow> cluster \<Rightarrow> cluster" where
  "set_rpc i t j m s = s\<lparr>rpc := (rpc s)(i := (rpc s i)(t := (rpc s i t)(j := m)))\<rparr>"

definition set_node :: "nat \<Rightarrow> node \<Rightarrow> cluster \<Rightarrow> cluster" where
  "set_node i x s = s\<lparr>nodes := (nodes s)[i := x]\<rparr>"

text \<open>The variables of the election of term \<open>t\<close> of peer \<open>i\<close>, if it is still the current one.\<close>

definition current_election :: "nat \<Rightarrow> int \<Rightarrow> cluster \<Rightarrow> Election option" where
  "current_election i t s = (case elections s ! i of
     Some el \<Rightarrow> if rv_Term (el_args el) = t then Some el else None | None \<Rightarrow> None)"

definition update_election :: "nat \<Rightarrow> int \<Rightarrow> (Election \<Rightarrow> Election) \<Rightarrow> cluster \<Rightarrow> cluster" where
  "update_election i t f s = (case current_election i t s of
     Some el \<Rightarrow> s\<lparr>elections := (elections s)[i := Some (f el)]\<rparr> | None \<Rightarrow> s)"

definition grant :: "RequestVoteArgs \<Rightarrow> RequestVoteReply \<Rightarrow> (int \<times> int) set \<Rightarrow> (int \<times> int) set" where
  "grant args reply V = (if rvr_VoteGranted reply then insert (rv_Term args, rv_CandidateId args) V else V)"

definition old_election :: Election where
  "old_election = \<lparr>el_args = \<lparr>rv_Term = 0, rv_CandidateId = 0, rv_LastLogIndex = 0, rv_LastLogTerm = 0\<rparr>,
     el_majority = 0, el_count = 0, el_finished = 0\<rparr>"

fun drop_rpc :: "vote_rpc \<Rightarrow> vote_rpc" where
  "drop_rpc (InNet args) = Orphan args"
| "drop_rpc (Orphan args) = Orphan args"
| "drop_rpc m = Over"

fun cl_do :: "cl_action \<Rightarrow> cluster \<Rightarrow> cluster option" where
  "cl_do (ACheckState i now) s =
     (if i < length (nodes s) then
        let (rf, V) = nodes s ! i; (rf', gos) = checkState_round now rf
        in Some ((set_node i (rf', V) s)\<lparr>tokens := (tokens s)[i := tokens s ! i + length gos]\<rparr>)
      else None)"
| "cl_do (AElect i now r) s =
     (if i < length (nodes s) \<and> elections s ! i = None \<and> tokens s ! i > 0 then do {
        let (rf, V) = nodes s ! i;
        let s1 = s\<lparr>tokens := (tokens s)[i := tokens s ! i - 1]\<rparr>;
        (rf', res) \<leftarrow> ticker_start now r rf;
        (case res of
           None \<Rightarrow> Some (set_node i (rf', V) s1)
         | Some el \<Rightarrow>
             let t = currentTerm rf' in
             Some ((set_node i (rf', insert (t, me rf') V) s1)
               \<lparr>elections := (elections s)[i := Some el],
                rpc := (rpc s)(i := (rpc s i)(t := (\<lambda>j. if j \<noteq> i \<and> j < length (nodes s) then Todo (el_args el) else NoRpc)))\<rparr>))
      } else None)"
| "cl_do (ASend i t j) s =
     (case rpc s i t j of
        Todo args \<Rightarrow> Some (set_rpc i t j (if status (fst (nodes s ! i)) = ''candidate'' then InNet args else Over) s)
      | _ \<Rightarrow> None)"
| "cl_do (ADeliver i t j now) s =
     (let (rf, V) = nodes s ! j in
      case rpc s i t j of
        InNet args \<Rightarrow> do {
          (rf', reply) \<leftarrow> RequestVote now args rf;
          Some (set_rpc i t j (Replied reply) (set_node j (rf', grant args reply V) s))
        }
      | Orphan args \<Rightarrow> do {
          (rf', reply) \<leftarrow> RequestVote now args rf;
          Some (set_rpc i t j Over (set_node j (rf', grant args reply V) s))
        }
      | _ \<Rightarrow> None)"
| "cl_do (ALose i t j) s =
     (case rpc s i t j of
        InNet args \<Rightarrow> Some (set_rpc i t j (Finishing False) s)
      | Replied reply \<Rightarrow> Some (set_rpc i t j (Finishing False) s)
      | _ \<Rightarrow> None)"
| "cl_do (AReply i t j) s =
     (case rpc s i t j of
        Replied reply \<Rightarrow>
          let (rf, V) = nodes s ! i;
              el = (case current_election i t s of Some el \<Rightarrow> el | None \<Rightarrow> old_election);
              ((rf', el'), goes_on) = vote_reply reply (rf, el);
              m = (if goes_on then Finishing (rvr_VoteGranted reply) else Over)
          in Some (set_rpc i t j m (update_election i t (\<lambda>_. el') (set_node i (rf', V) s)))
      | _ \<Rightarrow> None)"
| "cl_do (AFinish i t j) s =
     (case rpc s i t j of
        Finishing granted \<Rightarrow>
          Some (set_rpc i t j (if granted then Counted else Over) (update_election i t vote_finished s))
      | _ \<Rightarrow> None)"
| "cl_do (AWake i now) s =
     (if i < length (nodes s) then
        (case elections s ! i of
           Some el \<Rightarrow>
             let (rf, V) = nodes s ! i in
             if ticker_waits now rf el then None
             else
               let (rf', gos) = ticker_end rf el
               in Some ((set_node i (rf', V) s)\<lparr>elections := (elections s)[i := None],
                    won := (if gos \<noteq> [] then insert (currentTerm rf', i, rv_Term (el_args el)) (won s) else won s)\<rparr>)
         | None \<Rightarrow> None)
      else None)"
| "cl_do (ATimer i) s =
     (if i < length (nodes s) then
        Some (s\<lparr>tokens := (tokens s)[i := tokens s ! i + (if atomicReadStatus (fst (nodes s ! i)) = ''candidate'' then 1 else 0)]\<rparr>)
      else None)"
| "cl_do (ARestart i now r) s =
     (if i < length (nodes s) then
        let (rf, V) = nodes s ! i in do {
          rf' \<leftarrow> Make (\<lambda>n. n) now r (peers rf) (me rf) (persister rf);
          Some ((set_node i (rf', V) s)\<lparr>elections := (elections s)[i := None], tokens := (tokens s)[i := 0],
            rpc := (rpc s)(i := (\<lambda>t j. drop_rpc (rpc s i t j)))\<rparr>)
        }
      else None)"

definition boot_cluster :: "nat \<Rightarrow> int \<Rightarrow> cluster" where
  "boot_cluster n r = \<lparr>nodes = map (\<lambda>i. (the (Make (\<lambda>n. n) 0 r n (int i) MakePersister), {})) [0..<n],
     elections = replicate n None, tokens = replicate n 0, rpc = (\<lambda>_ _ _. NoRpc), won = {}\<rparr>"

inductive cl_reach :: "nat \<Rightarrow> cluster \<Rightarrow> bool" for n where
  boot: "cl_reach n (boot_cluster n r)"
| act: "cl_reach n s \<Longrightarrow> cl_do a s = Some t \<Longrightarrow> cl_reach n t"
| local_step: "cl_reach n s \<Longrightarrow> i < n \<Longrightarrow> nodes s ! i = (rf, V) \<Longrightarrow> passive_step rf rf' \<Longrightarrow>
    cl_reach n (set_node i (rf', V) s)"

fun cl_run :: "cl_action list \<Rightarrow> cluster \<Rightarrow> cluster option" where
  "cl_run [] s = Some s"
| "cl_run (a # as) s = do { t \<leftarrow> cl_do a s; cl_run as t }"

lemma cl_run_reach: "cl_run as s = Some t \<Longrightarrow> cl_reach n s \<Longrightarrow> cl_reach n t"
  by (induction as arbitrary: s) (auto simp: option_bind_simps intro: cl_reach.act)

subsection \<open>Invariant\<close>

definition votes_of :: "cluster \<Rightarrow> nat \<Rightarrow> (int \<times> int) set" where
  "votes_of s j = snd (nodes s ! j)"

definition quorum :: "nat \<Rightarrow> cluster \<Rightarrow> int \<Rightarrow> nat \<Rightarrow> bool" where
  "quorum n s t i \<longleftrightarrow> n div 2 + 1 \<le> card {j. j < n \<and> (t, int i) \<in> votes_of s j}"

fun rpc_ok :: "nat \<Rightarrow> nat \<Rightarrow> int \<Rightarrow> nat \<Rightarrow> (int \<times> int) set \<Rightarrow> vote_rpc \<Rightarrow> bool" where
  "rpc_ok n i t j V (Todo a) \<longleftrightarrow> j < n \<and> j \<noteq> i \<and> rv_Term a = t \<and> rv_CandidateId a = int i"
| "rpc_ok n i t j V (InNet a) \<longleftrightarrow> j < n \<and> j \<noteq> i \<and> rv_Term a = t \<and> rv_CandidateId a = int i"
| "rpc_ok n i t j V (Orphan a) \<longleftrightarrow> j < n \<and> j \<noteq> i \<and> rv_Term a = t \<and> rv_CandidateId a = int i"
| "rpc_ok n i t j V (Replied r) \<longleftrightarrow> j < n \<and> j \<noteq> i \<and> (rvr_VoteGranted r \<longrightarrow> (t, int i) \<in> V)"
| "rpc_ok n i t j V (Finishing b) \<longleftrightarrow> j < n \<and> j \<noteq> i \<and> (b \<longrightarrow> (t, int i) \<in> V)"
| "rpc_ok n i t j V Counted \<longleftrightarrow> j < n \<and> j \<noteq> i \<and> (t, int i) \<in> V"
| "rpc_ok n i t j V m \<longleftrightarrow> True"

definition counted :: "vote_rpc \<Rightarrow> bool" where
  "counted m \<longleftrightarrow> m = Finishing True \<or> m = Counted"

definition el_ok :: "nat \<Rightarrow> cluster \<Rightarrow> nat \<Rightarrow> Election \<Rightarrow> bool" where
  "el_ok n s i el \<longleftrightarrow> el_majority el = int (n div 2 + 1) \<and> (rv_Term (el_args el), int i) \<in> votes_of s i \<and>
     el_count el \<le> 1 + int (card {j. counted (rpc s i (rv_Term (el_args el)) j)})"

definition cl_inv :: "nat \<Rightarrow> cluster \<Rightarrow> bool" where
  "cl_inv n s \<longleftrightarrow> length (nodes s) = n \<and> length (elections s) = n \<and> length (tokens s) = n \<and>
     (\<forall>i < n. node_reach (nodes s ! i) \<and> me (fst (nodes s ! i)) = int i \<and> peers (fst (nodes s ! i)) = n) \<and>
     (\<forall>i t j. rpc s i t j \<noteq> NoRpc \<longrightarrow> i < n) \<and>
     (\<forall>i t j. rpc_ok n i t j (votes_of s j) (rpc s i t j)) \<and>
     (\<forall>i < n. \<forall>el. elections s ! i = Some el \<longrightarrow> el_ok n s i el) \<and>
     (\<forall>(t, i, T) \<in> won s. i < n \<and> quorum n s T i)"

lemma cl_inv_rpc_ok: "cl_inv n s \<Longrightarrow> rpc_ok n i t j (votes_of s j) (rpc s i t j)"
  by (simp add: cl_inv_def)

lemma cl_inv_el_ok: "cl_inv n s \<Longrightarrow> i < n \<Longrightarrow> elections s ! i = Some el \<Longrightarrow> el_ok n s i el"
  by (simp add: cl_inv_def)

lemma counted_bounds: "rpc_ok n i t j V m \<Longrightarrow> counted m \<Longrightarrow> j < n \<and> j \<noteq> i \<and> (t, int i) \<in> V"
  by (auto simp: counted_def)

lemma rpc_ok_mono: "rpc_ok n i t j V m \<Longrightarrow> V \<subseteq> V' \<Longrightarrow> rpc_ok n i t j V' m"
  by (cases m) auto

lemma quorum_mono:
  assumes "quorum n s t i" and "\<And>j. votes_of s j \<subseteq> votes_of s' j"
  shows "quorum n s' t i"
proof -
  have "card {j. j < n \<and> (t, int i) \<in> votes_of s j} \<le> card {j. j < n \<and> (t, int i) \<in> votes_of s' j}"
    using assms(2) by (intro card_mono) auto
  then show ?thesis using assms(1) by (simp add: quorum_def)
qed

text \<open>A step of one peer.\<close>

lemma cl_inv_node:
  assumes inv: "cl_inv n s" and i: "i < n" "nodes s ! i = (rf, V)" and step: "node_step (rf, V) (rf', V')"
  shows "cl_inv n (set_node i (rf', V') s)"
proof -
  let ?s = "set_node i (rf', V') s"
  have reach: "node_reach (rf, V)" and id: "me rf = int i" "peers rf = n" and len: "length (nodes s) = n"
    using inv i by (auto simp: cl_inv_def)
  from node_step_ok [OF step] node_reach_ok [OF reach] have adv: "advances rf rf'" "V \<subseteq> V'" by auto
  have votes: "votes_of s j \<subseteq> votes_of ?s j" for j
    using adv(2) i len by (cases "j = i") (auto simp: votes_of_def set_node_def)
  have other: "rpc ?s = rpc s" "elections ?s = elections s" "won ?s = won s" "tokens ?s = tokens s"
    by (simp_all add: set_node_def)
  have "node_reach (nodes ?s ! k) \<and> me (fst (nodes ?s ! k)) = int k \<and> peers (fst (nodes ?s ! k)) = n" if "k < n" for k
    using that inv id adv(1) len node_reach.step [OF reach step]
    by (cases "k = i") (auto simp: cl_inv_def set_node_def advances_def)
  moreover have "rpc_ok n k t j (votes_of ?s j) (rpc ?s k t j)" for k t j
    unfolding other by (rule rpc_ok_mono [OF cl_inv_rpc_ok [OF inv] votes])
  moreover have "el_ok n ?s k el" if "k < n" "elections ?s ! k = Some el" for k el
    using cl_inv_el_ok [OF inv that(1)] that(2) votes [of k] unfolding el_ok_def other by blast
  moreover have "\<forall>(t, k, T) \<in> won ?s. k < n \<and> quorum n ?s T k"
    using inv quorum_mono [OF _ votes] unfolding cl_inv_def other by fast
  ultimately show ?thesis using inv len unfolding cl_inv_def other by (simp add: set_node_def)
qed

text \<open>A change of one vote request that does not lose a counted vote.\<close>

lemma cl_inv_rpc:
  assumes inv: "cl_inv n s" and "i < n" and "rpc_ok n i t j (votes_of s j) m"
    and "counted (rpc s i t j) \<Longrightarrow> counted m"
  shows "cl_inv n (set_rpc i t j m s)"
proof -
  let ?s = "set_rpc i t j m s"
  have other: "nodes ?s = nodes s" "elections ?s = elections s" "won ?s = won s" "tokens ?s = tokens s"
    "votes_of ?s = votes_of s" by (auto simp: set_rpc_def votes_of_def)
  have rpc: "rpc ?s k u l = (if k = i \<and> u = t \<and> l = j then m else rpc s k u l)" for k u l
    by (simp add: set_rpc_def)
  have ok: "rpc_ok n k u l (votes_of s l) (rpc ?s k u l)" for k u l
    using cl_inv_rpc_ok [OF inv] assms(3) by (simp add: rpc)
  have card: "card {l. counted (rpc s k u l)} \<le> card {l. counted (rpc ?s k u l)}" for k u
  proof (rule card_mono)
    show "finite {l. counted (rpc ?s k u l)}"
    proof (rule finite_subset)
      show "{l. counted (rpc ?s k u l)} \<subseteq> {..<n}" using counted_bounds [OF ok, of k u] by auto
    qed simp
    show "{l. counted (rpc s k u l)} \<subseteq> {l. counted (rpc ?s k u l)}" using assms(4) by (auto simp: rpc)
  qed
  have "el_ok n ?s k el" if "el_ok n s k el" for k el
    using that card [of k "rv_Term (el_args el)"] unfolding el_ok_def other by linarith
  moreover have "rpc ?s k u l \<noteq> NoRpc \<longrightarrow> k < n" for k u l
    using inv assms(2) by (auto simp: rpc cl_inv_def)
  ultimately show ?thesis using inv ok unfolding cl_inv_def other quorum_def by blast
qed

lemma cl_inv_tokens: "cl_inv n s \<Longrightarrow> length ts = n \<Longrightarrow> cl_inv n (s\<lparr>tokens := ts\<rparr>)"
  by (simp add: cl_inv_def el_ok_def quorum_def votes_of_def)

lemma cl_inv_election:
  assumes "cl_inv n s" and "i < n" and "el_ok n s i el"
  shows "cl_inv n (s\<lparr>elections := (elections s)[i := Some el]\<rparr>)"
  using assms by (auto simp: cl_inv_def el_ok_def quorum_def votes_of_def nth_list_update)

lemma cl_inv_no_election:
  assumes "cl_inv n s"
  shows "cl_inv n (s\<lparr>elections := (elections s)[i := None]\<rparr>)"
  using assms by (cases "i < n") (auto simp: cl_inv_def el_ok_def quorum_def votes_of_def nth_list_update)

lemma votes_of_set_node: "length (nodes s) = n \<Longrightarrow> i < n \<Longrightarrow> votes_of (set_node i (rf', V') s) i = V'"
  by (simp add: votes_of_def set_node_def)

text \<open>Changes that leave the peers and the list of winners alone.\<close>

lemma cl_inv_requests:
  assumes inv: "cl_inv n s" and same: "nodes t = nodes s" "won t = won s"
    and len: "length (elections t) = n" "length (tokens t) = n"
    and bound: "\<And>i u j. rpc t i u j \<noteq> NoRpc \<Longrightarrow> i < n"
    and rpc: "\<And>i u j. rpc_ok n i u j (votes_of s j) (rpc t i u j)"
    and el: "\<And>i e. i < n \<Longrightarrow> elections t ! i = Some e \<Longrightarrow> el_ok n t i e"
  shows "cl_inv n t"
proof -
  have votes: "votes_of t = votes_of s" by (simp add: votes_of_def same fun_eq_iff)
  have q: "quorum n t = quorum n s" by (simp add: quorum_def votes fun_eq_iff)
  show ?thesis using inv len bound rpc el unfolding cl_inv_def same votes q by blast
qed

lemma el_ok_same_row:
  assumes "el_ok n s k e" and "nodes t = nodes s" and "rpc t k = rpc s k"
  shows "el_ok n t k e"
  using assms by (simp add: el_ok_def votes_of_def)

lemma cl_inv_bound: "cl_inv n s \<Longrightarrow> rpc s i t j \<noteq> NoRpc \<Longrightarrow> i < n"
  unfolding cl_inv_def by blast

lemma cl_inv_lengths:
  "cl_inv n s \<Longrightarrow> length (nodes s) = n \<and> length (elections s) = n \<and> length (tokens s) = n"
  by (simp add: cl_inv_def)

lemma cl_inv_new_election:
  assumes inv: "cl_inv n s" and i: "i < n" and vote: "(t, int i) \<in> votes_of s i"
    and el: "rv_Term (el_args el) = t" "rv_CandidateId (el_args el) = int i" "el_majority el = int (n div 2 + 1)" "el_count el = 1"
  shows "cl_inv n (s\<lparr>elections := (elections s)[i := Some el],
    rpc := (rpc s)(i := (rpc s i)(t := (\<lambda>j. if j \<noteq> i \<and> j < n then Todo (el_args el) else NoRpc)))\<rparr>)"
    (is "cl_inv n ?s")
proof (rule cl_inv_requests [OF inv])
  note len = cl_inv_lengths [OF inv]
  show "nodes ?s = nodes s" "won ?s = won s" "length (elections ?s) = n" "length (tokens ?s) = n"
    using len by simp_all
  show "k < n" if "rpc ?s k u j \<noteq> NoRpc" for k u j
    using that i cl_inv_bound [OF inv, of k u j] by (cases "k = i") simp_all
  show "rpc_ok n k u j (votes_of s j) (rpc ?s k u j)" for k u j
    using cl_inv_rpc_ok [OF inv, of k u j] el(1,2) by (cases "k = i") simp_all
  show "el_ok n ?s k e" if "k < n" "elections ?s ! k = Some e" for k e
  proof (cases "k = i")
    case True
    with that len have "e = el" by simp
    with el vote True show ?thesis by (simp add: el_ok_def votes_of_def)
  next
    case False
    with that have "elections s ! k = Some e" by simp
    from el_ok_same_row [OF cl_inv_el_ok [OF inv that(1) this], of ?s] False show ?thesis by simp
  qed
qed

lemma cl_inv_drop:
  assumes inv: "cl_inv n s" and i: "i < n"
  shows "cl_inv n (s\<lparr>elections := (elections s)[i := None], rpc := (rpc s)(i := (\<lambda>t j. drop_rpc (rpc s i t j)))\<rparr>)"
    (is "cl_inv n ?s")
proof (rule cl_inv_requests [OF inv])
  note len = cl_inv_lengths [OF inv]
  show "nodes ?s = nodes s" "won ?s = won s" "length (elections ?s) = n" "length (tokens ?s) = n"
    using len by simp_all
  show "k < n" if "rpc ?s k u j \<noteq> NoRpc" for k u j
    using that i cl_inv_bound [OF inv, of k u j] by (cases "k = i") simp_all
  have drop: "rpc_ok n k u j V (drop_rpc m)" if "rpc_ok n k u j V m" for k u j V m
    using that by (cases m) auto
  show "rpc_ok n k u j (votes_of s j) (rpc ?s k u j)" for k u j
    using cl_inv_rpc_ok [OF inv, of k u j] drop by (cases "k = i") simp_all
  show "el_ok n ?s k e" if "k < n" "elections ?s ! k = Some e" for k e
  proof -
    have "k \<noteq> i" using that len by auto
    with that have "elections s ! k = Some e" by simp
    from el_ok_same_row [OF cl_inv_el_ok [OF inv that(1) this], of ?s] \<open>k \<noteq> i\<close> show ?thesis by simp
  qed
qed

lemma cl_inv_won:
  assumes "cl_inv n s" and "i < n" and "quorum n s T i"
  shows "cl_inv n (s\<lparr>won := insert (t, i, T) (won s)\<rparr>)"
proof -
  let ?t = "s\<lparr>won := insert (t, i, T) (won s)\<rparr>"
  have same: "votes_of ?t = votes_of s" "nodes ?t = nodes s" "elections ?t = elections s" "tokens ?t = tokens s"
    "rpc ?t = rpc s" "won ?t = insert (t, i, T) (won s)" by (simp_all add: votes_of_def fun_eq_iff)
  have eq: "quorum n ?t = quorum n s" "el_ok n ?t = el_ok n s"
    by (simp_all add: quorum_def el_ok_def same fun_eq_iff)
  show ?thesis using assms unfolding cl_inv_def same eq by blast
qed

text \<open>The counted votes of an election are votes that the peers have given.\<close>

lemma counted_quorum:
  assumes inv: "cl_inv n s" and i: "i < n" and el: "elections s ! i = Some el" and "el_count el \<ge> el_majority el"
  shows "quorum n s (rv_Term (el_args el)) i"
proof -
  let ?T = "rv_Term (el_args el)"
  let ?C = "{j. counted (rpc s i ?T j)}"
  let ?V = "{j. j < n \<and> (?T, int i) \<in> votes_of s j}"
  have ok: "el_ok n s i el" by (rule cl_inv_el_ok [OF inv i el])
  have C: "j < n \<and> j \<noteq> i \<and> (?T, int i) \<in> votes_of s j" if "j \<in> ?C" for j
    using counted_bounds [OF cl_inv_rpc_ok [OF inv]] that by blast
  have "insert i ?C \<subseteq> ?V" using C ok i by (auto simp: el_ok_def)
  then have le: "card (insert i ?C) \<le> card ?V" by (intro card_mono) simp_all
  have "finite ?C" by (rule finite_subset [of _ "{..<n}"]) (use C in auto)
  moreover have "i \<notin> ?C" using C by blast
  ultimately have "card (insert i ?C) = Suc (card ?C)" by simp
  then show ?thesis using le ok assms(4) by (simp add: quorum_def el_ok_def)
qed

subsection \<open>Every action keeps the invariant\<close>

lemma set_node_other [simp]:
  "elections (set_node i x s) = elections s" "tokens (set_node i x s) = tokens s" "rpc (set_node i x s) = rpc s"
  "won (set_node i x s) = won s" "length (nodes (set_node i x s)) = length (nodes s)"
  by (simp_all add: set_node_def)

lemma set_rpc_other [simp]:
  "elections (set_rpc i t j m s) = elections s" "nodes (set_rpc i t j m s) = nodes s"
  by (simp_all add: set_rpc_def)

lemma set_node_swap:
  "set_node i x (s\<lparr>tokens := ts\<rparr>) = (set_node i x s)\<lparr>tokens := ts\<rparr>"
  by (simp add: set_node_def)

lemma update_set_rpc: "set_rpc i t j m (update_election i t f s) = update_election i t f (set_rpc i t j m s)"
  by (simp add: set_rpc_def update_election_def current_election_def split: option.splits)

lemma current_election_Some:
  "current_election i t s = Some el \<longleftrightarrow> elections s ! i = Some el \<and> rv_Term (el_args el) = t"
  by (auto simp: current_election_def split: option.splits)

lemma check_state_inv:
  assumes inv: "cl_inv n s" and step: "cl_do (ACheckState i now) s = Some t"
  shows "cl_inv n t"
proof -
  obtain rf V where rf: "nodes s ! i = (rf, V)" by (cases "nodes s ! i")
  obtain rf' gos where c: "checkState_round now rf = (rf', gos)" by (cases "checkState_round now rf")
  note len = cl_inv_lengths [OF inv]
  have i: "i < n" and t: "t = (set_node i (rf', V) s)\<lparr>tokens := (tokens s)[i := tokens s ! i + length gos]\<rparr>"
    using step rf c len by (auto simp: Let_def split: if_splits)
  have "node_step (rf, V) (rf', V)" by (rule node_step.other [OF section_step.check_state [OF c]])
  from cl_inv_node [OF inv i rf this] show ?thesis unfolding t by (rule cl_inv_tokens) (simp add: len)
qed

lemma timer_inv:
  assumes inv: "cl_inv n s" and step: "cl_do (ATimer i) s = Some t"
  shows "cl_inv n t"
proof -
  define k where "k = tokens s ! i + (if atomicReadStatus (fst (nodes s ! i)) = ''candidate'' then 1 else 0)"
  have "t = s\<lparr>tokens := (tokens s)[i := k]\<rparr>" using step unfolding k_def by (simp split: if_splits)
  then show ?thesis using cl_inv_tokens [OF inv, of "(tokens s)[i := k]"] cl_inv_lengths [OF inv] by simp
qed

lemma elect_inv:
  assumes inv: "cl_inv n s" and step: "cl_do (AElect i now r) s = Some t"
  shows "cl_inv n t"
proof -
  obtain rf V where rf: "nodes s ! i = (rf, V)" by (cases "nodes s ! i")
  note len = cl_inv_lengths [OF inv]
  have i: "i < n" using step len by (auto split: if_splits)
  have id: "me rf = int i" "peers rf = n" and reach: "node_reach (rf, V)"
    using inv i rf by (auto simp: cl_inv_def)
  let ?s1 = "s\<lparr>tokens := (tokens s)[i := tokens s ! i - 1]\<rparr>"
  have inv1: "cl_inv n ?s1" by (rule cl_inv_tokens [OF inv]) (simp add: len)
  obtain rf' res where ts: "ticker_start now r rf = Some (rf', res)"
    using step rf by (cases "ticker_start now r rf") (auto split: if_splits)
  note st = node_step.election [OF ts, of V]
  have inv2: "cl_inv n (set_node i (rf', if res = None then V else insert (currentTerm rf', me rf') V) ?s1)"
    by (rule cl_inv_node [OF inv1 i _ st]) (simp add: rf)
  show ?thesis
  proof (cases res)
    case None
    then show ?thesis using inv2 step rf ts i len by (auto simp: Let_def split: if_splits)
  next
    case (Some el)
    let ?s2 = "set_node i (rf', insert (currentTerm rf', me rf') V) ?s1"
    have me: "me rf' = int i" "peers rf' = n"
      using node_step_ok [OF st] node_reach_ok [OF reach] id by (simp_all add: advances_def)
    have el: "rv_Term (el_args el) = currentTerm rf'" "rv_CandidateId (el_args el) = int i"
      "el_majority el = int (n div 2 + 1)" "el_count el = 1"
      using ts Some id me by (auto simp: ticker_start_def Let_def option_bind_simps split: if_splits)
    have "(currentTerm rf', int i) \<in> votes_of ?s2 i" using me i len by (simp add: votes_of_def set_node_def)
    from cl_inv_new_election [OF _ i this el] inv2 Some show ?thesis
      using step rf ts i len by (auto simp: Let_def split: if_splits)
  qed
qed

lemma send_inv:
  assumes inv: "cl_inv n s" and step: "cl_do (ASend i t j) s = Some u"
  shows "cl_inv n u"
proof -
  obtain args where m: "rpc s i t j = Todo args" using step by (auto split: vote_rpc.splits)
  then have "i < n" using cl_inv_bound [OF inv, of i t j] by simp
  with cl_inv_rpc_ok [OF inv, of i t j] m step show ?thesis
    by (auto simp: counted_def intro!: cl_inv_rpc [OF inv])
qed

lemma lose_inv:
  assumes inv: "cl_inv n s" and step: "cl_do (ALose i t j) s = Some u"
  shows "cl_inv n u"
proof -
  have "i < n" using step cl_inv_bound [OF inv, of i t j] by (auto split: vote_rpc.splits)
  with cl_inv_rpc_ok [OF inv, of i t j] step show ?thesis
    by (auto simp: counted_def intro!: cl_inv_rpc [OF inv] split: vote_rpc.splits)
qed

lemma deliver_inv:
  assumes inv: "cl_inv n s" and step: "cl_do (ADeliver i t j now) s = Some u"
  shows "cl_inv n u"
proof -
  obtain rf V where rf: "nodes s ! j = (rf, V)" by (cases "nodes s ! j")
  obtain args m rf' reply where a: "rpc s i t j = InNet args \<and> m = Replied reply \<or> rpc s i t j = Orphan args \<and> m = Over"
    and rv: "RequestVote now args rf = Some (rf', reply)"
    and u: "u = set_rpc i t j m (set_node j (rf', grant args reply V) s)"
    using step rf by (auto simp: Let_def option_bind_simps split: vote_rpc.splits)
  have i: "i < n" using a cl_inv_bound [OF inv, of i t j] by auto
  have j: "j < n" "j \<noteq> i" and args: "rv_Term args = t" "rv_CandidateId args = int i"
    using a cl_inv_rpc_ok [OF inv, of i t j] by auto
  have "node_step (rf, V) (rf', grant args reply V)"
    using node_step.request_vote [OF rv, of V] by (simp add: grant_def)
  from cl_inv_node [OF inv j(1) rf this] have inv1: "cl_inv n (set_node j (rf', grant args reply V) s)" .
  have "votes_of (set_node j (rf', grant args reply V) s) j = grant args reply V"
    using j cl_inv_lengths [OF inv] by (simp add: votes_of_set_node)
  then have "rpc_ok n i t j (votes_of (set_node j (rf', grant args reply V) s) j) m"
    using a j args by (auto simp: grant_def)
  then show ?thesis unfolding u using a by (intro cl_inv_rpc [OF inv1 i]) (auto simp: counted_def)
qed

lemma finite_counted:
  assumes inv: "cl_inv n s"
  shows "finite {l. counted (rpc s i t l)}"
proof (rule finite_subset)
  show "{l. counted (rpc s i t l)} \<subseteq> {..<n}"
    using counted_bounds [OF cl_inv_rpc_ok [OF inv, of i t]] by auto
qed simp

lemma card_counted_rpc:
  assumes inv: "cl_inv n s" and "\<not> counted (rpc s i t j)" and "counted m"
  shows "card {l. counted (rpc (set_rpc i t j m s) i t l)} = Suc (card {l. counted (rpc s i t l)})"
proof -
  have "{l. counted (rpc (set_rpc i t j m s) i t l)} = insert j {l. counted (rpc s i t l)}"
    using assms(3) by (auto simp: set_rpc_def)
  then show ?thesis using assms(2) finite_counted [OF inv, of i t] by simp
qed

lemma update_election_inv:
  assumes inv: "cl_inv n s" and i: "i < n"
    and el: "\<And>el. current_election i t s = Some el \<Longrightarrow> el_ok n s i (f el)"
  shows "cl_inv n (update_election i t f s)"
  using assms cl_inv_election [OF inv i] by (auto simp: update_election_def split: option.splits)

lemma vote_reply_election:
  assumes "vote_reply reply (rf, el) = ((rf', el'), goes_on)"
  shows "el_args el' = el_args el \<and> el_majority el' = el_majority el \<and>
    el_count el' = el_count el + (if goes_on \<and> rvr_VoteGranted reply then 1 else 0)"
  using assms by (auto simp: vote_reply_def split: if_splits)

lemma reply_inv:
  assumes inv: "cl_inv n s" and step: "cl_do (AReply i t j) s = Some u"
  shows "cl_inv n u"
proof -
  obtain rf V where rf: "nodes s ! i = (rf, V)" by (cases "nodes s ! i")
  obtain reply where m: "rpc s i t j = Replied reply" using step by (auto split: vote_rpc.splits)
  define el where "el = (case current_election i t s of Some el \<Rightarrow> el | None \<Rightarrow> old_election)"
  obtain rf' el' goes_on where v: "vote_reply reply (rf, el) = ((rf', el'), goes_on)"
    by (metis prod.exhaust)
  define m' where "m' = (if goes_on then Finishing (rvr_VoteGranted reply) else Over)"
  define s1 where "s1 = set_node i (rf', V) s"
  have u: "u = update_election i t (\<lambda>_. el') (set_rpc i t j m' s1)"
    using step m rf v unfolding s1_def m'_def el_def by (simp add: Let_def update_set_rpc)
  have i: "i < n" using m cl_inv_bound [OF inv, of i t j] by simp
  have "node_step (rf, V) (rf', V)" by (rule node_step.other [OF section_step.vote_reply [OF v]])
  from cl_inv_node [OF inv i rf this] have inv1: "cl_inv n s1" unfolding s1_def .
  have m1: "rpc s1 i t j = Replied reply" using m by (simp add: s1_def)
  from cl_inv_rpc_ok [OF inv1, of i t j] m1 have "rpc_ok n i t j (votes_of s1 j) m'" by (simp add: m'_def)
  then have inv2: "cl_inv n (set_rpc i t j m' s1)"
    using m1 by (intro cl_inv_rpc [OF inv1 i]) (simp_all add: counted_def)
  show ?thesis unfolding u
  proof (rule update_election_inv [OF inv2 i])
    fix e
    assume "current_election i t (set_rpc i t j m' s1) = Some e"
    then have e: "elections s ! i = Some e" "rv_Term (el_args e) = t"
      by (simp_all add: current_election_Some s1_def)
    then have "el = e" by (simp add: el_def current_election_def)
    note ve = vote_reply_election [OF v, unfolded this]
    have ok: "el_ok n (set_rpc i t j m' s1) i e" and ok1: "el_ok n s1 i e"
      using cl_inv_el_ok [OF inv2 i] cl_inv_el_ok [OF inv1 i] e(1) by (simp_all add: s1_def)
    have votes: "votes_of (set_rpc i t j m' s1) = votes_of s1" by (simp add: votes_of_def fun_eq_iff)
    show "el_ok n (set_rpc i t j m' s1) i el'"
    proof (cases "goes_on \<and> rvr_VoteGranted reply")
      case True
      then have "card {l. counted (rpc (set_rpc i t j m' s1) i t l)} = Suc (card {l. counted (rpc s1 i t l)})"
        using m1 by (intro card_counted_rpc [OF inv1]) (auto simp: counted_def m'_def)
      with ok1 ve True e(2) show ?thesis unfolding el_ok_def votes by simp
    next
      case False
      with ok ve show ?thesis by (simp add: el_ok_def)
    qed
  qed
qed

lemma finish_inv:
  assumes inv: "cl_inv n s" and step: "cl_do (AFinish i t j) s = Some u"
  shows "cl_inv n u"
proof -
  obtain b where m: "rpc s i t j = Finishing b" using step by (auto split: vote_rpc.splits)
  have i: "i < n" using m cl_inv_bound [OF inv, of i t j] by simp
  have u: "u = set_rpc i t j (if b then Counted else Over) (update_election i t vote_finished s)"
    using step m by simp
  have "cl_inv n (update_election i t vote_finished s)"
    using cl_inv_el_ok [OF inv i]
    by (intro update_election_inv [OF inv i]) (simp add: current_election_Some el_ok_def vote_finished_def)
  moreover have r: "rpc (update_election i t vote_finished s) = rpc s" "nodes (update_election i t vote_finished s) = nodes s"
    by (simp_all add: update_election_def split: option.splits)
  ultimately show ?thesis unfolding u using m cl_inv_rpc_ok [OF inv, of i t j] i
    by (intro cl_inv_rpc) (auto simp: counted_def votes_of_def)
qed

lemma wake_inv:
  assumes inv: "cl_inv n s" and step: "cl_do (AWake i now) s = Some u"
  shows "cl_inv n u"
proof -
  obtain rf V where rf: "nodes s ! i = (rf, V)" by (cases "nodes s ! i")
  obtain el where el: "elections s ! i = Some el" using step by (auto split: if_splits option.splits)
  obtain rf' gos where te: "ticker_end rf el = (rf', gos)" by (cases "ticker_end rf el")
  define s1 where "s1 = set_node i (rf', V) s"
  have i: "i < n" using step cl_inv_lengths [OF inv] by (auto split: if_splits)
  have u: "u = s1\<lparr>elections := (elections s1)[i := None],
      won := if gos \<noteq> [] then insert (currentTerm rf', i, rv_Term (el_args el)) (won s1) else won s1\<rparr>"
    using step rf el te by (auto simp: Let_def s1_def split: if_splits)
  have "node_step (rf, V) (rf', V)" by (rule node_step.other [OF section_step.election_end [OF te]])
  from cl_inv_node [OF inv i rf this] have inv1: "cl_inv n s1" unfolding s1_def .
  then have inv2: "cl_inv n (s1\<lparr>elections := (elections s1)[i := None]\<rparr>)" by (rule cl_inv_no_election)
  show ?thesis
  proof (cases "gos = []")
    case True
    then show ?thesis using inv2 u by simp
  next
    case False
    then have "el_count el \<ge> el_majority el" using te by (auto simp: ticker_end_def split: if_splits)
    then have "quorum n s1 (rv_Term (el_args el)) i"
      using counted_quorum [OF inv1 i] el by (simp add: s1_def)
    then have "quorum n (s1\<lparr>elections := (elections s1)[i := None]\<rparr>) (rv_Term (el_args el)) i"
      by (simp add: quorum_def votes_of_def)
    from cl_inv_won [OF inv2 i this, of "currentTerm rf'"] False u show ?thesis by simp
  qed
qed

lemma restart_inv:
  assumes inv: "cl_inv n s" and step: "cl_do (ARestart i now r) s = Some u"
  shows "cl_inv n u"
proof -
  obtain rf V where rf: "nodes s ! i = (rf, V)" by (cases "nodes s ! i")
  have i: "i < n" using step cl_inv_lengths [OF inv] by (auto split: if_splits)
  obtain rf' where mk: "Make (\<lambda>n. n) now r (peers rf) (me rf) (persister rf) = Some rf'"
    using step rf by (auto simp: Let_def option_bind_simps split: if_splits)
  define s1 where "s1 = (set_node i (rf', V) s)\<lparr>tokens := (tokens s)[i := 0]\<rparr>"
  have u: "u = s1\<lparr>elections := (elections s1)[i := None], rpc := (rpc s1)(i := (\<lambda>t j. drop_rpc (rpc s1 i t j)))\<rparr>"
    using step rf mk by (auto simp: Let_def s1_def split: if_splits)
  have "cl_inv n (set_node i (rf', V) s)" by (rule cl_inv_node [OF inv i rf node_step.restart [OF mk]])
  then have "cl_inv n s1" unfolding s1_def by (rule cl_inv_tokens) (simp add: cl_inv_lengths [OF inv])
  then show ?thesis unfolding u by (rule cl_inv_drop [OF _ i])
qed

lemmas cl_do_invs = check_state_inv elect_inv send_inv deliver_inv lose_inv reply_inv finish_inv wake_inv timer_inv restart_inv

lemma boot_cluster_inv: "cl_inv n (boot_cluster n r)"
proof -
  have "\<exists>rf. Make (\<lambda>n. n) 0 r n (int i) MakePersister = Some rf \<and> me rf = int i \<and> peers rf = n" for i
    by (simp add: Make_def readPersist_def ReadRaftState_def MakePersister_def clone_bytes_def)
  then have "node_reach (the (Make (\<lambda>n. n) 0 r n (int i) MakePersister), {}) \<and>
      me (the (Make (\<lambda>n. n) 0 r n (int i) MakePersister)) = int i \<and>
      peers (the (Make (\<lambda>n. n) 0 r n (int i) MakePersister)) = n" for i
    using node_reach.boot [of "\<lambda>n. n" 0 r n "int i"] by (metis option.sel)
  then show ?thesis by (simp add: cl_inv_def boot_cluster_def)
qed

lemma cl_reach_inv: "cl_reach n s \<Longrightarrow> cl_inv n s"
proof (induction rule: cl_reach.induct)
  case (boot r)
  show ?case by (rule boot_cluster_inv)
next
  case (act s a t)
  then show ?case by (cases a) (auto dest: cl_do_invs simp del: cl_do.simps)
next
  case (local_step s i rf V rf')
  then show ?case by (blast intro: cl_inv_node node_step.other section_step.rest)
qed

subsection \<open>Properties\<close>

text \<open>C2: Election safety: in every run of a cluster of any size, with delayed, reordered and lost
  requests, interleaved with all other activity of the peers, and with crashes and restarts, no two
  different peers win the election of the same term.\<close>

theorem election_safety:
  assumes "cl_reach n s" and "(t, i, T) \<in> won s" and "(t', j, T) \<in> won s"
  shows "i = j"
proof -
  have inv: "cl_inv n s" by (rule cl_reach_inv [OF assms(1)])
  have q: "quorum n s T i" "quorum n s T j" using inv assms(2,3) unfolding cl_inv_def by blast+
  let ?Q = "\<lambda>k. {l. l < n \<and> (T, int k) \<in> votes_of s l}"
  have "?Q i \<inter> ?Q j \<noteq> {}"
  proof
    assume "?Q i \<inter> ?Q j = {}"
    then have "card (?Q i \<union> ?Q j) = card (?Q i) + card (?Q j)" by (intro card_Un_disjoint) auto
    moreover have "card (?Q i \<union> ?Q j) \<le> card {..<n}" by (rule card_mono) auto
    ultimately show False using q by (simp add: quorum_def)
  qed
  then obtain l where l: "l < n" "(T, int i) \<in> votes_of s l" "(T, int j) \<in> votes_of s l" by blast
  have "node_reach (nodes s ! l)" using inv l(1) by (simp add: cl_inv_def)
  from node_reach_ok [OF this] have "\<forall>t c c'. (t, c) \<in> votes_of s l \<longrightarrow> (t, c') \<in> votes_of s l \<longrightarrow> c = c'"
    by (simp add: votes_of_def votes_ok_def case_prod_beta)
  with l(2,3) have "int i = int j" by blast
  then show ?thesis by simp
qed

text \<open>A schedule of three peers.  Peer 0 starts an election in term 1; peer 1 grants its vote but the
  reply is delayed.  Peer 2 starts an election in term 2, gets the vote of peer 0 and becomes leader.
  Peer 0 times out and is a candidate again when the delayed vote of term 1 arrives.\<close>

definition two_leader_run :: "cl_action list" where
  "two_leader_run = [
     ACheckState 0 500000000, AElect 0 500000000 0, ASend 0 1 1, ASend 0 1 2,
     ADeliver 0 1 1 500000001, ADeliver 0 1 2 500000001,
     ACheckState 2 1000000000, AElect 2 1000000000 0, ASend 2 2 0,
     ADeliver 2 2 0 1000000001, AReply 2 2 0, AFinish 2 2 0, AWake 2 1000000002,
     ACheckState 0 1500000000, AReply 0 1 1, AFinish 0 1 1, AWake 0 1500000001]"

lemmas cl_run_simps = two_leader_run_def boot_cluster_def upt_rec Make_def readPersist_def ReadRaftState_def
  MakePersister_def clone_bytes_def getRandomizedElecionTime_def checkState_round_def set_node_def set_rpc_def
  ticker_start_def Let_def persist_def SaveRaftState_def raft_bytes_def slice_get_def getAbsoluteIndex_def
  RequestVote_def isAdvanceThanCandidate_def grant_def vote_reply_def current_election_def
  update_election_def vote_finished_def ticker_waits_def ticker_end_def becomeLeaderInit_def
  numeral_2_eq_2 numeral_3_eq_3

lemma two_leader_run_result:
  "\<exists>s. cl_run two_leader_run (boot_cluster 3 0) = Some s \<and> (2, 0, 1) \<in> won s \<and> (2, 2, 2) \<in> won s \<and>
     status (fst (nodes s ! 0)) = ''leader'' \<and> currentTerm (fst (nodes s ! 0)) = 2 \<and>
     status (fst (nodes s ! 2)) = ''leader'' \<and> currentTerm (fst (nodes s ! 2)) = 2"
  by (simp add: cl_run_simps) (simp flip: numeral_2_eq_2 numeral_3_eq_3)

text \<open>Two leaders in one term: the code makes a candidate leader of its current term without
  checking that this is the term of the election in which the votes were counted.  A reachable state
  of a cluster of three has two leaders in term 2, one of them with the votes of term 1.\<close>

lemma two_leaders_in_one_term:
  "\<exists>s. cl_reach 3 s \<and> GetState (fst (nodes s ! 0)) = (2, True) \<and> GetState (fst (nodes s ! 2)) = (2, True)"
proof -
  obtain s where "cl_run two_leader_run (boot_cluster 3 0) = Some s"
    and "status (fst (nodes s ! 0)) = ''leader''" "currentTerm (fst (nodes s ! 0)) = 2"
    and "status (fst (nodes s ! 2)) = ''leader''" "currentTerm (fst (nodes s ! 2)) = 2"
    using two_leader_run_result by blast
  moreover from this(1) have "cl_reach 3 s" by (rule cl_run_reach) (rule cl_reach.boot)
  ultimately show ?thesis by (auto simp: GetState_def)
qed

theorem election_safety_witness:
  "\<exists>s. cl_reach 3 s \<and> {i. \<exists>t. (t, i, 2) \<in> won s} = {2}"
proof -
  obtain s where s: "cl_run two_leader_run (boot_cluster 3 0) = Some s" "(2, 2, 2) \<in> won s"
    using two_leader_run_result by blast
  then have "cl_reach 3 s" by (intro cl_run_reach [OF s(1)] cl_reach.boot)
  with s(2) election_safety [OF this _ s(2)] show ?thesis by blast
qed

end
