(* ===== verification/Raft_Log.thy ===== *)
theory Raft_Log
  imports Raft_Node
begin

text \<open>
  The replicated log of a peer: what \<^verbatim>\<open>AppendEntries\<close>, \<^verbatim>\<open>Snapshot\<close>, \<^verbatim>\<open>applyNewCommand\<close> and
  \<^verbatim>\<open>leaderApply\<close> do to it and what they deliver, stated over the abstraction \<open>log_at\<close> (the
  entry at an absolute index), and the situations in which the code fails.
\<close>

subsection \<open>The log by absolute index\<close>

definition lastIndex :: "Raft \<Rightarrow> int" where
  "lastIndex rf = lastIncludedIndex rf + int (length (rlog rf)) - 1"

definition in_log :: "Raft \<Rightarrow> int \<Rightarrow> bool" where
  "in_log rf i \<longleftrightarrow> lastIncludedIndex rf \<le> i \<and> i \<le> lastIndex rf"

definition log_at :: "Raft \<Rightarrow> int \<Rightarrow> Entry" where
  "log_at rf i = rlog rf ! nat (i - lastIncludedIndex rf)"

lemma slice_get_log [simp]: "in_log rf i \<Longrightarrow> slice_get (rlog rf) (getRelativeIndex i rf) = Some (log_at rf i)"
  by (simp add: slice_get_def getRelativeIndex_def in_log_def lastIndex_def log_at_def)

lemma slice_get_log_below: "i < lastIncludedIndex rf \<Longrightarrow> slice_get (rlog rf) (getRelativeIndex i rf) = None"
  by (simp add: slice_get_def getRelativeIndex_def)

lemma absolute_last: "getAbsoluteIndex (int (length (rlog rf)) - 1) rf = lastIndex rf"
  by (simp add: getAbsoluteIndex_def lastIndex_def)

lemma absolute_length: "getAbsoluteIndex (int (length (rlog rf))) rf = lastIndex rf + 1"
  by (simp add: getAbsoluteIndex_def lastIndex_def)

lemma in_log_cong: "rlog rf' = rlog rf \<Longrightarrow> lastIncludedIndex rf' = lastIncludedIndex rf \<Longrightarrow>
  in_log rf' = in_log rf \<and> log_at rf' = log_at rf \<and> lastIndex rf' = lastIndex rf"
  by (auto simp: in_log_def log_at_def lastIndex_def fun_eq_iff)

subsection \<open>Delivering commands\<close>

definition command_msg :: "Raft \<Rightarrow> int \<Rightarrow> ApplyMsg" where
  "command_msg rf i = \<lparr>CommandValid = True, am_Command = e_Command (log_at rf i), CommandIndex = i,
     SnapshotValid = False, am_Snapshot = [], SnapshotTerm = 0, SnapshotIndex = 0\<rparr>"

lemma apply_loop_ok:
  assumes "lastIncludedIndex rf \<le> i" and "stop \<le> lastIndex rf"
  shows "apply_loop rf i stop = Some (map (command_msg rf) [i..stop])"
  using assms
proof (induction rf i stop rule: apply_loop.induct)
  case (1 rf i stop)
  show ?case
  proof (cases "i \<le> stop")
    case True
    with 1 have "in_log rf i" "apply_loop rf (i + 1) stop = Some (map (command_msg rf) [i + 1..stop])"
      by (auto simp: in_log_def)
    with True show ?thesis by (subst apply_loop.simps) (simp add: upto_rec1 command_msg_def)
  next
    case False
    then show ?thesis by (subst apply_loop.simps) simp
  qed
qed

lemma apply_loop_below:
  assumes "i < lastIncludedIndex rf" and "i \<le> stop"
  shows "apply_loop rf i stop = None"
  using assms by (subst apply_loop.simps) (simp add: slice_get_log_below)

lemma min_max_int [simp]: "min_int a b = min a b" "max_int a b = max a b"
  by (auto simp: min_int_def max_int_def)

lemma applyNewCommand_eq:
  "applyNewCommand newIndex rf = Some (rf\<lparr>lastApplied := newIndex, commitIndex := newIndex\<rparr>,
     map (command_msg rf) [max (lastApplied rf) (lastIncludedIndex rf) + 1..min newIndex (lastIndex rf)])"
proof -
  let ?rf = "rf\<lparr>lastApplied := max (lastApplied rf) (lastIncludedIndex rf)\<rparr>"
  have c: "command_msg ?rf = command_msg rf" by (simp add: command_msg_def log_at_def fun_eq_iff)
  have "apply_loop ?rf (max (lastApplied rf) (lastIncludedIndex rf) + 1) (min newIndex (lastIndex rf))
    = Some (map (command_msg ?rf) [max (lastApplied rf) (lastIncludedIndex rf) + 1..min newIndex (lastIndex rf)])"
    by (rule apply_loop_ok) (auto simp: lastIndex_def)
  then show ?thesis unfolding c by (simp add: applyNewCommand_def Let_def absolute_last)
qed

subsection \<open>Counting the peers that hold an entry\<close>

definition holders :: "Raft \<Rightarrow> int \<Rightarrow> nat \<Rightarrow> nat set" where
  "holders rf i j = {k. j \<le> k \<and> k < peers rf \<and> int k \<noteq> me rf \<and> i \<le> matchIndex rf ! k}"

lemma holders_step:
  "j < peers rf \<Longrightarrow> holders rf i j =
     (if int j \<noteq> me rf \<and> i \<le> matchIndex rf ! j then insert j (holders rf i (Suc j)) else holders rf i (Suc j))"
  by (auto simp: holders_def Suc_le_eq order.strict_iff_order)

lemma card_holders_step:
  assumes "j < peers rf"
  shows "card (holders rf i j) =
     (if int j \<noteq> me rf \<and> i \<le> matchIndex rf ! j then 1 else 0) + card (holders rf i (Suc j))"
proof -
  have "finite (holders rf i (Suc j))" "j \<notin> holders rf i (Suc j)" by (auto simp: holders_def)
  then show ?thesis using holders_step [OF assms] by simp
qed

lemma others_loop_ok:
  assumes "length (matchIndex rf) = peers rf" and "o1 < int (peers rf div 2)"
  shows "others_loop rf i j o1 = Some (int (peers rf div 2) \<le> o1 + int (card (holders rf i j)))"
  using assms
proof (induction rf i j o1 rule: others_loop.induct)
  case (1 rf i j o1)
  show ?case
  proof (cases "j < peers rf")
    case True
    let ?o = "if matchIndex rf ! j \<ge> i then o1 + 1 else o1"
    have get: "slice_get (matchIndex rf) (int j) = Some (matchIndex rf ! j)" using True 1(3) by simp
    show ?thesis
    proof (cases "int j = me rf")
      case me: True
      with True 1 show ?thesis
        by (subst others_loop.simps) (simp add: card_holders_step)
    next
      case me: False
      show ?thesis
      proof (cases "?o \<ge> int (peers rf div 2)")
        case ge: True
        with True me get 1(4) show ?thesis
          by (subst others_loop.simps) (auto simp: card_holders_step split: if_splits)
      next
        case lt: False
        with 1(2) [OF True me _ refl] 1(3) get True me show ?thesis
          by (subst others_loop.simps) (auto simp: card_holders_step split: if_splits)
      qed
    qed
  next
    case False
    then have "holders rf i j = {}" by (auto simp: holders_def)
    with False 1(4) show ?thesis by (subst others_loop.simps) simp
  qed
qed

definition majority_holds :: "Raft \<Rightarrow> int \<Rightarrow> bool" where
  "majority_holds rf i \<longleftrightarrow>
     peers rf div 2 + 1 \<le> card {k. k < peers rf \<and> (int k = me rf \<or> i \<le> matchIndex rf ! k)}"

lemma majority_holders:
  assumes "0 \<le> me rf" and "me rf < int (peers rf)"
  shows "majority_holds rf i \<longleftrightarrow> peers rf div 2 \<le> card (holders rf i 0)"
proof -
  have "{k. k < peers rf \<and> (int k = me rf \<or> i \<le> matchIndex rf ! k)} = insert (nat (me rf)) (holders rf i 0)"
    using assms by (auto simp: holders_def)
  moreover have "nat (me rf) \<notin> holders rf i 0" "finite (holders rf i 0)" using assms by (auto simp: holders_def)
  ultimately show ?thesis by (simp add: majority_holds_def)
qed

lemma commit_loop_ok:
  assumes "length (matchIndex rf) = peers rf" and "2 \<le> peers rf" and "0 \<le> me rf" and "me rf < int (peers rf)"
  shows "\<exists>r. commit_loop rf i = Some r \<and>
    (case r of None \<Rightarrow> \<forall>k. commitIndex rf < k \<longrightarrow> k \<le> i \<longrightarrow> \<not> majority_holds rf k
     | Some n \<Rightarrow> commitIndex rf < n \<and> n \<le> i \<and> majority_holds rf n \<and> (\<forall>k. n < k \<longrightarrow> k \<le> i \<longrightarrow> \<not> majority_holds rf k))"
  using assms
proof (induction rf i rule: commit_loop.induct)
  case (1 rf i)
  have ol: "others_loop rf i 0 0 = Some (majority_holds rf i)"
    using others_loop_ok [of rf 0 i 0] majority_holders [of rf i] 1(2-5) by simp
  show ?case
  proof (cases "commitIndex rf < i")
    case False
    then show ?thesis by (subst commit_loop.simps) auto
  next
    case True
    show ?thesis
    proof (cases "majority_holds rf i")
      case m: True
      with ol True show ?thesis by (subst commit_loop.simps) auto
    next
      case m: False
      have eq: "commit_loop rf i = commit_loop rf (i - 1)"
        using ol m True by (subst commit_loop.simps) simp
      from 1(1) [OF True ol m 1(2-5)] obtain r where r: "commit_loop rf (i - 1) = Some r"
        "case r of None \<Rightarrow> \<forall>k. commitIndex rf < k \<longrightarrow> k \<le> i - 1 \<longrightarrow> \<not> majority_holds rf k
         | Some n \<Rightarrow> commitIndex rf < n \<and> n \<le> i - 1 \<and> majority_holds rf n \<and> (\<forall>k. n < k \<longrightarrow> k \<le> i - 1 \<longrightarrow> \<not> majority_holds rf k)"
        by blast
      have "k \<le> i - 1 \<or> k = i" if "k \<le> i" for k :: int using that by linarith
      with r m show ?thesis unfolding eq by (cases r) auto
    qed
  qed
qed

subsection \<open>Matching the previous entry\<close>

lemma back_loop_ok:
  assumes "in_log rf p" and "k \<le> p" and "lastIncludedIndex rf = 0" and "0 \<le> k"
  shows "\<exists>m. back_loop rf p k = Some m \<and> 0 \<le> m \<and> m \<le> k \<and>
    (\<forall>j. m < j \<longrightarrow> j \<le> k \<longrightarrow> e_Term (log_at rf j) = e_Term (log_at rf p)) \<and>
    (m = 0 \<or> e_Term (log_at rf m) \<noteq> e_Term (log_at rf p))"
  using assms
proof (induction rf p k rule: back_loop.induct)
  case (1 rf p k)
  show ?case
  proof (cases "0 < k")
    case False
    with 1 show ?thesis by (subst back_loop.simps) auto
  next
    case True
    with 1 have k: "in_log rf k" by (auto simp: in_log_def)
    show ?thesis
    proof (cases "e_Term (log_at rf k) = e_Term (log_at rf p)")
      case same: True
      have "back_loop rf p k = back_loop rf p (k - 1)"
        using True k 1(2) same by (subst back_loop.simps) simp
      moreover obtain m where "back_loop rf p (k - 1) = Some m" "0 \<le> m" "m \<le> k - 1"
        "\<forall>j. m < j \<longrightarrow> j \<le> k - 1 \<longrightarrow> e_Term (log_at rf j) = e_Term (log_at rf p)"
        "m = 0 \<or> e_Term (log_at rf m) \<noteq> e_Term (log_at rf p)"
        using 1(1) [of "log_at rf k" "log_at rf p"] True k 1(2-5) same by auto
      moreover have "j \<le> k - 1 \<or> j = k" if "j \<le> k" for j :: int using that by linarith
      ultimately show ?thesis using same by (intro exI [of _ m]) auto
    next
      case False
      with True k 1(2) show ?thesis by (subst back_loop.simps) auto
    qed
  qed
qed

lemma back_loop_panics:
  assumes "2 \<le> lastIncludedIndex rf" and "in_log rf p"
    and "\<And>j. in_log rf j \<Longrightarrow> j \<le> k \<Longrightarrow> e_Term (log_at rf j) = e_Term (log_at rf p)"
    and "k = lastIncludedIndex rf - 1 + int n" and "k \<le> lastIndex rf"
  shows "back_loop rf p k = None"
  using assms(3-5)
proof (induction n arbitrary: k)
  case 0
  then show ?case using assms(1) by (subst back_loop.simps) (simp add: slice_get_log_below)
next
  case (Suc n)
  then have k: "in_log rf k" "0 < k" using assms(1) by (auto simp: in_log_def)
  have "back_loop rf p (k - 1) = None"
    using Suc.prems by (intro Suc.IH) auto
  with k assms(2) Suc.prems(1) [of k] show ?case by (subst back_loop.simps) simp
qed

subsection \<open>Properties\<close>


text \<open>A refused \<^verbatim>\<open>AppendEntries\<close> leaves the log alone and, on a peer without snapshots, returns a
  position to continue from: the last index when the peer's log is too short, and otherwise the
  position before the run of entries that have the term of the conflicting entry.\<close>

lemma AppendEntries_refuses:
  assumes "lastIncludedIndex rf = 0" and "currentTerm rf \<le> ae_Term args"
    and "0 < ae_PrevLogIndex args"
    and "in_log rf (ae_PrevLogIndex args) \<Longrightarrow> e_Term (log_at rf (ae_PrevLogIndex args)) \<noteq> ae_PrevLogTerm args"
  shows "\<exists>rf' reply. AppendEntries alloc now args rf = Some (rf', reply, []) \<and> \<not> aer_Success reply \<and>
    rlog rf' = rlog rf \<and>
    (if in_log rf (ae_PrevLogIndex args)
     then 0 \<le> aer_NewPrevLogIndex reply \<and> aer_NewPrevLogIndex reply < ae_PrevLogIndex args \<and>
       (\<forall>j. aer_NewPrevLogIndex reply < j \<longrightarrow> j \<le> ae_PrevLogIndex args \<longrightarrow>
          e_Term (log_at rf j) = e_Term (log_at rf (ae_PrevLogIndex args)))
     else aer_NewPrevLogIndex reply = lastIndex rf)"
proof -
  let ?p = "ae_PrevLogIndex args"
  define rf1 where "rf1 = (if currentTerm rf < ae_Term args then persist (rf\<lparr>currentTerm := ae_Term args\<rparr>) else rf)"
  define rf2 where "rf2 = rf1\<lparr>lastTime := now, status := ''follower''\<rparr>"
  have f: "rlog rf2 = rlog rf" "lastIncludedIndex rf2 = lastIncludedIndex rf" by (auto simp: rf2_def rf1_def)
  note g = in_log_cong [OF f]
  note h = conjunct1 [OF g] conjunct1 [OF conjunct2 [OF g]]
  have "\<exists>q. isMatchPrevLog ?p (ae_PrevLogTerm args) rf2 = Some (False, q) \<and>
    (if in_log rf ?p then 0 \<le> q \<and> q < ?p \<and>
       (\<forall>j. q < j \<longrightarrow> j \<le> ?p \<longrightarrow> e_Term (log_at rf j) = e_Term (log_at rf ?p)) else q = lastIndex rf)"
  proof (cases "in_log rf ?p")
    case True
    obtain q where q: "back_loop rf2 ?p ?p = Some q" "0 \<le> q" "q \<le> ?p"
      "\<forall>j. q < j \<longrightarrow> j \<le> ?p \<longrightarrow> e_Term (log_at rf j) = e_Term (log_at rf ?p)"
      "q = 0 \<or> e_Term (log_at rf q) \<noteq> e_Term (log_at rf ?p)"
      using back_loop_ok [of rf2 ?p ?p, unfolded h f(2), OF True order_refl assms(1) less_imp_le [OF assms(3)]]
      by blast
    have "q \<noteq> ?p" using q(5) assms(3) by auto
    then have "q < ?p" using q(3) by simp
    moreover have "isMatchPrevLog ?p (ae_PrevLogTerm args) rf2 = Some (False, q)"
      using True g f assms(1,3,4) q(1) slice_get_log [of rf2 ?p]
      by (simp add: isMatchPrevLog_def getAbsoluteIndex_def lastIndex_def in_log_def)
    ultimately show ?thesis unfolding if_P [OF True] using q(2,4) by blast
  next
    case False
    then show ?thesis using assms(1,3) g f
      by (auto simp: isMatchPrevLog_def getAbsoluteIndex_def lastIndex_def in_log_def)
  qed
  then obtain q where q: "isMatchPrevLog ?p (ae_PrevLogTerm args) rf2 = Some (False, q)"
    "if in_log rf ?p then 0 \<le> q \<and> q < ?p \<and>
       (\<forall>j. q < j \<longrightarrow> j \<le> ?p \<longrightarrow> e_Term (log_at rf j) = e_Term (log_at rf ?p)) else q = lastIndex rf" by blast
  have "AppendEntries alloc now args rf = Some (rf2, \<lparr>aer_Term = currentTerm rf, aer_Success = False,
      aer_NewPrevLogIndex = q\<rparr>, [])"
    using assms(2) q(1) unfolding AppendEntries_def Let_def rf1_def [symmetric] rf2_def [symmetric] by simp
  with q(2) f(1) show ?thesis by (intro exI conjI) (assumption | simp only: AppendEntriesReply.simps simp_thms)+
qed

text \<open>\<^verbatim>\<open>AppendEntries\<close> panics when the peer has a snapshot at index 2 or later and all its entries
  from the snapshot to the conflicting one have the same term: the search for the position to
  continue from runs below the first entry.\<close>

lemma AppendEntries_panics_below_snapshot:
  assumes "currentTerm rf \<le> ae_Term args" and "2 \<le> lastIncludedIndex rf"
    and "lastIncludedIndex rf < ae_PrevLogIndex args" and "ae_PrevLogIndex args \<le> lastIndex rf"
    and "e_Term (log_at rf (ae_PrevLogIndex args)) \<noteq> ae_PrevLogTerm args"
    and "\<And>j. in_log rf j \<Longrightarrow> j \<le> ae_PrevLogIndex args \<Longrightarrow>
      e_Term (log_at rf j) = e_Term (log_at rf (ae_PrevLogIndex args))"
  shows "AppendEntries alloc now args rf = None"
proof -
  let ?p = "ae_PrevLogIndex args"
  define rf1 where "rf1 = (if currentTerm rf < ae_Term args then persist (rf\<lparr>currentTerm := ae_Term args\<rparr>) else rf)"
  define rf2 where "rf2 = rf1\<lparr>lastTime := now, status := ''follower''\<rparr>"
  have f: "rlog rf2 = rlog rf" "lastIncludedIndex rf2 = lastIncludedIndex rf" by (auto simp: rf2_def rf1_def)
  note g = in_log_cong [OF f]
  note h = conjunct1 [OF g] conjunct1 [OF conjunct2 [OF g]]
  have p: "in_log rf ?p" using assms(3,4) by (simp add: in_log_def)
  have "back_loop rf2 ?p ?p = None"
  proof (rule back_loop_panics [of rf2 ?p ?p "nat (?p - lastIncludedIndex rf + 1)", unfolded h f(2)])
    show "e_Term (log_at rf j) = e_Term (log_at rf ?p)" if "in_log rf j" "j \<le> ?p" for j
      using assms(6) [OF that] .
  qed (use assms(2-4) p g in auto)
  then have "isMatchPrevLog ?p (ae_PrevLogTerm args) rf2 = None"
    using assms(3-5) p g f slice_get_log [of rf2 ?p] by (simp add: isMatchPrevLog_def getAbsoluteIndex_def lastIndex_def)
  then show ?thesis
    using assms(1) unfolding AppendEntries_def Let_def rf1_def [symmetric] rf2_def [symmetric] by simp
qed

text \<open>\<^verbatim>\<open>applyNewCommand\<close> never panics; it delivers, in increasing order and each once, the commands
  of the log at the indices after everything applied or in the snapshot, up to the new commit index
  or the end of the log, and then sets both indices to the new commit index.\<close>

lemma applyNewCommand_delivers:
  "\<exists>rf' ms. applyNewCommand newIndex rf = Some (rf', ms) \<and>
     map CommandIndex ms = [max (lastApplied rf) (lastIncludedIndex rf) + 1..min newIndex (lastIndex rf)] \<and>
     (\<forall>m \<in> set ms. CommandValid m \<and> in_log rf (CommandIndex m) \<and>
        am_Command m = e_Command (log_at rf (CommandIndex m))) \<and>
     commitIndex rf' = newIndex \<and> lastApplied rf' = newIndex \<and> rlog rf' = rlog rf"
  by (auto simp: applyNewCommand_eq command_msg_def comp_def in_log_def)

text \<open>The goroutines that \<^verbatim>\<open>AppendEntries\<close> starts to apply commands are not ordered: when the one
  for commit index \<open>j\<close> runs before the one for a smaller \<open>i\<close>, the commit index goes back to \<open>i\<close>
  and the commands after \<open>i\<close> are delivered a second time.\<close>

lemma applyNewCommand_delivers_twice:
  assumes "lastIncludedIndex rf \<le> i" and "lastApplied rf \<le> i" and "i < j" and "j \<le> lastIndex rf"
  shows "\<exists>rf1 rf2 rf3 ms1. applyNewCommand j rf = Some (rf1, ms1) \<and> set (map (command_msg rf) [i + 1..j]) \<subseteq> set ms1 \<and>
    applyNewCommand i rf1 = Some (rf2, []) \<and> commitIndex rf1 = j \<and> commitIndex rf2 = i \<and>
    applyNewCommand j rf2 = Some (rf3, map (command_msg rf) [i + 1..j])"
proof -
  have c: "command_msg (rf\<lparr>lastApplied := a, commitIndex := b\<rparr>) = command_msg rf"
    "lastIndex (rf\<lparr>lastApplied := a, commitIndex := b\<rparr>) = lastIndex rf" for a b
    by (simp_all add: command_msg_def log_at_def lastIndex_def fun_eq_iff)
  show ?thesis
    using assms by (auto simp: applyNewCommand_eq c max_def min_def)
qed

text \<open>C9: \<^verbatim>\<open>leaderApply\<close> on a leader that has applied its snapshot: it never panics; it advances the
  commit index exactly to the largest index of its log beyond the commit index that a majority of the peers
  (itself included) is known to hold, if there is one, and delivers the commands up to it in order;
  otherwise it does nothing.\<close>

theorem leaderApply_commits_majority:
  assumes "length (matchIndex rf) = peers rf" and "status rf = ''leader''" and "2 \<le> peers rf"
    and "0 \<le> me rf" and "me rf < int (peers rf)" and "lastIncludedIndex rf \<le> lastApplied rf + 1"
  shows "\<exists>rf' ms. leaderApply rf = Some (rf', ms) \<and>
    (if \<exists>i. commitIndex rf < i \<and> i \<le> lastIndex rf \<and> majority_holds rf i
     then commitIndex rf < commitIndex rf' \<and> commitIndex rf' \<le> lastIndex rf \<and> majority_holds rf (commitIndex rf') \<and>
       (\<forall>i. commitIndex rf' < i \<longrightarrow> i \<le> lastIndex rf \<longrightarrow> \<not> majority_holds rf i) \<and>
       lastApplied rf' = commitIndex rf' \<and> ms = map (command_msg rf) [lastApplied rf + 1..commitIndex rf']
     else rf' = rf \<and> ms = [])"
proof -
  obtain r where r: "commit_loop rf (lastIndex rf) = Some r"
    "case r of None \<Rightarrow> \<forall>k. commitIndex rf < k \<longrightarrow> k \<le> lastIndex rf \<longrightarrow> \<not> majority_holds rf k
     | Some n \<Rightarrow> commitIndex rf < n \<and> n \<le> lastIndex rf \<and> majority_holds rf n \<and>
        (\<forall>k. n < k \<longrightarrow> k \<le> lastIndex rf \<longrightarrow> \<not> majority_holds rf k)"
    using commit_loop_ok [OF assms(1,3-5), of "lastIndex rf"] by blast
  show ?thesis
  proof (cases r)
    case None
    then show ?thesis using r assms(2) by (auto simp: leaderApply_def absolute_last)
  next
    case (Some n)
    have "apply_loop rf (lastApplied rf + 1) n = Some (map (command_msg rf) [lastApplied rf + 1..n])"
      using r(2) Some assms(6) by (intro apply_loop_ok) auto
    then show ?thesis using r Some assms(2) by (auto simp: leaderApply_def absolute_last)
  qed
qed

text \<open>A peer that restarts with a snapshot at index 2 or later and is elected leader panics at its first
  commit: \<^verbatim>\<open>Make\<close> leaves \<^verbatim>\<open>lastApplied\<close> at 0, and \<^verbatim>\<open>leaderApply\<close>, unlike \<^verbatim>\<open>applyNewCommand\<close>, starts
  from there and reads below the first entry of the log.\<close>

lemma leaderApply_panics_after_restart:
  assumes "Make alloc now r n self ps = Some rf0" and "2 \<le> lastIncludedIndex rf0"
    and "rf = (becomeLeaderInit rf0)\<lparr>rlog := rlog rf0 @ es, matchIndex := mi\<rparr>"
    and "length mi = n" and "2 \<le> n" and "0 \<le> self" and "self < int n"
    and "0 < i" and "i \<le> lastIndex rf" and "majority_holds rf i"
  shows "leaderApply rf = None"
proof -
  have m: "peers rf0 = n" "me rf0 = self" "commitIndex rf0 = 0" "lastApplied rf0 = 0"
    using assms(1) by (auto simp: Make_def readPersist_def option_bind_simps split: if_splits)
  obtain r where r: "commit_loop rf (lastIndex rf) = Some r"
    "case r of None \<Rightarrow> \<forall>k. commitIndex rf < k \<longrightarrow> k \<le> lastIndex rf \<longrightarrow> \<not> majority_holds rf k
     | Some n \<Rightarrow> commitIndex rf < n \<and> n \<le> lastIndex rf \<and> majority_holds rf n \<and>
        (\<forall>k. n < k \<longrightarrow> k \<le> lastIndex rf \<longrightarrow> \<not> majority_holds rf k)"
    using commit_loop_ok [of rf "lastIndex rf"] m assms(3-7) by (auto simp: becomeLeaderInit_def)
  then obtain k where k: "r = Some k" "0 < k"
    using assms(3,8-10) m by (cases r) (auto simp: becomeLeaderInit_def)
  have "apply_loop rf 1 k = None"
    using k(2) assms(2,3) by (intro apply_loop_below) (auto simp: becomeLeaderInit_def)
  moreover have "status rf = ''leader''" "lastApplied rf = 0"
    using assms(3) m by (auto simp: becomeLeaderInit_def)
  ultimately show ?thesis using r(1) k by (simp add: leaderApply_def absolute_last)
qed

text \<open>\<^verbatim>\<open>Snapshot\<close> at an index of the log beyond the last snapshot trims the log and nothing else: the
  entries from the index on keep their absolute positions, the last index stays the same, the entry at
  the index becomes the first one with its term as the snapshot's term, and the result is stored;
  at an older index it does nothing, and beyond the log it panics.\<close>

lemma Snapshot_trims:
  "Snapshot alloc index rf =
     (if index \<le> lastIncludedIndex rf then Some rf
      else if index \<le> lastIndex rf
      then Some (persist (rf\<lparr>lastIncludedTerm := e_Term (log_at rf index),
             rlog := map (log_at rf) [index..lastIndex rf],
             logcap := max (nat (lastIndex rf - index + 1)) (alloc (nat (lastIndex rf - index + 1))),
             lastIncludedIndex := index\<rparr>))
      else None)"
proof -
  have n: "nat (index + int i - l) = i + nat (index - l)" if "l < index" for i l
    using that by arith
  have "drop (nat (index - lastIncludedIndex rf)) (rlog rf) = map (log_at rf) [index..lastIndex rf]"
    if "lastIncludedIndex rf < index" "index \<le> lastIndex rf"
    using that by (intro nth_equalityI) (auto simp: lastIndex_def log_at_def n add.commute)
  moreover have "nat (lastIndex rf - index + 1) = length (rlog rf) - nat (index - lastIncludedIndex rf)"
    if "lastIncludedIndex rf < index" "index \<le> lastIndex rf"
    using that by (auto simp: lastIndex_def)
  ultimately show ?thesis
    by (auto simp: Snapshot_def slice_get_def slice_from_def getRelativeIndex_def d_serialEntries_def
        serialEntries_def lastIndex_def log_at_def)
qed


subsection \<open>Witnesses\<close>

lemmas fresh_log_simps = fresh_raft_def in_log_def lastIndex_def log_at_def


text \<open>A peer whose log starts with the snapshot at index 2 and holds one more entry of the same term.\<close>

definition trimmed_raft :: Raft where
  "trimmed_raft = fresh_raft\<lparr>currentTerm := 1, lastIncludedIndex := 2, lastIncludedTerm := 1,
     rlog := [\<lparr>e_Term = 1, e_Command = IInt 10\<rparr>, \<lparr>e_Term = 1, e_Command = IInt 20\<rparr>], logcap := 2\<rparr>"

text \<open>Peer 0 as leader of three, its first command held by peer 1.\<close>

definition leader_raft :: Raft where
  "leader_raft = (persist ((becomeLeaderInit voted_raft)\<lparr>rlog := [\<lparr>e_Term = 0, e_Command = INil\<rparr>,
     \<lparr>e_Term = 1, e_Command = IInt 10\<rparr>], logcap := 2\<rparr>))\<lparr>matchIndex := [0, 1, 0]\<rparr>"

theorem leaderApply_commits_majority_witness:
  "\<exists>rf'. leaderApply leader_raft = Some (rf', [command_msg leader_raft 1]) \<and> commitIndex rf' = 1"
proof -
  have "{k. k < 3 \<and> (int k = 0 \<or> 1 \<le> [0, 1, 0 :: int] ! k)} = {0, 1}"
    by (auto simp: less_Suc_eq numeral_3_eq_3)
  then have maj: "majority_holds leader_raft 1"
    by (simp add: majority_holds_def leader_raft_def becomeLeaderInit_def voted_raft_def fresh_raft_def persist_def)
  have f: "lastIndex leader_raft = 1" "commitIndex leader_raft = 0" "lastApplied leader_raft = 0"
    by (simp_all add: lastIndex_def leader_raft_def becomeLeaderInit_def voted_raft_def fresh_raft_def)
  have "length (matchIndex leader_raft) = peers leader_raft" "status leader_raft = ''leader''" "2 \<le> peers leader_raft"
    "0 \<le> me leader_raft" "me leader_raft < int (peers leader_raft)"
    "lastIncludedIndex leader_raft \<le> lastApplied leader_raft + 1"
    by (simp_all add: leader_raft_def becomeLeaderInit_def voted_raft_def fresh_raft_def)
  from leaderApply_commits_majority [OF this] obtain rf' ms where r: "leaderApply leader_raft = Some (rf', ms)"
    "0 < commitIndex rf'" "commitIndex rf' \<le> 1" "ms = map (command_msg leader_raft) [1..commitIndex rf']"
    using maj by (auto simp: f split: if_splits)
  moreover from r(2,3) have "commitIndex rf' = 1" by simp
  ultimately show ?thesis by simp
qed

end
