(* ===== verification/Raft_Cluster.thy ===== *)
theory Raft_Cluster
  imports Raft_Election Raft_Log
begin

text \<open>
  The whole protocol in a cluster.  To the elections of \<open>cl_do\<close> come the goroutines that the peers
  start, the calls of \<^verbatim>\<open>AppendEntries\<close> and \<^verbatim>\<open>InstallSnapshot\<close> that they make, the commands that clients start, and
  what the peers send to their services on \<^verbatim>\<open>applyCh\<close>.  Everything that has been started waits in a list and
  may go on in any order: a goroutine runs (\<open>SGo\<close>), a request reaches its server (\<open>SHandle\<close>), a reply
  reaches its caller (\<open>SReply\<close>), or a call is lost (\<open>SLose\<close>).  A call whose caller has been restarted still
  reaches its server.  A service passes the snapshots that it receives back to its peer
  (\<open>SCond\<close>) and takes snapshots of its own (\<open>SSnapshot\<close>).  An action that panics ends the process and has
  no successor.
\<close>

subsection \<open>State and actions\<close>

datatype rpc_call =
    HeartBeat AppendEntriesArgs
  | HeartBeatReply AppendEntriesReply
  | Entries AppendEntriesArgs int
  | EntriesReply int AppendEntriesReply
  | InstallSnap InstallSnapshotArgs
  | InstallSnapReply int

record raft_sys =
  base :: cluster
  pending :: "(nat \<times> go_call) list"
  calls :: "(nat option \<times> nat \<times> rpc_call) list"
  applied :: "(nat \<times> ApplyMsg) list"
  proposed :: "iface set"

datatype sys_action =
    SElection cl_action
  | SStart nat "nat \<Rightarrow> nat" iface
  | SHeartBeats nat
  | SGo nat
  | SHandle nat "nat \<Rightarrow> nat" int
  | SReply nat int
  | SLose nat
  | SCond nat nat
  | SSnapshot nat "nat \<Rightarrow> nat" int
  | SKill nat

definition peer :: "nat \<Rightarrow> raft_sys \<Rightarrow> Raft" where
  "peer i s = fst (nodes (base s) ! i)"

definition set_peer :: "nat \<Rightarrow> Raft \<Rightarrow> raft_sys \<Rightarrow> raft_sys" where
  "set_peer i rf s = s\<lparr>base := set_node i (rf, snd (nodes (base s) ! i)) (base s)\<rparr>"

definition is_peer :: "nat \<Rightarrow> raft_sys \<Rightarrow> bool" where
  "is_peer i s \<longleftrightarrow> i < length (nodes (base s))"

definition spawn :: "nat \<Rightarrow> go_call list \<Rightarrow> raft_sys \<Rightarrow> raft_sys" where
  "spawn i gos s = s\<lparr>pending := pending s @ map (Pair i) gos\<rparr>"

definition deliver :: "nat \<Rightarrow> ApplyMsg list \<Rightarrow> raft_sys \<Rightarrow> raft_sys" where
  "deliver i ms s = s\<lparr>applied := applied s @ map (Pair i) ms\<rparr>"

definition add_call :: "nat \<Rightarrow> int \<Rightarrow> rpc_call \<Rightarrow> raft_sys \<Rightarrow> raft_sys" where
  "add_call i j c s = s\<lparr>calls := calls s @ [(Some i, nat j, c)]\<rparr>"

definition without :: "nat \<Rightarrow> 'a list \<Rightarrow> 'a list" where
  "without k xs = take k xs @ drop (Suc k) xs"

subsection \<open>Steps\<close>

text \<open>The three functions that make a call: the end of the server is looked up, and the call names the handler.  The network, here
  \<open>call\<close>, is what \<open>SHandle\<close>, \<open>SReply\<close> and \<open>SLose\<close> stand for below.\<close>

definition sendRequestVote :: "('e \<Rightarrow> string \<Rightarrow> RequestVoteArgs \<Rightarrow> RequestVoteReply option) \<Rightarrow> 'e list \<Rightarrow> int \<Rightarrow> RequestVoteArgs \<Rightarrow> RequestVoteReply option option" where
  "sendRequestVote call es server args = do { e \<leftarrow> slice_get es server; Some (call e ''Raft.RequestVote'' args) }"

definition sendAppendEntries :: "('e \<Rightarrow> string \<Rightarrow> AppendEntriesArgs \<Rightarrow> AppendEntriesReply option) \<Rightarrow> 'e list \<Rightarrow> int \<Rightarrow> AppendEntriesArgs \<Rightarrow> AppendEntriesReply option option" where
  "sendAppendEntries call es server args = do { e \<leftarrow> slice_get es server; Some (call e ''Raft.AppendEntries'' args) }"

definition sendInstallSnapshot :: "('e \<Rightarrow> string \<Rightarrow> InstallSnapshotArgs \<Rightarrow> int option) \<Rightarrow> 'e list \<Rightarrow> int \<Rightarrow> InstallSnapshotArgs \<Rightarrow> int option option" where
  "sendInstallSnapshot call es server args = do { e \<leftarrow> slice_get es server; Some (call e ''Raft.InstallSnapshot'' args) }"

text \<open>A goroutine runs up to its call, or to its end.\<close>

fun run_go :: "nat \<Rightarrow> go_call \<Rightarrow> raft_sys \<Rightarrow> raft_sys option" where
  "run_go i (GoApplyNewCommand newIndex) s = do {
     (rf, ms) \<leftarrow> applyNewCommand newIndex (peer i s);
     Some (deliver i ms (set_peer i rf s))
   }"
| "run_go i GoReplicatedEntries s = Some (spawn i (replicatedEntries (peer i s)) s)"
| "run_go i (GoReplicatedEntriesToOne j) s = do {
     r \<leftarrow> replicatedEntriesToOne_send j (peer i s);
     Some (case r of None \<Rightarrow> s | Some (args, sendLogLastIndex) \<Rightarrow> add_call i j (Entries args sendLogLastIndex) s)
   }"
| "run_go i (GoSendInstallSnapshotToOne j) s = do {
     r \<leftarrow> sendInstallSnapshotToOne_send j (peer i s);
     Some (case r of None \<Rightarrow> s | Some args \<Rightarrow> add_call i j (InstallSnap args) s)
   }"
| "run_go i (GoSendHeartBeatToOne j) s = do {
     r \<leftarrow> sendHeartBeatToOne_send j (peer i s);
     Some (case r of None \<Rightarrow> s | Some args \<Rightarrow> add_call i j (HeartBeat args) s)
   }"
| "run_go i (GoSendApplyMsg m) s = Some (deliver i [m] s)"
| "run_go i GoStartElection s = None"
| "run_go i GoStartSendHeartBeats s = None"

text \<open>The server \<open>j\<close> handles a request; the call then holds the reply.\<close>

fun handle_call :: "(nat \<Rightarrow> nat) \<Rightarrow> int \<Rightarrow> nat \<Rightarrow> rpc_call \<Rightarrow> raft_sys \<Rightarrow> (rpc_call \<times> raft_sys) option" where
  "handle_call alloc now j (HeartBeat args) s = do {
     (rf, reply, gos) \<leftarrow> AppendEntries alloc now args (peer j s);
     Some (HeartBeatReply reply, spawn j gos (set_peer j rf s))
   }"
| "handle_call alloc now j (Entries args sendLogLastIndex) s = do {
     (rf, reply, gos) \<leftarrow> AppendEntries alloc now args (peer j s);
     Some (EntriesReply sendLogLastIndex reply, spawn j gos (set_peer j rf s))
   }"
| "handle_call alloc now j (InstallSnap args) s =
     (let (rf, replyTerm, gos) = InstallSnapshot now args (peer j s)
      in Some (InstallSnapReply replyTerm, spawn j gos (set_peer j rf s)))"
| "handle_call alloc now j c s = None"

text \<open>The caller \<open>i\<close> goes on with the reply of server \<open>j\<close>.\<close>

fun handle_reply :: "int \<Rightarrow> nat \<Rightarrow> nat \<Rightarrow> rpc_call \<Rightarrow> raft_sys \<Rightarrow> raft_sys option" where
  "handle_reply now i j (HeartBeatReply reply) s = do {
     (rf, gos) \<leftarrow> sendHeartBeatToOne_reply now (int j) reply (peer i s);
     Some (spawn i gos (set_peer i rf s))
   }"
| "handle_reply now i j (EntriesReply sendLogLastIndex reply) s = do {
     (rf, ms) \<leftarrow> replicatedEntriesToOne_reply now (int j) sendLogLastIndex reply (peer i s);
     Some (deliver i ms (set_peer i rf s))
   }"
| "handle_reply now i j (InstallSnapReply replyTerm) s = do {
     rf \<leftarrow> sendInstallSnapshotToOne_reply (int j) replyTerm (peer i s);
     Some (set_peer i rf s)
   }"
| "handle_reply now i j c s = None"

text \<open>A restart ends the goroutines of the old instance.\<close>

definition orphan :: "cl_action \<Rightarrow> raft_sys \<Rightarrow> raft_sys" where
  "orphan a s = (case a of
     ARestart i now r \<Rightarrow> s\<lparr>pending := filter (\<lambda>(j, g). j \<noteq> i) (pending s),
       calls := map (\<lambda>(caller, j, c). (if caller = Some i then None else caller, j, c)) (calls s)\<rparr>
   | _ \<Rightarrow> s)"

fun sys_do :: "sys_action \<Rightarrow> raft_sys \<Rightarrow> raft_sys option" where
  "sys_do (SElection a) s = do { b \<leftarrow> cl_do a (base s); Some (orphan a (s\<lparr>base := b\<rparr>)) }"
| "sys_do (SStart i alloc command) s =
     (if is_peer i s then
        let (rf, res, gos) = Start alloc command (peer i s)
        in Some (spawn i gos (set_peer i rf (s\<lparr>proposed := insert command (proposed s)\<rparr>)))
      else None)"
| "sys_do (SHeartBeats i) s =
     (if is_peer i s then map_option (\<lambda>gos. spawn i gos s) (sendHeartBeats_round (peer i s)) else None)"
| "sys_do (SGo k) s =
     (if k < length (pending s) then
        let (i, g) = pending s ! k in
        if is_peer i s then run_go i g (s\<lparr>pending := without k (pending s)\<rparr>) else None
      else None)"
| "sys_do (SHandle k alloc now) s =
     (if k < length (calls s) then
        let (caller, j, c) = calls s ! k in
        if is_peer j s then do {
          (c', s') \<leftarrow> handle_call alloc now j c s;
          Some (s'\<lparr>calls := (calls s')[k := (caller, j, c')]\<rparr>)
        } else None
      else None)"
| "sys_do (SReply k now) s =
     (if k < length (calls s) then
        let (caller, j, c) = calls s ! k; s1 = s\<lparr>calls := without k (calls s)\<rparr> in
        (case caller of None \<Rightarrow> Some s1 | Some i \<Rightarrow> if is_peer i s then handle_reply now i j c s1 else None)
      else None)"
| "sys_do (SLose k) s = (if k < length (calls s) then Some (s\<lparr>calls := without k (calls s)\<rparr>) else None)"
| "sys_do (SCond i k) s =
     (if is_peer i s \<and> k < length (applied s) \<and> fst (applied s ! k) = i \<and> SnapshotValid (snd (applied s ! k)) then do {
        let m = snd (applied s ! k);
        (rf, ok) \<leftarrow> CondInstallSnapshot (SnapshotTerm m) (SnapshotIndex m) (am_Snapshot m) (peer i s);
        Some (set_peer i rf s)
      } else None)"
| "sys_do (SSnapshot i alloc index) s =
     (if is_peer i s then do { rf \<leftarrow> Snapshot alloc index (peer i s); Some (set_peer i rf s) } else None)"
| "sys_do (SKill i) s = (if is_peer i s then Some (set_peer i (Kill (peer i s)) s) else None)"

definition boot_sys :: "nat \<Rightarrow> int \<Rightarrow> raft_sys" where
  "boot_sys n r = \<lparr>base = boot_cluster n r, pending = [], calls = [], applied = [], proposed = {}\<rparr>"

inductive sys_reach :: "nat \<Rightarrow> raft_sys \<Rightarrow> bool" for n where
  boot: "sys_reach n (boot_sys n r)"
| act: "sys_reach n s \<Longrightarrow> sys_do a s = Some t \<Longrightarrow> sys_reach n t"

fun sys_run :: "sys_action list \<Rightarrow> raft_sys \<Rightarrow> raft_sys option" where
  "sys_run [] s = Some s"
| "sys_run (a # as) s = do { t \<leftarrow> sys_do a s; sys_run as t }"

lemma sys_run_reach: "sys_run as s = Some t \<Longrightarrow> sys_reach n s \<Longrightarrow> sys_reach n t"
  by (induction as arbitrary: s) (auto simp: option_bind_simps intro: sys_reach.act)

subsection \<open>The cluster refines the model of elections\<close>

text \<open>What a step does to the peers: an action of the model of elections, a section of the code of one peer, or nothing.\<close>

inductive base_step :: "cluster \<Rightarrow> cluster \<Rightarrow> bool" where
  election: "cl_do a b = Some b' \<Longrightarrow> base_step b b'"
| one_peer: "i < length (nodes b) \<Longrightarrow> passive_step (fst (nodes b ! i)) rf \<Longrightarrow> base_step b (set_node i (rf, snd (nodes b ! i)) b)"
| stutter: "base_step b b"

declare base_step.stutter [simp]

lemma spawn_sel [simp]:
  "base (spawn i gos s) = base s" "calls (spawn i gos s) = calls s" "applied (spawn i gos s) = applied s" "proposed (spawn i gos s) = proposed s"
  "pending (spawn i gos s) = pending s @ map (Pair i) gos"
  by (simp_all add: spawn_def)

lemma deliver_sel [simp]:
  "base (deliver i ms s) = base s" "calls (deliver i ms s) = calls s" "pending (deliver i ms s) = pending s" "proposed (deliver i ms s) = proposed s"
  "applied (deliver i ms s) = applied s @ map (Pair i) ms"
  by (simp_all add: deliver_def)

lemma add_call_sel [simp]:
  "base (add_call i j c s) = base s" "applied (add_call i j c s) = applied s" "pending (add_call i j c s) = pending s"
  "proposed (add_call i j c s) = proposed s" "calls (add_call i j c s) = calls s @ [(Some i, nat j, c)]"
  by (simp_all add: add_call_def)

lemma set_peer_sel [simp]:
  "base (set_peer i rf s) = set_node i (rf, snd (nodes (base s) ! i)) (base s)" "applied (set_peer i rf s) = applied s"
  "pending (set_peer i rf s) = pending s" "proposed (set_peer i rf s) = proposed s" "calls (set_peer i rf s) = calls s"
  by (simp_all add: set_peer_def)

lemma base_step_peer: "is_peer i s \<Longrightarrow> passive_step (peer i s) rf \<Longrightarrow> base_step (base s) (set_node i (rf, snd (nodes (base s) ! i)) (base s))"
  unfolding is_peer_def peer_def by (rule base_step.one_peer)

lemmas passive_intros = passive_step.append_entries passive_step.install_snapshot passive_step.cond_install passive_step.take_snapshot
  passive_step.start passive_step.kill passive_step.apply_new passive_step.heartbeat_reply passive_step.snapshot_reply passive_step.replicate_reply

lemmas peer_steps = passive_intros [THEN base_step_peer [rotated]]

lemma run_go_base: "run_go i g s = Some t \<Longrightarrow> is_peer i s \<Longrightarrow> base_step (base s) (base t)"
  by (cases g) (auto simp: option_bind_simps intro: peer_steps split: option.splits)

lemma handle_call_base: "handle_call alloc now j c s = Some (c', t) \<Longrightarrow> is_peer j s \<Longrightarrow> base_step (base s) (base t)"
  by (cases c) (auto simp: option_bind_simps intro: peer_steps split: prod.splits)

lemma handle_reply_base: "handle_reply now i j c s = Some t \<Longrightarrow> is_peer i s \<Longrightarrow> base_step (base s) (base t)"
  by (cases c) (auto simp: option_bind_simps intro: peer_steps)

lemma orphan_sel [simp]: "base (orphan a s) = base s" "applied (orphan a s) = applied s" "proposed (orphan a s) = proposed s"
  by (simp_all add: orphan_def split: cl_action.split)

lemma is_peer_update [simp]:
  "is_peer i (s\<lparr>pending := p\<rparr>) = is_peer i s" "is_peer i (s\<lparr>calls := c\<rparr>) = is_peer i s" "is_peer i (s\<lparr>proposed := P\<rparr>) = is_peer i s"
  "peer i (s\<lparr>pending := p\<rparr>) = peer i s" "peer i (s\<lparr>calls := c\<rparr>) = peer i s" "peer i (s\<lparr>proposed := P\<rparr>) = peer i s"
  by (simp_all add: is_peer_def peer_def)

lemma sys_do_base:
  assumes "sys_do a s = Some t"
  shows "base_step (base s) (base t)"
proof (cases a)
  case (SElection b)
  then show ?thesis using assms by (auto simp: option_bind_simps intro: base_step.election)
next
  case (SStart i alloc command)
  then show ?thesis using assms by (auto simp: Let_def intro: peer_steps split: if_splits prod.splits)
next
  case (SGo k)
  then show ?thesis using assms run_go_base by (fastforce simp: Let_def split: if_splits prod.splits)
next
  case (SHandle k alloc now)
  then show ?thesis using assms handle_call_base by (fastforce simp: Let_def option_bind_simps split: if_splits prod.splits)
next
  case (SReply k now)
  then show ?thesis using assms handle_reply_base
    by (fastforce simp: Let_def split: if_splits prod.splits option.splits)
qed (use assms in \<open>auto simp: option_bind_simps Let_def intro: peer_steps split: if_splits\<close>)

lemma sys_reach_base: "sys_reach n s \<Longrightarrow> cl_reach n (base s)"
proof (induction rule: sys_reach.induct)
  case (boot r)
  show ?case by (simp add: boot_sys_def cl_reach.boot)
next
  case (act s a t)
  have len: "length (nodes (base s)) = n" using cl_reach_inv [OF act.IH] by (simp add: cl_inv_def)
  from sys_do_base [OF act.hyps(2)] show ?case
  proof cases
    case (one_peer i rf)
    have "nodes (base s) ! i = (fst (nodes (base s) ! i), snd (nodes (base s) ! i))" by simp
    from cl_reach.local_step [OF act.IH _ this one_peer(3)] one_peer len show ?thesis by simp
  qed (use act.IH in \<open>auto intro: cl_reach.act\<close>)
qed

end
