(* ===== verification/Raft_Validity.thy ===== *)
theory Raft_Validity
  imports Raft_Cluster
begin

text \<open>
  Validity of the cluster of \<open>Raft_Cluster\<close>: what a peer sends to its service has been started by a
  client.  Commands travel through logs, the files of the persisters, the entries and snapshots of calls, and the
  arguments of goroutines; the invariant \<open>sys_ok\<close> speaks of all of them.
\<close>

subsection \<open>Where commands come from\<close>

text \<open>
  \<open>P\<close> are the commands that clients have started.  All entries of a log hold such commands, except that
  the first one, which stands for the snapshot, is empty as long as there is none.
\<close>

definition log_ok :: "iface set \<Rightarrow> Entry list \<Rightarrow> int \<Rightarrow> bool" where
  "log_ok P l lii \<longleftrightarrow> l \<noteq> [] \<and> e_Command ` set (tl l) \<subseteq> P \<and> (e_Command (hd l) \<in> P \<or> e_Command (hd l) = INil \<and> lii = 0)"

definition disk_log_ok :: "iface set \<Rightarrow> bytes \<Rightarrow> bool" where
  "disk_log_ok P b \<longleftrightarrow> b = [] \<or> (\<exists>x y z l u lii. b = [GInt x, GInt y, GInt z, GEntries l, GInt u, GInt lii] \<and> log_ok P l lii \<and> 0 \<le> lii)"

definition snap_ok :: "iface set \<Rightarrow> bytes \<Rightarrow> bool" where
  "snap_ok P b \<longleftrightarrow> (\<forall>c d. decode_int b = Some (c, d) \<longrightarrow> IInt c \<in> P)"

definition entries_ok :: "iface set \<Rightarrow> bytes \<Rightarrow> bool" where
  "entries_ok P b \<longleftrightarrow> (\<forall>es. d_serialEntries b = Some es \<longrightarrow> e_Command ` set es \<subseteq> P)"

definition peer_ok :: "iface set \<Rightarrow> Raft \<Rightarrow> bool" where
  "peer_ok P rf \<longleftrightarrow> log_ok P (rlog rf) (lastIncludedIndex rf) \<and> disk_log_ok P (raftstate (persister rf))
     \<and> 0 \<le> lastApplied rf \<and> 0 \<le> commitIndex rf \<and> 0 \<le> lastIncludedIndex rf"

definition msg_ok :: "iface set \<Rightarrow> ApplyMsg \<Rightarrow> bool" where
  "msg_ok P m \<longleftrightarrow> (CommandValid m \<longrightarrow> am_Command m \<in> P) \<and> (SnapshotValid m \<longrightarrow> snap_ok P (am_Snapshot m))"

fun go_ok :: "iface set \<Rightarrow> go_call \<Rightarrow> bool" where
  "go_ok P (GoApplyNewCommand newIndex) \<longleftrightarrow> 0 \<le> newIndex"
| "go_ok P (GoSendApplyMsg m) \<longleftrightarrow> msg_ok P m"
| "go_ok P g \<longleftrightarrow> True"

fun call_ok :: "iface set \<Rightarrow> rpc_call \<Rightarrow> bool" where
  "call_ok P (HeartBeat args) \<longleftrightarrow> entries_ok P (ae_Entries args)"
| "call_ok P (Entries args _) \<longleftrightarrow> entries_ok P (ae_Entries args)"
| "call_ok P (InstallSnap args) \<longleftrightarrow> snap_ok P (is_Snapshot args)"
| "call_ok P c \<longleftrightarrow> True"

definition sys_ok :: "raft_sys \<Rightarrow> bool" where
  "sys_ok s \<longleftrightarrow> (\<forall>x \<in> set (nodes (base s)). peer_ok (proposed s) (fst x))
     \<and> (\<forall>(i, g) \<in> set (pending s). go_ok (proposed s) g)
     \<and> (\<forall>(caller, j, c) \<in> set (calls s). call_ok (proposed s) c)
     \<and> (\<forall>(i, m) \<in> set (applied s). msg_ok (proposed s) m)"

text \<open>More commands do no harm.\<close>

lemma log_ok_mono: "log_ok P l k \<Longrightarrow> P \<subseteq> Q \<Longrightarrow> log_ok Q l k"
  by (auto simp: log_ok_def)

lemma disk_log_ok_mono: "disk_log_ok P b \<Longrightarrow> P \<subseteq> Q \<Longrightarrow> disk_log_ok Q b"
  unfolding disk_log_ok_def by (blast intro: log_ok_mono)

lemma snap_ok_mono: "snap_ok P b \<Longrightarrow> P \<subseteq> Q \<Longrightarrow> snap_ok Q b"
  by (auto simp: snap_ok_def)

lemma entries_ok_mono: "entries_ok P b \<Longrightarrow> P \<subseteq> Q \<Longrightarrow> entries_ok Q b"
  by (auto simp: entries_ok_def)

lemma peer_ok_mono: "peer_ok P rf \<Longrightarrow> P \<subseteq> Q \<Longrightarrow> peer_ok Q rf"
  by (auto simp: peer_ok_def intro: log_ok_mono disk_log_ok_mono)

lemma msg_ok_mono: "msg_ok P m \<Longrightarrow> P \<subseteq> Q \<Longrightarrow> msg_ok Q m"
  by (auto simp: msg_ok_def intro: snap_ok_mono)

lemma go_ok_mono: "go_ok P g \<Longrightarrow> P \<subseteq> Q \<Longrightarrow> go_ok Q g"
  by (cases g) (auto intro: msg_ok_mono)

lemma call_ok_mono: "call_ok P c \<Longrightarrow> P \<subseteq> Q \<Longrightarrow> call_ok Q c"
  by (cases c) (auto intro: snap_ok_mono entries_ok_mono)

lemma sys_ok_propose: "sys_ok s \<Longrightarrow> sys_ok (s\<lparr>proposed := insert command (proposed s)\<rparr>)"
  unfolding sys_ok_def
  by (auto intro: peer_ok_mono [OF _ subset_insertI] go_ok_mono [OF _ subset_insertI] call_ok_mono [OF _ subset_insertI] msg_ok_mono [OF _ subset_insertI])

text \<open>Changes of a peer that do not touch its log, and writing it to the disk.\<close>

lemma peer_ok_persist [simp]:
  assumes "peer_ok P rf" shows "peer_ok P (persist rf)"
  using assms by (auto simp: peer_ok_def disk_log_ok_def persist_def SaveRaftState_def clone_bytes_def raft_bytes_def)

lemma peer_ok_update [simp]:
  "peer_ok P (rf\<lparr>status := a\<rparr>) = peer_ok P rf" "peer_ok P (rf\<lparr>lastTime := b\<rparr>) = peer_ok P rf" "peer_ok P (rf\<lparr>electionTime := b\<rparr>) = peer_ok P rf"
  "peer_ok P (rf\<lparr>currentTerm := b\<rparr>) = peer_ok P rf" "peer_ok P (rf\<lparr>votedFor := b\<rparr>) = peer_ok P rf" "peer_ok P (rf\<lparr>votedTerm := b\<rparr>) = peer_ok P rf"
  "peer_ok P (rf\<lparr>leaderId := b\<rparr>) = peer_ok P rf" "peer_ok P (rf\<lparr>largestIndexMathWithLeader := b\<rparr>) = peer_ok P rf"
  "peer_ok P (rf\<lparr>nextIndex := c\<rparr>) = peer_ok P rf" "peer_ok P (rf\<lparr>matchIndex := c\<rparr>) = peer_ok P rf" "peer_ok P (rf\<lparr>dead := b\<rparr>) = peer_ok P rf"
  "peer_ok P (rf\<lparr>logcap := d\<rparr>) = peer_ok P rf"
  by (simp_all add: peer_ok_def)

lemma peer_ok_log: "peer_ok P rf \<Longrightarrow> log_ok P l (lastIncludedIndex rf) \<Longrightarrow> peer_ok P (rf\<lparr>rlog := l\<rparr>)"
  by (simp add: peer_ok_def)

lemma peer_ok_applied: "peer_ok P rf \<Longrightarrow> 0 \<le> k \<Longrightarrow> peer_ok P (rf\<lparr>lastApplied := k\<rparr>)" "peer_ok P rf \<Longrightarrow> 0 \<le> k \<Longrightarrow> peer_ok P (rf\<lparr>commitIndex := k\<rparr>)"
  by (simp_all add: peer_ok_def)

lemma entry_ok:
  assumes "log_ok P l k" and "x \<in> set (drop j l)" and "0 < j"
  shows "e_Command x \<in> P"
proof -
  have "x \<in> set (tl l)" using assms(2,3) set_drop_subset [of "j - 1" "tl l"] by (cases l; cases j) auto
  then show ?thesis using assms(1) by (auto simp: log_ok_def)
qed

lemma nth_ok: "log_ok P l k \<Longrightarrow> j < length l \<Longrightarrow> 0 < j \<or> k \<noteq> 0 \<Longrightarrow> e_Command (l ! j) \<in> P"
  by (cases j; cases l) (auto simp: log_ok_def)

subsection \<open>Every section keeps to started commands\<close>

lemma RequestVote_peer_ok: "RequestVote now args rf = Some (rf', reply) \<Longrightarrow> peer_ok P rf \<Longrightarrow> peer_ok P rf'"
  by (auto simp: RequestVote_def Let_def option_bind_simps split: if_splits)

lemma ticker_start_peer_ok: "ticker_start now r rf = Some (rf', el) \<Longrightarrow> peer_ok P rf \<Longrightarrow> peer_ok P rf'"
  by (auto simp: ticker_start_def Let_def option_bind_simps split: if_splits)

lemma vote_reply_peer_ok: "vote_reply reply (rf, el) = ((rf', el'), b) \<Longrightarrow> peer_ok P rf \<Longrightarrow> peer_ok P rf'"
  by (auto simp: vote_reply_def split: if_splits)

lemma ticker_end_peer_ok: "ticker_end rf el = (rf', gos) \<Longrightarrow> peer_ok P rf \<Longrightarrow> peer_ok P rf'"
  by (auto simp: ticker_end_def becomeLeaderInit_def split: if_splits)

lemma checkState_peer_ok: "checkState_round now rf = (rf', gos) \<Longrightarrow> peer_ok P rf \<Longrightarrow> peer_ok P rf'"
  by (auto simp: checkState_round_def split: if_splits)

lemma Make_peer_ok:
  assumes "Make alloc now r n self ps = Some rf" and "disk_log_ok P (raftstate ps)"
  shows "peer_ok P rf"
  using assms
  by (auto simp: Make_def readPersist_def ReadRaftState_def clone_bytes_def peer_ok_def disk_log_ok_def log_ok_def image_subset_iff split: if_splits)

lemma append_log_ok:
  assumes "log_ok P (rlog rf) lii" and "0 < k" "k \<le> length (rlog rf)" and "e_Command ` set es \<subseteq> P"
    and "append_log alloc k es rf = (newLog, newCap, oldLog)"
  shows "log_ok P newLog lii \<and> log_ok P oldLog lii"
proof -
  obtain x xs k' where x: "rlog rf = x # xs" "k = Suc k'" using assms(2,3) by (cases "rlog rf"; cases k) auto
  have new: "newLog = x # take k' xs @ es" using assms(5) x by (auto simp: append_log_def Let_def split: if_splits)
  have xs: "e_Command ` set xs \<subseteq> P" using assms(1) x by (auto simp: log_ok_def)
  then have tk: "e_Command ` set (take k' xs) \<subseteq> P" using set_take_subset [of k' xs] by blast
  then have a: "log_ok P newLog lii" using assms(1,4) x new by (auto simp: log_ok_def)
  have "oldLog = rlog rf \<or> oldLog = x # take (length xs) (take k' xs @ es @ drop (length (take k' xs @ es)) xs)"
    using assms(5) x by (auto simp: append_log_def Let_def split: if_splits)
  moreover have "e_Command ` set (take m (take k' xs @ es @ drop d xs)) \<subseteq> P" for m d
  proof -
    have "e_Command ` set (take k' xs @ es @ drop d xs) \<subseteq> P" using tk assms(4) xs set_drop_subset [of d xs] by (auto simp: image_subset_iff)
    then show ?thesis using set_take_subset [of m "take k' xs @ es @ drop d xs"] by blast
  qed
  ultimately have "oldLog = rlog rf \<or> (\<exists>ys. oldLog = x # ys \<and> e_Command ` set ys \<subseteq> P)" by blast
  then have "log_ok P oldLog lii" using assms(1) x by (auto simp: log_ok_def)
  with a show ?thesis ..
qed

lemma store_entries_peer_ok:
  assumes "store_entries alloc prev es rf = Some rf'" and "peer_ok P rf" and "e_Command ` set es \<subseteq> P"
  shows "peer_ok P rf' \<and> commitIndex rf' = commitIndex rf"
proof (cases "es \<noteq> [] \<and> getRelativeIndex (prev + 1) rf > 0")
  case True
  then obtain p where p: "slice_to (rlog rf) (getRelativeIndex (prev + 1) rf) = Some p" using assms(1) by (auto simp: store_entries_def option_bind_simps)
  obtain newLog newCap oldLog where l: "append_log alloc (length p) es rf = (newLog, newCap, oldLog)" by (cases "append_log alloc (length p) es rf")
  have "0 < length p" "length p \<le> length (rlog rf)" using p True by (auto simp: slice_to_Some_iff)
  from append_log_ok [OF _ this assms(3) l] have ok: "log_ok P newLog (lastIncludedIndex rf)" "log_ok P oldLog (lastIncludedIndex rf)"
    using assms(2) by (auto simp: peer_ok_def)
  then show ?thesis using assms(1,2) True p l peer_ok_log [OF assms(2)] by (auto simp: store_entries_def split: if_splits)
qed (use assms(1,2) in \<open>auto simp: store_entries_def\<close>)

lemma AppendEntries_peer_ok:
  assumes "AppendEntries alloc now args rf = Some (rf', reply, gos)" and "peer_ok P rf" and "entries_ok P (ae_Entries args)"
  shows "peer_ok P rf' \<and> (\<forall>g \<in> set gos. go_ok P g)"
proof (cases "currentTerm rf > ae_Term args")
  case False
  define rf2 where "rf2 = (if currentTerm rf < ae_Term args then persist (rf\<lparr>currentTerm := ae_Term args\<rparr>) else rf)\<lparr>lastTime := now, status := ''follower''\<rparr>"
  have rf2: "peer_ok P rf2" using assms(2) by (simp add: rf2_def)
  obtain ok np where m: "isMatchPrevLog (ae_PrevLogIndex args) (ae_PrevLogTerm args) rf2 = Some (ok, np)"
    using assms(1) False by (auto simp: AppendEntries_def Let_def rf2_def option_bind_simps split: if_splits)
  show ?thesis
  proof (cases ok)
    case True
    then obtain es where es: "d_serialEntries (ae_Entries args) = Some es" "store_entries alloc (ae_PrevLogIndex args) es rf2 = Some rf'"
      using assms(1) False m by (auto simp: AppendEntries_def Let_def rf2_def option_bind_simps)
    then have "peer_ok P rf'" using store_entries_peer_ok [OF es(2) rf2] assms(3) by (auto simp: entries_ok_def)
    moreover have "gos = [] \<or> (\<exists>k. gos = [GoApplyNewCommand k] \<and> k > commitIndex rf')"
      using assms(1) False m True es by (auto simp: AppendEntries_def Let_def rf2_def split: if_splits)
    ultimately show ?thesis by (auto simp: peer_ok_def)
  next
    case False': False
    then show ?thesis using assms(1) False m rf2 by (auto simp: AppendEntries_def Let_def rf2_def)
  qed
qed (use assms(1,2) in \<open>auto simp: AppendEntries_def Let_def\<close>)

lemma Start_peer_ok:
  assumes "Start alloc command rf = (rf', res, gos)" and "peer_ok P rf" and "command \<in> P"
  shows "peer_ok P rf' \<and> (\<forall>g \<in> set gos. go_ok P g)"
proof -
  let ?e = "\<lparr>e_Term = currentTerm rf, e_Command = command\<rparr>"
  obtain newLog newCap oldLog where l: "append_log alloc (length (rlog rf)) [?e] rf = (newLog, newCap, oldLog)"
    by (cases "append_log alloc (length (rlog rf)) [?e] rf")
  have "log_ok P newLog (lastIncludedIndex rf)"
    using append_log_ok [OF _ _ _ _ l, of P "lastIncludedIndex rf"] assms(2,3) by (auto simp: peer_ok_def log_ok_def)
  then have "peer_ok P (rf\<lparr>rlog := newLog, logcap := newCap\<rparr>)" using peer_ok_log [OF assms(2)] by simp
  then show ?thesis using assms(1,2) l by (auto simp: Start_def Let_def split: if_splits)
qed

lemma apply_loop_msg_ok:
  assumes "apply_loop rf i stop = Some ms" and "peer_ok P rf" and "0 < i"
  shows "\<forall>m \<in> set ms. msg_ok P m"
  using assms
proof (induction rf i stop arbitrary: ms rule: apply_loop.induct)
  case (1 rf i stop)
  show ?case
  proof (cases "i \<le> stop")
    case True
    then obtain e ms' where e: "slice_get (rlog rf) (getRelativeIndex i rf) = Some e" "apply_loop rf (i + 1) stop = Some ms'"
        "ms = \<lparr>CommandValid = True, am_Command = e_Command e, CommandIndex = i, SnapshotValid = False,
               am_Snapshot = [], SnapshotTerm = 0, SnapshotIndex = 0\<rparr> # ms'"
      using "1.prems"(1) by (subst (asm) apply_loop.simps) (auto simp: option_bind_simps)
    have "e_Command e \<in> P"
      using nth_ok [of P "rlog rf" "lastIncludedIndex rf" "nat (i - lastIncludedIndex rf)"] e(1) "1.prems"(2,3)
      by (cases "lastIncludedIndex rf < i") (auto simp: slice_get_Some_iff getRelativeIndex_def peer_ok_def nat_less_iff)
    then show ?thesis using "1.IH" [OF True e(1,2)] "1.prems"(2,3) e(3) by (simp add: msg_ok_def)
  qed (use "1.prems"(1) in \<open>subst (asm) apply_loop.simps, simp\<close>)
qed

lemma commit_loop_above: "commit_loop rf i = Some (Some k) \<Longrightarrow> commitIndex rf < k"
proof (induction rf i rule: commit_loop.induct)
  case (1 rf i)
  from "1.prems" show ?case by (subst (asm) commit_loop.simps) (auto simp: option_bind_simps split: if_splits dest: "1.IH")
qed

lemma applyNewCommand_peer_ok:
  assumes "applyNewCommand newIndex rf = Some (rf', ms)" and "peer_ok P rf" and "0 \<le> newIndex"
  shows "peer_ok P rf' \<and> (\<forall>m \<in> set ms. msg_ok P m)"
proof -
  define rf1 where "rf1 = rf\<lparr>lastApplied := max_int (lastApplied rf) (lastIncludedIndex rf)\<rparr>"
  have rf1: "peer_ok P rf1" using assms(2) unfolding rf1_def by (intro peer_ok_applied) (auto simp: peer_ok_def)
  obtain ms' where ms: "apply_loop rf1 (lastApplied rf1 + 1) (min_int newIndex (getAbsoluteIndex (int (length (rlog rf)) - 1) rf)) = Some ms'"
      "ms = ms'" "rf' = rf1\<lparr>lastApplied := newIndex, commitIndex := newIndex\<rparr>"
    using assms(1) by (auto simp: applyNewCommand_def Let_def rf1_def option_bind_simps)
  then show ?thesis using apply_loop_msg_ok [OF ms(1) rf1] rf1 assms(3) by (auto simp: peer_ok_def)
qed

lemma leaderApply_peer_ok:
  assumes "leaderApply rf = Some (rf', ms)" and "peer_ok P rf"
  shows "peer_ok P rf' \<and> (\<forall>m \<in> set ms. msg_ok P m)"
proof (cases "status rf = ''leader''")
  case True
  then obtain r where r: "commit_loop rf (getAbsoluteIndex (int (length (rlog rf)) - 1) rf) = Some r"
    using assms(1) by (cases "commit_loop rf (getAbsoluteIndex (int (length (rlog rf)) - 1) rf)") (simp_all add: leaderApply_def)
  show ?thesis
  proof (cases r)
    case None
    then show ?thesis using assms True r by (simp add: leaderApply_def)
  next
    case (Some k)
    obtain ms' where k: "apply_loop rf (lastApplied rf + 1) k = Some ms'"
      using assms(1) True r Some by (cases "apply_loop rf (lastApplied rf + 1) k") (simp_all add: leaderApply_def)
    then have "rf' = rf\<lparr>commitIndex := k, lastApplied := k\<rparr>" "ms = ms'" using assms(1) True r Some by (simp_all add: leaderApply_def)
    with commit_loop_above [OF r [unfolded Some]] apply_loop_msg_ok [OF k assms(2)] assms(2) show ?thesis by (simp add: peer_ok_def)
  qed
qed (use assms in \<open>simp add: leaderApply_def\<close>)

lemma append_refused_peer_ok: "append_refused now j reply rf = Some rf' \<Longrightarrow> peer_ok P rf \<Longrightarrow> peer_ok P rf'"
  by (auto simp: append_refused_def option_bind_simps split: if_splits)

lemma sendHeartBeatToOne_reply_peer_ok:
  "sendHeartBeatToOne_reply now j reply rf = Some (rf', gos) \<Longrightarrow> peer_ok P rf \<Longrightarrow> peer_ok P rf' \<and> (\<forall>g \<in> set gos. go_ok P g)"
  by (auto simp: sendHeartBeatToOne_reply_def option_bind_simps split: if_splits intro: append_refused_peer_ok)

lemma sendInstallSnapshotToOne_reply_peer_ok:
  "sendInstallSnapshotToOne_reply j t rf = Some rf' \<Longrightarrow> peer_ok P rf \<Longrightarrow> peer_ok P rf'"
  by (auto simp: sendInstallSnapshotToOne_reply_def option_bind_simps split: if_splits)

lemma replicatedEntriesToOne_reply_peer_ok:
  assumes "replicatedEntriesToOne_reply now j lst reply rf = Some (rf', ms)" and "peer_ok P rf"
  shows "peer_ok P rf' \<and> (\<forall>m \<in> set ms. msg_ok P m)"
proof (cases "status rf = ''leader'' \<and> aer_Success reply")
  case True
  then obtain ni mi where "leaderApply (rf\<lparr>nextIndex := ni, matchIndex := mi\<rparr>) = Some (rf', ms)"
    using assms(1) by (auto simp: replicatedEntriesToOne_reply_def option_bind_simps)
  then show ?thesis by (rule leaderApply_peer_ok) (simp add: assms(2))
next
  case False
  then show ?thesis using assms append_refused_peer_ok [of now j reply rf _ P]
    by (auto simp: replicatedEntriesToOne_reply_def option_bind_simps split: if_splits)
qed

lemma CondInstallSnapshot_peer_ok:
  assumes "CondInstallSnapshot lit lii snap rf = Some (rf', b)" and "peer_ok P rf" and "snap_ok P snap"
  shows "peer_ok P rf'"
proof (cases "commitIndex rf \<ge> lii \<or> lastIncludedIndex rf \<ge> lii")
  case False
  then obtain cmd d where c: "decode_int snap = Some (cmd, d)"
      "rf' = persist (rf\<lparr>rlog := [\<lparr>e_Term = lit, e_Command = IInt cmd\<rparr>], logcap := 1, lastIncludedTerm := lit, lastIncludedIndex := lii,
                commitIndex := lii, lastApplied := lii\<rparr>)"
    using assms(1) by (auto simp: CondInstallSnapshot_def option_bind_simps)
  then have "peer_ok P (rf\<lparr>rlog := [\<lparr>e_Term = lit, e_Command = IInt cmd\<rparr>], logcap := 1, lastIncludedTerm := lit, lastIncludedIndex := lii,
                commitIndex := lii, lastApplied := lii\<rparr>)"
    using False assms(2,3) by (auto simp: peer_ok_def log_ok_def snap_ok_def)
  then show ?thesis unfolding c(2) by (rule peer_ok_persist)
qed (use assms(1,2) in \<open>auto simp: CondInstallSnapshot_def\<close>)

lemma Snapshot_peer_ok:
  assumes "Snapshot alloc index rf = Some rf'" and "peer_ok P rf"
  shows "peer_ok P rf'"
proof (cases "index \<le> lastIncludedIndex rf")
  case False
  define k where "k = nat (getRelativeIndex index rf)"
  have k: "0 < k" "k < length (rlog rf)" "slice_from (rlog rf) (getRelativeIndex index rf) = Some (drop k (rlog rf))"
    using assms(1) False by (auto simp: Snapshot_def option_bind_simps slice_get_Some_iff slice_from_Some_iff getRelativeIndex_def k_def)
  have l: "log_ok P (rlog rf) (lastIncludedIndex rf)" using assms(2) by (simp add: peer_ok_def)
  have all: "e_Command x \<in> P" if "x \<in> set (drop k (rlog rf))" for x by (rule entry_ok [OF l that k(1)])
  have ne: "drop k (rlog rf) \<noteq> []" using k(2) by simp
  then have "log_ok P (drop k (rlog rf)) index"
    unfolding log_ok_def using all list.set_sel(1) [OF ne] list.set_sel(2) [OF ne] by blast
  moreover obtain e where "rf' = persist (rf\<lparr>lastIncludedTerm := e, rlog := drop k (rlog rf),
       logcap := max (length (drop k (rlog rf))) (alloc (length (drop k (rlog rf)))), lastIncludedIndex := index\<rparr>)"
    using assms(1) False k(3) by (auto simp: Snapshot_def serialEntries_def d_serialEntries_def option_bind_simps)
  ultimately show ?thesis using assms(2) False by (simp only:) (rule peer_ok_persist, simp add: peer_ok_def)
qed (use assms in \<open>auto simp: Snapshot_def\<close>)

lemma InstallSnapshot_peer_ok:
  "InstallSnapshot now args rf = (rf', t, gos) \<Longrightarrow> peer_ok P rf \<Longrightarrow> snap_ok P (is_Snapshot args) \<Longrightarrow> peer_ok P rf' \<and> (\<forall>g \<in> set gos. go_ok P g)"
  by (auto simp: InstallSnapshot_def Let_def msg_ok_def split: if_splits)

text \<open>What a leader sends.\<close>

lemma entries_ok_Nil [simp]: "entries_ok P []"
  by (simp add: entries_ok_def d_serialEntries_def)

lemma replicatedEntriesToOne_send_ok:
  assumes "replicatedEntriesToOne_send j rf = Some (Some (args, lst))" and "peer_ok P rf"
  shows "entries_ok P (ae_Entries args)"
proof -
  obtain ni es where ni: "lastIncludedIndex rf < ni" "slice_from (rlog rf) (getRelativeIndex ni rf) = Some es" "ae_Entries args = serialEntries es"
    using assms(1) by (auto simp: replicatedEntriesToOne_send_def option_bind_simps not_le split: if_splits)
  then have "\<forall>x \<in> set es. e_Command x \<in> P"
    using entry_ok [of P "rlog rf" "lastIncludedIndex rf" _ "nat (getRelativeIndex ni rf)"] assms(2)
    by (auto simp: slice_from_Some_iff getRelativeIndex_def peer_ok_def)
  then show ?thesis using ni(3) by (auto simp: entries_ok_def d_serialEntries_def serialEntries_def)
qed

lemma sendHeartBeatToOne_send_ok: "sendHeartBeatToOne_send j rf = Some (Some args) \<Longrightarrow> ae_Entries args = []"
  by (auto simp: sendHeartBeatToOne_send_def option_bind_simps split: if_splits)

lemma sendInstallSnapshotToOne_send_ok:
  assumes "sendInstallSnapshotToOne_send j rf = Some (Some args)" and "peer_ok P rf"
  shows "snap_ok P (is_Snapshot args)"
proof -
  obtain e where e: "slice_get (rlog rf) 0 = Some e" "encode_iface (e_Command e) = Some (is_Snapshot args)"
    using assms(1) by (auto simp: sendInstallSnapshotToOne_send_def option_bind_simps split: if_splits)
  have "e = hd (rlog rf)" using e(1) by (auto simp: slice_get_Some_iff hd_conv_nth)
  then show ?thesis using e(2) [symmetric] assms(2) by (cases "e_Command e") (auto simp: snap_ok_def peer_ok_def log_ok_def)
qed

subsection \<open>Every step keeps to started commands\<close>

definition nodes_ok :: "iface set \<Rightarrow> cluster \<Rightarrow> bool" where
  "nodes_ok P b \<longleftrightarrow> (\<forall>x \<in> set (nodes b). peer_ok P (fst x))"

lemma nodes_ok_nth: "nodes_ok P b \<Longrightarrow> i < length (nodes b) \<Longrightarrow> peer_ok P (fst (nodes b ! i))"
  by (simp add: nodes_ok_def)

lemma nodes_ok_set_node:
  assumes "nodes_ok P b" and "i < length (nodes b) \<Longrightarrow> peer_ok P rf"
  shows "nodes_ok P (set_node i (rf, V) b)"
proof (cases "i < length (nodes b)")
  case True
  then show ?thesis using assms set_update_subset_insert [of "nodes b" i "(rf, V)"] by (fastforce simp: nodes_ok_def set_node_def)
qed (use assms(1) in \<open>simp add: nodes_ok_def set_node_def list_update_beyond\<close>)

lemma nodes_ok_frame [simp]:
  "nodes_ok P (b\<lparr>elections := e\<rparr>) = nodes_ok P b" "nodes_ok P (b\<lparr>tokens := t\<rparr>) = nodes_ok P b" "nodes_ok P (b\<lparr>rpc := r\<rparr>) = nodes_ok P b"
  "nodes_ok P (b\<lparr>won := w\<rparr>) = nodes_ok P b" "nodes_ok P (set_rpc i u j m b) = nodes_ok P b" "nodes_ok P (update_election i u f b) = nodes_ok P b"
  by (simp_all add: nodes_ok_def set_rpc_def update_election_def split: option.split)

lemma cl_do_nodes_ok:
  assumes "cl_do a b = Some b'" and ok: "nodes_ok P b"
  shows "nodes_ok P b'"
proof -
  have peer: "peer_ok P rf" if "nodes b ! i = (rf, V)" "i < length (nodes b)" for i rf V
    using nodes_ok_nth [OF ok that(2)] that(1) by simp
  show ?thesis
  proof (cases a)
    case (ACheckState i now)
    then show ?thesis using assms
      by (auto simp: Let_def split: if_splits prod.splits intro!: nodes_ok_set_node intro: checkState_peer_ok [OF _ peer])
  next
    case (AElect i now r)
    obtain rf V where rf: "nodes b ! i = (rf, V)" by (cases "nodes b ! i")
    have i: "i < length (nodes b)" using assms(1) AElect by (auto split: if_splits)
    have "peer_ok P rf'" if "ticker_start now r rf = Some (rf', res)" for rf' res
      using ticker_start_peer_ok [OF that peer [OF rf i]] .
    then show ?thesis using assms AElect rf
      by (auto simp: Let_def option_bind_simps split: if_splits option.splits intro!: nodes_ok_set_node)
  next
    case (ADeliver i t j now)
    then show ?thesis using assms
      by (auto simp: Let_def option_bind_simps split: vote_rpc.splits prod.splits intro!: nodes_ok_set_node intro: RequestVote_peer_ok [OF _ peer])
  next
    case (AReply i t j)
    then show ?thesis using assms
      by (auto simp: Let_def split: vote_rpc.splits prod.splits intro!: nodes_ok_set_node intro: vote_reply_peer_ok [OF _ peer])
  next
    case (AWake i now)
    then show ?thesis using assms
      by (auto simp: Let_def split: if_splits prod.splits option.splits intro!: nodes_ok_set_node intro: ticker_end_peer_ok [OF _ peer])
  next
    case (ARestart i now r)
    have "disk_log_ok P (raftstate (persister rf))" if "nodes b ! i = (rf, V)" "i < length (nodes b)" for rf V
      using peer [OF that] by (simp add: peer_ok_def)
    with ARestart show ?thesis using assms
      by (auto simp: Let_def option_bind_simps split: if_splits prod.splits intro!: nodes_ok_set_node intro: Make_peer_ok)
  qed (use assms in \<open>auto split: if_splits vote_rpc.splits\<close>)
qed

lemma sys_okI:
  assumes "nodes_ok (proposed s) (base s)" and "\<forall>(i, g) \<in> set (pending s). go_ok (proposed s) g"
    and "\<forall>(caller, j, c) \<in> set (calls s). call_ok (proposed s) c" and "\<forall>(i, m) \<in> set (applied s). msg_ok (proposed s) m"
  shows "sys_ok s"
  using assms by (simp add: sys_ok_def nodes_ok_def)

lemma sys_ok_peer: "sys_ok s \<Longrightarrow> is_peer i s \<Longrightarrow> peer_ok (proposed s) (peer i s)"
  by (auto simp: sys_ok_def is_peer_def peer_def)

lemma sys_ok_set_peer: "sys_ok s \<Longrightarrow> peer_ok (proposed s) rf \<Longrightarrow> sys_ok (set_peer i rf s)"
  using nodes_ok_set_node [of "proposed s" "base s" i rf "snd (nodes (base s) ! i)"] by (simp add: sys_ok_def nodes_ok_def)

lemma sys_ok_spawn: "sys_ok s \<Longrightarrow> \<forall>g \<in> set gos. go_ok (proposed s) g \<Longrightarrow> sys_ok (spawn i gos s)"
  by (auto simp: sys_ok_def)

lemma sys_ok_deliver: "sys_ok s \<Longrightarrow> \<forall>m \<in> set ms. msg_ok (proposed s) m \<Longrightarrow> sys_ok (deliver i ms s)"
  by (auto simp: sys_ok_def)

lemma sys_ok_add_call: "sys_ok s \<Longrightarrow> call_ok (proposed s) c \<Longrightarrow> sys_ok (add_call i j c s)"
  by (auto simp: sys_ok_def)

lemma set_without: "set (without k xs) \<subseteq> set xs"
  using set_take_subset [of k xs] set_drop_subset [of "Suc k" xs] by (auto simp: without_def)

lemma sys_ok_without:
  "sys_ok s \<Longrightarrow> sys_ok (s\<lparr>pending := without k (pending s)\<rparr>)" "sys_ok s \<Longrightarrow> sys_ok (s\<lparr>calls := without k (calls s)\<rparr>)"
  using set_without [of k "pending s"] set_without [of k "calls s"] by (auto simp: sys_ok_def)

lemmas sys_ok_intros = sys_ok_set_peer sys_ok_spawn sys_ok_deliver sys_ok_add_call

lemma run_go_ok:
  assumes "run_go i g s = Some t" and "sys_ok s" and "is_peer i s" and "go_ok (proposed s) g"
  shows "sys_ok t"
proof (cases g)
  case (GoApplyNewCommand newIndex)
  then obtain rf ms where r: "applyNewCommand newIndex (peer i s) = Some (rf, ms)" "t = deliver i ms (set_peer i rf s)"
    using assms(1) by (auto simp: option_bind_simps)
  from applyNewCommand_peer_ok [OF r(1) sys_ok_peer [OF assms(2,3)]] assms(2,4) GoApplyNewCommand show ?thesis
    unfolding r(2) by (intro sys_ok_intros) simp_all
next
  case (GoReplicatedEntriesToOne j)
  then show ?thesis using assms replicatedEntriesToOne_send_ok [OF _ sys_ok_peer [OF assms(2,3)]]
    by (auto simp: option_bind_simps intro!: sys_ok_add_call split: option.splits)
next
  case (GoSendInstallSnapshotToOne j)
  then show ?thesis using assms sendInstallSnapshotToOne_send_ok [OF _ sys_ok_peer [OF assms(2,3)]]
    by (auto simp: option_bind_simps intro!: sys_ok_add_call split: option.splits)
next
  case (GoSendHeartBeatToOne j)
  then show ?thesis using assms
    by (auto simp: option_bind_simps sendHeartBeatToOne_send_ok intro!: sys_ok_add_call split: option.splits)
next
  case GoReplicatedEntries
  then show ?thesis using assms by (auto simp: replicatedEntries_def intro!: sys_ok_spawn)
qed (use assms in \<open>auto intro: sys_ok_deliver\<close>)

lemma handle_call_ok:
  assumes "handle_call alloc now j c s = Some (c', t)" and "sys_ok s" and "is_peer j s" and "call_ok (proposed s) c"
  shows "sys_ok t \<and> call_ok (proposed t) c' \<and> calls t = calls s \<and> proposed t = proposed s"
proof -
  have append: "sys_ok (spawn j gos (set_peer j rf s))"
    if "AppendEntries alloc now args (peer j s) = Some (rf, reply, gos)" "entries_ok (proposed s) (ae_Entries args)" for args rf reply gos
    using AppendEntries_peer_ok [OF that(1) sys_ok_peer [OF assms(2,3)] that(2)] assms(2) by (intro sys_ok_intros) simp_all
  have install: "sys_ok (spawn j gos (set_peer j rf s))"
    if "InstallSnapshot now args (peer j s) = (rf, u, gos)" "snap_ok (proposed s) (is_Snapshot args)" for args rf u gos
    using InstallSnapshot_peer_ok [OF that(1) sys_ok_peer [OF assms(2,3)] that(2)] assms(2) by (intro sys_ok_intros) simp_all
  show ?thesis using assms(1,4) append install by (cases c) (auto simp: option_bind_simps split: prod.splits)
qed

lemma handle_reply_ok:
  assumes "handle_reply now i j c s = Some t" and "sys_ok s" and "is_peer i s"
  shows "sys_ok t"
proof (cases c)
  case (HeartBeatReply reply)
  then obtain rf gos where r: "sendHeartBeatToOne_reply now (int j) reply (peer i s) = Some (rf, gos)" "t = spawn i gos (set_peer i rf s)"
    using assms(1) by (auto simp: option_bind_simps)
  from sendHeartBeatToOne_reply_peer_ok [OF r(1) sys_ok_peer [OF assms(2,3)]] assms(2) show ?thesis unfolding r(2) by (intro sys_ok_intros) simp_all
next
  case (EntriesReply lst reply)
  then obtain rf ms where r: "replicatedEntriesToOne_reply now (int j) lst reply (peer i s) = Some (rf, ms)" "t = deliver i ms (set_peer i rf s)"
    using assms(1) by (auto simp: option_bind_simps)
  from replicatedEntriesToOne_reply_peer_ok [OF r(1) sys_ok_peer [OF assms(2,3)]] assms(2) show ?thesis unfolding r(2) by (intro sys_ok_intros) simp_all
next
  case (InstallSnapReply u)
  then obtain rf where r: "sendInstallSnapshotToOne_reply (int j) u (peer i s) = Some rf" "t = set_peer i rf s"
    using assms(1) by (auto simp: option_bind_simps)
  from sendInstallSnapshotToOne_reply_peer_ok [OF r(1) sys_ok_peer [OF assms(2,3)]] assms(2) show ?thesis unfolding r(2) by (intro sys_ok_intros) simp_all
qed (use assms(1) in auto)

lemma orphan_ok: "sys_ok s \<Longrightarrow> sys_ok (orphan a s)"
  unfolding orphan_def by (cases a) (auto simp: sys_ok_def)

lemma sys_ok_call:
  assumes "sys_ok s" and "call_ok (proposed s) c"
  shows "sys_ok (s\<lparr>calls := (calls s)[k := (caller, j, c)]\<rparr>)"
  using assms set_update_subset_insert [of "calls s" k "(caller, j, c)"] by (fastforce simp: sys_ok_def)

lemma sys_do_ok:
  assumes "sys_do a s = Some t" and ok: "sys_ok s"
  shows "sys_ok t"
proof (cases a)
  case (SElection b)
  then obtain b' where b: "cl_do b (base s) = Some b'" "t = orphan b (s\<lparr>base := b'\<rparr>)" using assms(1) by (auto simp: option_bind_simps)
  have "nodes_ok (proposed s) b'" using cl_do_nodes_ok [OF b(1)] ok by (simp add: sys_ok_def nodes_ok_def)
  then show ?thesis unfolding b(2) using ok by (intro orphan_ok) (simp add: sys_ok_def nodes_ok_def)
next
  case (SStart i alloc command)
  let ?s = "s\<lparr>proposed := insert command (proposed s)\<rparr>"
  obtain rf res gos where st: "Start alloc command (peer i s) = (rf, res, gos)" by (cases "Start alloc command (peer i s)")
  have i: "is_peer i s" "t = spawn i gos (set_peer i rf ?s)" using assms(1) SStart st by (auto split: if_splits)
  have ok': "sys_ok ?s" using ok by (rule sys_ok_propose)
  have "peer_ok (proposed ?s) (peer i s)" using sys_ok_peer [OF ok', of i] i(1) by simp
  from Start_peer_ok [OF st this] ok' show ?thesis unfolding i(2) by (intro sys_ok_intros) simp_all
next
  case (SHeartBeats i)
  then show ?thesis using assms by (auto simp: sendHeartBeats_round_def intro!: sys_ok_spawn split: if_splits)
next
  case (SGo k)
  then obtain i g where g: "k < length (pending s)" "pending s ! k = (i, g)" "is_peer i s" "run_go i g (s\<lparr>pending := without k (pending s)\<rparr>) = Some t"
    using assms(1) by (auto simp: Let_def split: if_splits prod.splits)
  have "(i, g) \<in> set (pending s)" using g(1,2) nth_mem by metis
  then have "go_ok (proposed s) g" using ok by (auto simp: sys_ok_def)
  with run_go_ok [OF g(4) sys_ok_without(1) [OF ok]] g(3) show ?thesis by simp
next
  case (SHandle k alloc now)
  then obtain caller j c c' s' where h: "k < length (calls s)" "calls s ! k = (caller, j, c)" "is_peer j s" "handle_call alloc now j c s = Some (c', s')"
      "t = s'\<lparr>calls := (calls s')[k := (caller, j, c')]\<rparr>"
    using assms(1) by (auto simp: Let_def option_bind_simps split: if_splits prod.splits)
  have "(caller, j, c) \<in> set (calls s)" using h(1,2) nth_mem by metis
  then have "call_ok (proposed s) c" using ok by (auto simp: sys_ok_def)
  from handle_call_ok [OF h(4) ok h(3) this] show ?thesis unfolding h(5) by (intro sys_ok_call) auto
next
  case (SReply k now)
  obtain caller j c where c: "calls s ! k = (caller, j, c)" by (cases "calls s ! k")
  show ?thesis
  proof (cases caller)
    case (Some i)
    then show ?thesis using assms(1) SReply c handle_reply_ok [OF _ sys_ok_without(2) [OF ok], of now i j c k t] by (simp split: if_splits)
  qed (use assms(1) SReply c sys_ok_without(2) [OF ok] in \<open>auto split: if_splits\<close>)
next
  case (SCond i k)
  then obtain rf b where r: "is_peer i s" "k < length (applied s)" "fst (applied s ! k) = i" "SnapshotValid (snd (applied s ! k))"
      "CondInstallSnapshot (SnapshotTerm (snd (applied s ! k))) (SnapshotIndex (snd (applied s ! k))) (am_Snapshot (snd (applied s ! k))) (peer i s) = Some (rf, b)"
      "t = set_peer i rf s"
    using assms(1) by (auto simp: Let_def option_bind_simps split: if_splits)
  have "applied s ! k \<in> set (applied s)" using r(2) by simp
  then have "snap_ok (proposed s) (am_Snapshot (snd (applied s ! k)))" using ok r(4) by (auto simp: sys_ok_def msg_ok_def)
  from CondInstallSnapshot_peer_ok [OF r(5) sys_ok_peer [OF ok r(1)] this] ok show ?thesis unfolding r(6) by (intro sys_ok_set_peer)
next
  case (SSnapshot i alloc index)
  then show ?thesis using assms(1) Snapshot_peer_ok [OF _ sys_ok_peer [OF ok]] ok
    by (auto simp: option_bind_simps intro: sys_ok_set_peer split: if_splits)
next
  case (SKill i)
  then show ?thesis using assms(1) sys_ok_peer [OF ok] ok by (auto simp: Kill_def intro!: sys_ok_set_peer split: if_splits)
qed (use assms(1) sys_ok_without(2) [OF ok] in \<open>auto split: if_splits\<close>)

lemma sys_reach_ok: "sys_reach n s \<Longrightarrow> sys_ok s"
proof (induction rule: sys_reach.induct)
  case (boot r)
  have "\<exists>rf. Make (\<lambda>n. n) 0 r n (int i) MakePersister = Some rf" for i
    by (simp add: Make_def readPersist_def ReadRaftState_def MakePersister_def clone_bytes_def)
  then have "peer_ok {} (the (Make (\<lambda>n. n) 0 r n (int i) MakePersister))" for i
    using Make_peer_ok [of "\<lambda>n. n" 0 r n "int i" MakePersister _ "{}"] by (metis MakePersister_def Persister.select_convs(1) disk_log_ok_def option.sel)
  then show ?case by (auto simp: sys_ok_def boot_sys_def boot_cluster_def)
qed (auto intro: sys_do_ok)

end
