(* ===== verification/Labrpc.thy ===== *)
theory Labrpc
  imports Prelude "HOL-Library.Word"
begin

text \<open>
  \<^verbatim>\<open>src/labrpc/labrpc.go\<close>: the simulated network between clients and servers.  Names of ends and servers
  (\<^verbatim>\<open>interface{}\<close>) are of type variables \<open>'e\<close> and \<open>'n\<close>, encoded bytes are lists of \<open>'b\<close>, and a \<^verbatim>\<open>*Server\<close> is
  an address, \<^verbatim>\<open>nil\<close> being \<open>None\<close>.  What a random generator returns is an argument, and so is what
  the network looks like whenever the goroutine of a request looks at it, since other goroutines may
  change it in between.  Delays have no effect on the values.  \<^verbatim>\<open>labgob\<close>'s encoder and decoder and the
  methods of the receiver object, called by reflection, are arguments.
\<close>

subsection \<open>Messages, ends and the network\<close>

record ('e, 'b) reqMsg =
  rq_endname :: 'e
  rq_svcMeth :: string
  rq_args :: "'b list"

record 'b replyMsg =
  rp_ok :: bool
  rp_reply :: "'b list"

definition no_reply :: "'b replyMsg" where
  "no_reply = \<lparr>rp_ok = False, rp_reply = []\<rparr>"

record ('e, 'n) Network =
  reliable :: bool
  longDelays :: bool
  longReordering :: bool
  ends :: "'e set"
  enabled :: "'e \<Rightarrow> bool"
  servers :: "'n \<Rightarrow> nat option"
  connections :: "'e \<Rightarrow> 'n option"
  net_count :: "32 word"
  net_bytes :: "64 word"
  net_closed :: bool

definition MakeNetwork :: "('e, 'n) Network" where
  "MakeNetwork = \<lparr>reliable = True, longDelays = False, longReordering = False, ends = {}, enabled = (\<lambda>_. False),
     servers = (\<lambda>_. None), connections = (\<lambda>_. None), net_count = 0, net_bytes = 0, net_closed = False\<rparr>"

text \<open>The goroutine of the network takes a request.\<close>

definition net_receive :: "('e, 'b) reqMsg \<Rightarrow> ('e, 'n) Network \<Rightarrow> ('e, 'n) Network" where
  "net_receive req rn = rn\<lparr>net_count := net_count rn + 1, net_bytes := net_bytes rn + of_nat (length (rq_args req))\<rparr>"

definition Cleanup :: "('e, 'n) Network \<Rightarrow> ('e, 'n) Network option" where
  "Cleanup rn = (if net_closed rn then None else Some (rn\<lparr>net_closed := True\<rparr>))"

definition Reliable :: "bool \<Rightarrow> ('e, 'n) Network \<Rightarrow> ('e, 'n) Network" where
  "Reliable yes rn = rn\<lparr>reliable := yes\<rparr>"

definition LongReordering :: "bool \<Rightarrow> ('e, 'n) Network \<Rightarrow> ('e, 'n) Network" where
  "LongReordering yes rn = rn\<lparr>longReordering := yes\<rparr>"

definition LongDelays :: "bool \<Rightarrow> ('e, 'n) Network \<Rightarrow> ('e, 'n) Network" where
  "LongDelays yes rn = rn\<lparr>longDelays := yes\<rparr>"

definition readEndnameInfo :: "'e \<Rightarrow> ('e, 'n) Network \<Rightarrow> bool \<times> 'n option \<times> nat option \<times> bool \<times> bool" where
  "readEndnameInfo endname rn =
     (let servername = connections rn endname;
          server = (case servername of None \<Rightarrow> None | Some n \<Rightarrow> servers rn n)
      in (enabled rn endname, servername, server, reliable rn, longReordering rn))"

definition isServerDead :: "'e \<Rightarrow> 'n \<Rightarrow> nat option \<Rightarrow> ('e, 'n) Network \<Rightarrow> bool" where
  "isServerDead endname servername server rn =
     (if enabled rn endname = False \<or> servers rn servername \<noteq> server then True else False)"

definition MakeEnd :: "'e \<Rightarrow> ('e, 'n) Network \<Rightarrow> ('e, 'n) Network option" where
  "MakeEnd endname rn =
     (if endname \<in> ends rn then None
      else Some (rn\<lparr>ends := insert endname (ends rn), enabled := (enabled rn)(endname := False),
                    connections := (connections rn)(endname := None)\<rparr>))"

definition AddServer :: "'n \<Rightarrow> nat option \<Rightarrow> ('e, 'n) Network \<Rightarrow> ('e, 'n) Network" where
  "AddServer servername rs rn = rn\<lparr>servers := (servers rn)(servername := rs)\<rparr>"

definition DeleteServer :: "'n \<Rightarrow> ('e, 'n) Network \<Rightarrow> ('e, 'n) Network" where
  "DeleteServer servername rn = rn\<lparr>servers := (servers rn)(servername := None)\<rparr>"

definition Connect :: "'e \<Rightarrow> 'n option \<Rightarrow> ('e, 'n) Network \<Rightarrow> ('e, 'n) Network" where
  "Connect endname servername rn = rn\<lparr>connections := (connections rn)(endname := servername)\<rparr>"

definition Enable :: "'e \<Rightarrow> bool \<Rightarrow> ('e, 'n) Network \<Rightarrow> ('e, 'n) Network" where
  "Enable endname en rn = rn\<lparr>enabled := (enabled rn)(endname := en)\<rparr>"

definition GetTotalCount :: "('e, 'n) Network \<Rightarrow> int" where
  "GetTotalCount rn = sint (net_count rn)"

definition GetTotalBytes :: "('e, 'n) Network \<Rightarrow> int" where
  "GetTotalBytes rn = sint (net_bytes rn)"

subsection \<open>Servers and services\<close>

text \<open>What reflection says of a method of the receiver; the method itself works on the receiver's state.\<close>

record ('o, 'a, 'r) rmethod =
  rm_Name :: string
  rm_PkgPath :: string
  rm_NumIn :: nat
  rm_In2Ptr :: bool
  rm_NumOut :: nat
  rm_Func :: "'o \<Rightarrow> 'a \<Rightarrow> 'r \<Rightarrow> ('r \<times> 'o) option"

record ('o, 'a, 'r) Service =
  svc_name :: string
  svc_methods :: "string \<rightharpoonup> ('o, 'a, 'r) rmethod"

fun service_methods :: "('o, 'a, 'r) rmethod list \<Rightarrow> (string \<rightharpoonup> ('o, 'a, 'r) rmethod) \<Rightarrow> (string \<rightharpoonup> ('o, 'a, 'r) rmethod)" where
  "service_methods [] ms = ms"
| "service_methods (method # rest) ms =
     (if rm_PkgPath method \<noteq> '''' \<or> rm_NumIn method \<noteq> 3 \<or> \<not> rm_In2Ptr method \<or> rm_NumOut method \<noteq> 0
      then service_methods rest ms
      else service_methods rest (ms(rm_Name method \<mapsto> method)))"

definition MakeService :: "string \<Rightarrow> ('o, 'a, 'r) rmethod list \<Rightarrow> ('o, 'a, 'r) Service" where
  "MakeService typeName methods = \<lparr>svc_name = typeName, svc_methods = service_methods methods Map.empty\<rparr>"

text \<open>
  \<open>dec\<close> gives what decoding leaves in the fresh argument, \<open>zero\<close> is the fresh reply and \<open>enc\<close> encodes it.  A
  method that is not there is fatal; a method that panics or never returns has no result.
\<close>

definition Service_dispatch :: "('b list \<Rightarrow> 'a) \<Rightarrow> 'r \<Rightarrow> ('r \<Rightarrow> 'b list) \<Rightarrow> ('o, 'a, 'r) Service \<Rightarrow> string \<Rightarrow> ('e, 'b) reqMsg \<Rightarrow> 'o
    \<Rightarrow> ('b replyMsg \<times> 'o) option" where
  "Service_dispatch dec zero enc svc methname req obj =
     (case svc_methods svc methname of
        Some method \<Rightarrow> do {
          (replyv, obj') \<leftarrow> rm_Func method obj (dec (rq_args req)) zero;
          Some (\<lparr>rp_ok = True, rp_reply = enc replyv\<rparr>, obj')
        }
      | None \<Rightarrow> None)"

record ('o, 'a, 'r) Server =
  sv_services :: "string \<rightharpoonup> ('o, 'a, 'r) Service"
  sv_count :: int

definition MakeServer :: "('o, 'a, 'r) Server" where
  "MakeServer = \<lparr>sv_services = Map.empty, sv_count = 0\<rparr>"

definition AddService :: "('o, 'a, 'r) Service \<Rightarrow> ('o, 'a, 'r) Server \<Rightarrow> ('o, 'a, 'r) Server" where
  "AddService svc rs = rs\<lparr>sv_services := (sv_services rs)(svc_name svc \<mapsto> svc)\<rparr>"

definition GetCount :: "('o, 'a, 'r) Server \<Rightarrow> int" where
  "GetCount rs = sv_count rs"

definition Network_GetCount :: "(nat \<Rightarrow> ('o, 'a, 'r) Server) \<Rightarrow> 'n \<Rightarrow> ('e, 'n) Network \<Rightarrow> int option" where
  "Network_GetCount heap servername rn = (case servers rn servername of None \<Rightarrow> None | Some a \<Rightarrow> Some (GetCount (heap a)))"

text \<open>\<^verbatim>\<open>strings.LastIndex(s, ".")\<close>\<close>

fun LastIndex_dot :: "string \<Rightarrow> int" where
  "LastIndex_dot [] = - 1"
| "LastIndex_dot (c # s) = (let i = LastIndex_dot s in if i \<ge> 0 then i + 1 else if c = CHR ''.'' then 0 else - 1)"

definition Server_dispatch :: "('b list \<Rightarrow> 'a) \<Rightarrow> 'r \<Rightarrow> ('r \<Rightarrow> 'b list) \<Rightarrow> ('e, 'b) reqMsg \<Rightarrow> ('o, 'a, 'r) Server \<Rightarrow> 'o
    \<Rightarrow> ('b replyMsg \<times> 'o \<times> ('o, 'a, 'r) Server) option" where
  "Server_dispatch dec zero enc req rs obj = do {
     let rs1 = rs\<lparr>sv_count := sv_count rs + 1\<rparr>;
     let dot = LastIndex_dot (rq_svcMeth req);
     serviceName \<leftarrow> slice_to (rq_svcMeth req) dot;
     methodName \<leftarrow> slice_from (rq_svcMeth req) (dot + 1);
     service \<leftarrow> sv_services rs1 serviceName;
     (reply, obj') \<leftarrow> Service_dispatch dec zero enc service methodName req obj;
     Some (reply, obj', rs1)
   }"

text \<open>The name before the last dot selects the service, the name after it the method.\<close>

lemma LastIndex_dot_none: "CHR ''.'' \<notin> set s \<Longrightarrow> LastIndex_dot s = - 1"
  by (induction s) auto

lemma LastIndex_dot_append: "CHR ''.'' \<notin> set mname \<Longrightarrow> LastIndex_dot (sname @ CHR ''.'' # mname) = int (length sname)"
  by (induction sname) (auto simp: LastIndex_dot_none)

lemma Server_dispatch_routes:
  assumes "rq_svcMeth req = sname @ CHR ''.'' # mname" and "CHR ''.'' \<notin> set mname"
    and "sv_services rs sname = Some svc" and "svc_methods svc mname = Some method"
    and "rm_Func method obj (dec (rq_args req)) zero = Some (r, obj')"
  shows "Server_dispatch dec zero enc req rs obj
     = Some (\<lparr>rp_ok = True, rp_reply = enc r\<rparr>, obj', rs\<lparr>sv_count := sv_count rs + 1\<rparr>)"
proof -
  have "LastIndex_dot (rq_svcMeth req) = int (length sname)" using assms(1,2) by (simp add: LastIndex_dot_append)
  moreover have "slice_to (rq_svcMeth req) (int (length sname)) = Some sname"
    "slice_from (rq_svcMeth req) (int (length sname) + 1) = Some mname"
    using assms(1) by (simp_all add: slice_to_def slice_from_def nat_add_distrib)
  ultimately show ?thesis using assms(3-5) by (simp add: Server_dispatch_def Service_dispatch_def Let_def)
qed

lemma Server_dispatch_no_dot: "CHR ''.'' \<notin> set (rq_svcMeth req) \<Longrightarrow> Server_dispatch dec zero enc req rs obj = None"
  by (simp add: Server_dispatch_def LastIndex_dot_none slice_to_def)

text \<open>A service offers exactly the exported methods with two arguments, the second a pointer, and no result.\<close>

lemma service_methods_suitable:
  "service_methods methods ms n = Some f \<Longrightarrow> ms n = Some f \<or>
     (f \<in> set methods \<and> n = rm_Name f \<and> rm_PkgPath f = [] \<and> rm_NumIn f = 3 \<and> rm_In2Ptr f \<and> rm_NumOut f = 0)"
  by (induction methods ms rule: service_methods.induct) (auto split: if_splits)

subsection \<open>A request on its way\<close>

record draws =
  d_request :: nat
  d_reply :: nat
  d_reorder :: nat

datatype ('e, 'n) wait = HandlerDone | Timer "('e, 'n) Network"

fun wait_loop :: "'e \<Rightarrow> 'n \<Rightarrow> nat option \<Rightarrow> ('e, 'n) wait list \<Rightarrow> bool option" where
  "wait_loop endname servername server [] = None"
| "wait_loop endname servername server (HandlerDone # ws) = Some True"
| "wait_loop endname servername server (Timer rn # ws) =
     (if isServerDead endname servername server rn then Some False else wait_loop endname servername server ws)"

text \<open>
  The result says whether the handler is started, what is sent to the client, whether it is sent late,
  and how many bytes are counted; \<open>reply\<close> is what the handler gives, \<open>rnEnd\<close> the network at the last
  look.  A wait that never ends has no result.
\<close>

record 'b answer =
  an_started :: bool
  an_reply :: "'b replyMsg"
  an_late :: bool
  an_bytes :: nat

definition processReq :: "draws \<Rightarrow> ('e, 'b) reqMsg \<Rightarrow> ('e, 'n) Network \<Rightarrow> ('e, 'n) wait list \<Rightarrow> 'b replyMsg \<Rightarrow> ('e, 'n) Network
    \<Rightarrow> 'b answer option" where
  "processReq d req rn ws reply rnEnd =
     (let (en, servername, server, rel, longre) = readEndnameInfo (rq_endname req) rn in
      case (en, servername, server) of
        (True, Some name, Some a) \<Rightarrow>
          if rel = False \<and> d_request d mod 1000 < 100
          then Some \<lparr>an_started = False, an_reply = no_reply, an_late = False, an_bytes = 0\<rparr>
          else do {
            replyOK \<leftarrow> wait_loop (rq_endname req) name (Some a) ws;
            let serverDead = isServerDead (rq_endname req) name (Some a) rnEnd;
            Some (if replyOK = False \<or> serverDead = True
                  then \<lparr>an_started = True, an_reply = no_reply, an_late = False, an_bytes = 0\<rparr>
                  else if rel = False \<and> d_reply d mod 1000 < 100
                  then \<lparr>an_started = True, an_reply = no_reply, an_late = False, an_bytes = 0\<rparr>
                  else if longre = True \<and> d_reorder d mod 900 < 600
                  then \<lparr>an_started = True, an_reply = reply, an_late = True, an_bytes = length (rp_reply reply)\<rparr>
                  else \<lparr>an_started = True, an_reply = reply, an_late = False, an_bytes = length (rp_reply reply)\<rparr>)
          }
      | _ \<Rightarrow> Some \<lparr>an_started = False, an_reply = no_reply, an_late = True, an_bytes = 0\<rparr>)"

definition count_reply :: "'b answer \<Rightarrow> ('e, 'n) Network \<Rightarrow> ('e, 'n) Network" where
  "count_reply an rn = rn\<lparr>net_bytes := net_bytes rn + of_nat (an_bytes an)\<rparr>"

text \<open>\<open>sent\<close> says which case of the \<^verbatim>\<open>select\<close> is taken: the network takes the request, or it has been cleaned up.\<close>

definition Call :: "('a \<Rightarrow> 'b list option) \<Rightarrow> ('b list \<Rightarrow> 'r \<Rightarrow> 'r option) \<Rightarrow> 'e \<Rightarrow> string \<Rightarrow> 'a \<Rightarrow> 'r \<Rightarrow> bool
    \<Rightarrow> (('e, 'b) reqMsg \<Rightarrow> 'b replyMsg option) \<Rightarrow> (bool \<times> 'r) option" where
  "Call enc dec endname svcMeth args reply sent network = do {
     qb \<leftarrow> enc args;
     let req = \<lparr>rq_endname = endname, rq_svcMeth = svcMeth, rq_args = qb\<rparr>;
     if \<not> sent then Some (False, reply)
     else do {
       rep \<leftarrow> network req;
       if rp_ok rep then do { reply' \<leftarrow> dec (rp_reply rep) reply; Some (True, reply') }
       else Some (False, reply)
     }
   }"

subsection \<open>What a call tells the client\<close>

text \<open>The end is enabled and connected to the name of the server at address \<open>a\<close>.\<close>

definition attached :: "'e \<Rightarrow> 'n \<Rightarrow> nat \<Rightarrow> ('e, 'n) Network \<Rightarrow> bool" where
  "attached endname name a rn \<longleftrightarrow> enabled rn endname \<and> connections rn endname = Some name \<and> servers rn name = Some a"

lemma isServerDead_iff: "isServerDead e n server rn \<longleftrightarrow> \<not> (enabled rn e \<and> servers rn n = server)"
  by (simp add: isServerDead_def)

lemma wait_loop_True: "wait_loop e n server ws = Some True \<Longrightarrow> HandlerDone \<in> set ws"
  by (induction e n server ws rule: wait_loop.induct) (auto split: if_splits)

lemma wait_loop_alive:
  assumes "HandlerDone \<in> set ws" and "\<And>rn. Timer rn \<in> set ws \<Longrightarrow> \<not> isServerDead e n server rn"
  shows "wait_loop e n server ws = Some True"
  using assms by (induction e n server ws rule: wait_loop.induct) auto

lemma processReq_attached:
  assumes "attached (rq_endname req) name a rn"
  shows "processReq d req rn ws reply rnEnd =
     (if reliable rn = False \<and> d_request d mod 1000 < 100
      then Some \<lparr>an_started = False, an_reply = no_reply, an_late = False, an_bytes = 0\<rparr>
      else do {
        replyOK \<leftarrow> wait_loop (rq_endname req) name (Some a) ws;
        let serverDead = isServerDead (rq_endname req) name (Some a) rnEnd;
        Some (if replyOK = False \<or> serverDead = True
              then \<lparr>an_started = True, an_reply = no_reply, an_late = False, an_bytes = 0\<rparr>
              else if reliable rn = False \<and> d_reply d mod 1000 < 100
              then \<lparr>an_started = True, an_reply = no_reply, an_late = False, an_bytes = 0\<rparr>
              else if longReordering rn = True \<and> d_reorder d mod 900 < 600
              then \<lparr>an_started = True, an_reply = reply, an_late = True, an_bytes = length (rp_reply reply)\<rparr>
              else \<lparr>an_started = True, an_reply = reply, an_late = False, an_bytes = length (rp_reply reply)\<rparr>)
      })"
  using assms by (simp add: processReq_def readEndnameInfo_def attached_def)

lemma processReq_detached:
  assumes "\<nexists>name a. attached (rq_endname req) name a rn"
  shows "processReq d req rn ws reply rnEnd = Some \<lparr>an_started = False, an_reply = no_reply, an_late = True, an_bytes = 0\<rparr>"
  using assms by (auto simp: processReq_def readEndnameInfo_def attached_def Let_def split: option.splits bool.splits)

lemma processReq_ok:
  assumes "processReq d req rn ws reply rnEnd = Some an" and "rp_ok (an_reply an)"
  shows "an_reply an = reply \<and> an_started an \<and> (\<exists>name a. attached (rq_endname req) name a rn
     \<and> HandlerDone \<in> set ws \<and> enabled rnEnd (rq_endname req) \<and> servers rnEnd name = Some a)"
proof (cases "\<exists>name a. attached (rq_endname req) name a rn")
  case True
  then obtain name a where at: "attached (rq_endname req) name a rn" by blast
  have "wait_loop (rq_endname req) name (Some a) ws = Some True" "an_reply an = reply" "an_started an"
    "\<not> isServerDead (rq_endname req) name (Some a) rnEnd"
    using assms unfolding processReq_attached [OF at]
    by (auto simp: no_reply_def option_bind_simps split: if_splits)
  then show ?thesis using at wait_loop_True isServerDead_iff by metis
next
  case False
  then show ?thesis using assms processReq_detached [OF False] by (auto simp: no_reply_def)
qed

text \<open>A network with one end, connected to a server that echoes the arguments.\<close>

definition sample_net :: "(nat, nat) Network" where
  "sample_net = (case MakeEnd 0 MakeNetwork of None \<Rightarrow> MakeNetwork
     | Some rn \<Rightarrow> Enable 0 True (Connect 0 (Some 5) (AddServer 5 (Some 7) rn)))"

definition sample_call :: "(bool \<times> nat) option" where
  "sample_call = Call (\<lambda>a. Some [a]) (\<lambda>bs r. case bs of [] \<Rightarrow> None | x # _ \<Rightarrow> Some x) 0 ''Echo.Echo'' 3 0 True
     (\<lambda>req. map_option an_reply (processReq \<lparr>d_request = 50, d_reply = 7, d_reorder = 0\<rparr> req sample_net
        [Timer sample_net, HandlerDone] \<lparr>rp_ok = True, rp_reply = rq_args req\<rparr> sample_net))"

lemma sample_attached: "attached 0 5 7 sample_net" "reliable sample_net"
  by (simp_all add: attached_def sample_net_def MakeEnd_def MakeNetwork_def Enable_def Connect_def AddServer_def)

text \<open>C23: A call that returns true was executed: at the time of the request its end was enabled and connected to a
  server, the handler was started and returned, the server was still registered and the end still
  enabled when the reply was sent, and the reply variable holds the decoded reply of the handler.  A
  call that returns false leaves the reply variable alone.\<close>

theorem Call_true_executed:
  assumes "Call enc dec endname svcMeth args reply0 sent
     (\<lambda>req. map_option an_reply (processReq d req rn ws (handler req) rnEnd)) = Some (b, r)"
  shows "if b then (\<exists>name a qb. attached endname name a rn \<and> HandlerDone \<in> set ws \<and> enabled rnEnd endname \<and> servers rnEnd name = Some a
       \<and> enc args = Some qb
       \<and> dec (rp_reply (handler \<lparr>rq_endname = endname, rq_svcMeth = svcMeth, rq_args = qb\<rparr>)) reply0 = Some r)
     else r = reply0"
proof (cases b)
  case True
  from assms True obtain qb an where q: "enc args = Some qb"
      "processReq d \<lparr>rq_endname = endname, rq_svcMeth = svcMeth, rq_args = qb\<rparr> rn ws
         (handler \<lparr>rq_endname = endname, rq_svcMeth = svcMeth, rq_args = qb\<rparr>) rnEnd = Some an"
      "rp_ok (an_reply an)" "dec (rp_reply (an_reply an)) reply0 = Some r"
    by (auto simp: Call_def Let_def option_bind_simps split: if_splits)
  from processReq_ok [OF q(2,3)] q(1,4) True show ?thesis by auto
next
  case False
  with assms show ?thesis by (auto simp: Call_def Let_def option_bind_simps split: if_splits)
qed

theorem Call_true_executed_witness:
  "sample_call = Some (True, 3) \<and> (\<exists>name a. attached 0 name a sample_net \<and> servers sample_net name = Some a)"
proof -
  have c: "sample_call = Some (True, 3)"
    using sample_attached by (simp add: sample_call_def Call_def processReq_def readEndnameInfo_def isServerDead_iff attached_def Let_def)
  from Call_true_executed [OF c [unfolded sample_call_def]] c show ?thesis by auto
qed

text \<open>C24: On a reliable network a call succeeds: when the end stays enabled and connected to a server that is not
  deleted and the handler returns, the call returns true with the decoded reply, whatever the delays
  and the reordering.\<close>

theorem Call_reliable:
  assumes "reliable rn" and "attached endname name a rn" and "HandlerDone \<in> set ws"
    and "\<And>rn'. Timer rn' \<in> set ws \<Longrightarrow> attached endname name a rn'" and "attached endname name a rnEnd"
    and "enc args = Some qb" and "req = \<lparr>rq_endname = endname, rq_svcMeth = svcMeth, rq_args = qb\<rparr>"
    and "rp_ok (handler req)" and "dec (rp_reply (handler req)) reply0 = Some r"
  shows "Call enc dec endname svcMeth args reply0 True
     (\<lambda>req. map_option an_reply (processReq d req rn ws (handler req) rnEnd)) = Some (True, r)"
proof -
  have at: "attached (rq_endname req) name a rn" using assms(2,7) by simp
  have "wait_loop (rq_endname req) name (Some a) ws = Some True"
    using assms(3,4,7) by (intro wait_loop_alive) (auto simp: isServerDead_iff attached_def)
  moreover have "\<not> isServerDead (rq_endname req) name (Some a) rnEnd"
    using assms(5,7) by (simp add: isServerDead_iff attached_def)
  ultimately have "map_option an_reply (processReq d req rn ws (handler req) rnEnd) = Some (handler req)"
    unfolding processReq_attached [OF at] using assms(1) by simp
  with assms(6-9) show ?thesis by (auto simp: Call_def Let_def)
qed

theorem Call_reliable_witness: "sample_call = Some (True, 3)"
  unfolding sample_call_def
  by (rule Call_reliable [where name = 5 and a = 7 and qb = "[3]", OF sample_attached(2,1) _ _ sample_attached(1) _ refl])
    (use sample_attached in auto)

end
