(* ===== verification/Raft_Harness.thy ===== *)
theory Raft_Harness
  imports Raft Labrpc
begin

text \<open>
  \<^verbatim>\<open>src/raft/config.go\<close>: the harness that the Raft tests run the peers in.  It starts, crashes and
  restarts peers, attaches them to the simulated network, collects what they apply and waits for
  agreement.

  A \<^verbatim>\<open>*Raft\<close> is an address in the list \<open>insts\<close> of all instances ever started: a crashed instance
  cannot really be stopped and stays there.  Every instance is started with a persister of its own,
  so a \<^verbatim>\<open>*Persister\<close> is the one of an instance, which that instance goes on writing to, or one that
  belongs to no instance.  The \<^verbatim>\<open>*labrpc.Server\<close> registered for an instance is named by the same address.
  Locks, sleeps and printing have no effect on the values.  What \<^verbatim>\<open>randstring\<close> returns is an argument.
  An operation that panics has no result; an operation that ends the test by \<^verbatim>\<open>t.Fatal\<close> or the process by
  \<^verbatim>\<open>log.Fatal\<close> returns an error.
\<close>

subsection \<open>State\<close>

datatype saved = Detached Persister | OfInst nat

datatype apply_error =
    CommitDiffers int int iface int iface
  | OutOfOrder int int

record config =
  cfg_net :: "(string, int) Network"
  cfg_n :: nat
  insts :: "Raft list"
  rafts :: "nat option list"
  applyErr :: "apply_error option list"
  connected :: "bool list"
  cfg_saved :: "saved option list"
  endnames :: "string list option list"
  logs :: "(int \<rightharpoonup> iface) list"
  start_time :: int
  t0 :: int
  rpcs0 :: int
  cmds0 :: int
  bytes0 :: int
  maxIndex :: int
  maxIndex0 :: int

text \<open>The content of a persister that the harness points to.\<close>

definition content :: "config \<Rightarrow> saved \<Rightarrow> Persister option" where
  "content cfg p = (case p of Detached ps \<Rightarrow> Some ps | OfInst a \<Rightarrow> map_option persister (slice_get (insts cfg) (int a)))"

subsection \<open>Attaching peers to the network\<close>

definition endname :: "int \<Rightarrow> int \<Rightarrow> config \<Rightarrow> string option" where
  "endname i j cfg = do {
     row \<leftarrow> slice_get (endnames cfg) i;
     names \<leftarrow> row;
     slice_get names j
   }"

definition cfg_Enable :: "string \<Rightarrow> bool \<Rightarrow> config \<Rightarrow> config" where
  "cfg_Enable e on cfg = cfg\<lparr>cfg_net := Enable e on (cfg_net cfg)\<rparr>"

fun connect_out :: "int \<Rightarrow> nat list \<Rightarrow> config \<Rightarrow> config option" where
  "connect_out i [] cfg = Some cfg"
| "connect_out i (j # js) cfg = do {
     c \<leftarrow> slice_get (connected cfg) (int j);
     (if c then do { e \<leftarrow> endname i (int j) cfg; connect_out i js (cfg_Enable e True cfg) }
      else connect_out i js cfg)
   }"

fun connect_in :: "int \<Rightarrow> nat list \<Rightarrow> config \<Rightarrow> config option" where
  "connect_in i [] cfg = Some cfg"
| "connect_in i (j # js) cfg = do {
     c \<leftarrow> slice_get (connected cfg) (int j);
     (if c then do { e \<leftarrow> endname (int j) i cfg; connect_in i js (cfg_Enable e True cfg) }
      else connect_in i js cfg)
   }"

definition connect :: "int \<Rightarrow> config \<Rightarrow> config option" where
  "connect i cfg = do {
     cs \<leftarrow> slice_set (connected cfg) i True;
     cfg1 \<leftarrow> connect_out i [0..<cfg_n cfg] (cfg\<lparr>connected := cs\<rparr>);
     connect_in i [0..<cfg_n cfg] cfg1
   }"

fun disconnect_out :: "int \<Rightarrow> nat list \<Rightarrow> config \<Rightarrow> config option" where
  "disconnect_out i [] cfg = Some cfg"
| "disconnect_out i (j # js) cfg = do {
     row \<leftarrow> slice_get (endnames cfg) i;
     (if row \<noteq> None then do { e \<leftarrow> endname i (int j) cfg; disconnect_out i js (cfg_Enable e False cfg) }
      else disconnect_out i js cfg)
   }"

fun disconnect_in :: "int \<Rightarrow> nat list \<Rightarrow> config \<Rightarrow> config option" where
  "disconnect_in i [] cfg = Some cfg"
| "disconnect_in i (j # js) cfg = do {
     row \<leftarrow> slice_get (endnames cfg) (int j);
     (if row \<noteq> None then do { e \<leftarrow> endname (int j) i cfg; disconnect_in i js (cfg_Enable e False cfg) }
      else disconnect_in i js cfg)
   }"

definition disconnect :: "int \<Rightarrow> config \<Rightarrow> config option" where
  "disconnect i cfg = do {
     cs \<leftarrow> slice_set (connected cfg) i False;
     cfg1 \<leftarrow> disconnect_out i [0..<cfg_n cfg] (cfg\<lparr>connected := cs\<rparr>);
     disconnect_in i [0..<cfg_n cfg] cfg1
   }"

subsection \<open>Crashing and starting peers\<close>

definition detach_copy :: "int \<Rightarrow> config \<Rightarrow> config option" where
  "detach_copy i cfg = do {
     s \<leftarrow> slice_get (cfg_saved cfg) i;
     (case s of
        None \<Rightarrow> Some cfg
      | Some p \<Rightarrow> do {
          ps \<leftarrow> content cfg p;
          sv \<leftarrow> slice_set (cfg_saved cfg) i (Some (Detached (Persister_Copy ps)));
          Some (cfg\<lparr>cfg_saved := sv\<rparr>)
        })
   }"

definition kill_raft :: "int \<Rightarrow> config \<Rightarrow> config option" where
  "kill_raft i cfg = do {
     r \<leftarrow> slice_get (rafts cfg) i;
     (case r of
        None \<Rightarrow> Some cfg
      | Some a \<Rightarrow> do {
          rf \<leftarrow> slice_get (insts cfg) (int a);
          is \<leftarrow> slice_set (insts cfg) (int a) (Kill rf);
          rs \<leftarrow> slice_set (rafts cfg) i None;
          Some (cfg\<lparr>insts := is, rafts := rs\<rparr>)
        })
   }"

definition resave :: "int \<Rightarrow> config \<Rightarrow> config option" where
  "resave i cfg = do {
     s \<leftarrow> slice_get (cfg_saved cfg) i;
     (case s of
        None \<Rightarrow> Some cfg
      | Some p \<Rightarrow> do {
          ps \<leftarrow> content cfg p;
          let raftlog = ReadRaftState ps;
          let snap = ReadSnapshot ps;
          sv \<leftarrow> slice_set (cfg_saved cfg) i
             (Some (Detached (SaveStateAndSnapshot raftlog snap \<lparr>raftstate = [], snapshot = []\<rparr>)));
          Some (cfg\<lparr>cfg_saved := sv\<rparr>)
        })
   }"

definition crash1 :: "int \<Rightarrow> config \<Rightarrow> config option" where
  "crash1 i cfg = do {
     cfg1 \<leftarrow> disconnect i cfg;
     let cfg2 = cfg1\<lparr>cfg_net := DeleteServer i (cfg_net cfg1)\<rparr>;
     cfg3 \<leftarrow> detach_copy i cfg2;
     cfg4 \<leftarrow> kill_raft i cfg3;
     resave i cfg4
   }"

text \<open>\<open>names\<close> are the results of \<^verbatim>\<open>randstring(20)\<close>; \<open>alloc\<close>, \<open>now\<close> and \<open>r\<close> go to \<open>Make\<close>.\<close>

fun make_ends :: "nat \<Rightarrow> string list \<Rightarrow> (string, int) Network \<Rightarrow> (string, int) Network option" where
  "make_ends j [] rn = Some rn"
| "make_ends j (e # es) rn = do {
     rn1 \<leftarrow> MakeEnd e rn;
     make_ends (Suc j) es (Connect e (Some (int j)) rn1)
   }"

definition fresh_persister :: "int \<Rightarrow> config \<Rightarrow> Persister option" where
  "fresh_persister i cfg = do {
     s \<leftarrow> slice_get (cfg_saved cfg) i;
     (case s of None \<Rightarrow> Some MakePersister | Some p \<Rightarrow> map_option Persister_Copy (content cfg p))
   }"

definition start1 :: "(nat \<Rightarrow> nat) \<Rightarrow> int \<Rightarrow> int \<Rightarrow> (nat \<Rightarrow> string) \<Rightarrow> int \<Rightarrow> config \<Rightarrow> config option" where
  "start1 alloc now r draw i cfg = do {
     cfg1 \<leftarrow> crash1 i cfg;
     let names = map draw [0..<cfg_n cfg1];
     en \<leftarrow> slice_set (endnames cfg1) i (Some names);
     rn \<leftarrow> make_ends 0 names (cfg_net cfg1);
     let cfg2 = cfg1\<lparr>endnames := en, cfg_net := rn\<rparr>;
     ps \<leftarrow> fresh_persister i cfg2;
     let a = length (insts cfg2);
     sv \<leftarrow> slice_set (cfg_saved cfg2) i (Some (OfInst a));
     rf \<leftarrow> Make alloc now r (length names) i ps;
     rs \<leftarrow> slice_set (rafts cfg2) i (Some a);
     Some (cfg2\<lparr>cfg_saved := sv, insts := insts cfg2 @ [rf], rafts := rs, cfg_net := AddServer i (Some a) (cfg_net cfg2)\<rparr>)
   }"

definition setunreliable :: "bool \<Rightarrow> config \<Rightarrow> config" where
  "setunreliable unrel cfg = cfg\<lparr>cfg_net := Reliable (\<not> unrel) (cfg_net cfg)\<rparr>"

definition setlongreordering :: "bool \<Rightarrow> config \<Rightarrow> config" where
  "setlongreordering longrel cfg = cfg\<lparr>cfg_net := LongReordering longrel (cfg_net cfg)\<rparr>"

fun start_all :: "(nat \<Rightarrow> nat) \<Rightarrow> int \<Rightarrow> (nat \<Rightarrow> int) \<Rightarrow> (nat \<Rightarrow> nat \<Rightarrow> string) \<Rightarrow> nat list \<Rightarrow> config \<Rightarrow> config option" where
  "start_all alloc now r draw [] cfg = Some cfg"
| "start_all alloc now r draw (i # is) cfg = do {
     ls \<leftarrow> slice_set (logs cfg) (int i) Map.empty;
     cfg1 \<leftarrow> start1 alloc now (r i) (draw i) (int i) (cfg\<lparr>logs := ls\<rparr>);
     start_all alloc now r draw is cfg1
   }"

fun connect_all :: "nat list \<Rightarrow> config \<Rightarrow> config option" where
  "connect_all [] cfg = Some cfg"
| "connect_all (i # is) cfg = do { cfg1 \<leftarrow> connect (int i) cfg; connect_all is cfg1 }"

definition new_config :: "int \<Rightarrow> nat \<Rightarrow> config" where
  "new_config now n =
     \<lparr>cfg_net = MakeNetwork, cfg_n = n, insts = [], rafts = replicate n None, applyErr = replicate n None,
      connected = replicate n False, cfg_saved = replicate n None, endnames = replicate n None,
      logs = replicate n Map.empty, start_time = now, t0 = 0, rpcs0 = 0, cmds0 = 0, bytes0 = 0, maxIndex = 0, maxIndex0 = 0\<rparr>"

definition make_config :: "(nat \<Rightarrow> nat) \<Rightarrow> int \<Rightarrow> (nat \<Rightarrow> int) \<Rightarrow> (nat \<Rightarrow> nat \<Rightarrow> string) \<Rightarrow> nat \<Rightarrow> bool \<Rightarrow> config option" where
  "make_config alloc now r draw n unreliable = do {
     let cfg = setunreliable unreliable (new_config now n);
     let cfg1 = cfg\<lparr>cfg_net := LongDelays True (cfg_net cfg)\<rparr>;
     cfg2 \<leftarrow> start_all alloc now r draw [0..<n] cfg1;
     connect_all [0..<n] cfg2
   }"

end
