(* ===== verification/Harness_Net.thy ===== *)
theory Harness_Net
  imports Raft_Harness
begin

text \<open>
  The state of the Raft harness is well-formed and stays so: all tables have one row per peer, the
  pointers lead to instances, and the network lets a peer reach another exactly when both are
  attached, with every end of an earlier instance switched off.
\<close>

subsection \<open>Well-formed configurations\<close>

text \<open>The tables of the harness.\<close>

definition typed :: "config \<Rightarrow> bool" where
  "typed cfg \<longleftrightarrow> length (rafts cfg) = cfg_n cfg \<and> length (applyErr cfg) = cfg_n cfg \<and> length (connected cfg) = cfg_n cfg
     \<and> length (cfg_saved cfg) = cfg_n cfg \<and> length (endnames cfg) = cfg_n cfg \<and> length (logs cfg) = cfg_n cfg
     \<and> (\<forall>i < cfg_n cfg. \<forall>names. endnames cfg ! i = Some names \<longrightarrow> length names = cfg_n cfg)
     \<and> (\<forall>i < cfg_n cfg. connected cfg ! i \<longrightarrow> endnames cfg ! i \<noteq> None)
     \<and> (\<forall>i < cfg_n cfg. \<forall>a. rafts cfg ! i = Some a \<longrightarrow> a < length (insts cfg))
     \<and> (\<forall>i < cfg_n cfg. \<forall>a. cfg_saved cfg ! i = Some (OfInst a) \<longrightarrow> a < length (insts cfg))"

lemma typed_lengths:
  "typed cfg \<Longrightarrow> length (rafts cfg) = cfg_n cfg" "typed cfg \<Longrightarrow> length (applyErr cfg) = cfg_n cfg"
  "typed cfg \<Longrightarrow> length (connected cfg) = cfg_n cfg" "typed cfg \<Longrightarrow> length (cfg_saved cfg) = cfg_n cfg"
  "typed cfg \<Longrightarrow> length (endnames cfg) = cfg_n cfg" "typed cfg \<Longrightarrow> length (logs cfg) = cfg_n cfg"
  by (simp_all add: typed_def)

definition name_at :: "config \<Rightarrow> nat \<Rightarrow> nat \<Rightarrow> string option" where
  "name_at cfg i j = (case endnames cfg ! i of None \<Rightarrow> None | Some names \<Rightarrow> Some (names ! j))"

lemma typed_endname:
  "typed cfg \<Longrightarrow> i < cfg_n cfg \<Longrightarrow> j < cfg_n cfg \<Longrightarrow> endname (int i) (int j) cfg = name_at cfg i j"
  by (auto simp: endname_def typed_def name_at_def split: option.splits)

text \<open>The network sees the tables as they are.\<close>

definition wired :: "config \<Rightarrow> bool" where
  "wired cfg \<longleftrightarrow>
     (\<forall>i < cfg_n cfg. \<forall>j < cfg_n cfg. \<forall>e. name_at cfg i j = Some e \<longrightarrow>
        e \<in> ends (cfg_net cfg) \<and> connections (cfg_net cfg) e = Some (int j)
        \<and> (enabled (cfg_net cfg) e \<longleftrightarrow> connected cfg ! i \<and> connected cfg ! j)
        \<and> (\<forall>i' < cfg_n cfg. \<forall>j' < cfg_n cfg. name_at cfg i' j' = Some e \<longrightarrow> i' = i \<and> j' = j))
     \<and> (\<forall>e. enabled (cfg_net cfg) e \<longrightarrow> (\<exists>i < cfg_n cfg. \<exists>j < cfg_n cfg. name_at cfg i j = Some e))
     \<and> (\<forall>i < cfg_n cfg. servers (cfg_net cfg) (int i) = rafts cfg ! i)"

subsection \<open>The loops in closed form\<close>

text \<open>Switching the ends in \<open>E\<close> on or off.\<close>

definition switch :: "string set \<Rightarrow> bool \<Rightarrow> config \<Rightarrow> config" where
  "switch E on cfg = cfg\<lparr>cfg_net := (cfg_net cfg)\<lparr>enabled := (\<lambda>e. if e \<in> E then on else enabled (cfg_net cfg) e)\<rparr>\<rparr>"

lemma switch_sel [simp]:
  "cfg_n (switch E b cfg) = cfg_n cfg" "insts (switch E b cfg) = insts cfg" "rafts (switch E b cfg) = rafts cfg"
  "applyErr (switch E b cfg) = applyErr cfg" "connected (switch E b cfg) = connected cfg" "cfg_saved (switch E b cfg) = cfg_saved cfg"
  "endnames (switch E b cfg) = endnames cfg" "logs (switch E b cfg) = logs cfg" "name_at (switch E b cfg) = name_at cfg"
  "ends (cfg_net (switch E b cfg)) = ends (cfg_net cfg)" "connections (cfg_net (switch E b cfg)) = connections (cfg_net cfg)"
  "servers (cfg_net (switch E b cfg)) = servers (cfg_net cfg)"
  "enabled (cfg_net (switch E b cfg)) e = (if e \<in> E then b else enabled (cfg_net cfg) e)"
  by (simp_all add: switch_def name_at_def fun_eq_iff)

lemma typed_switch [simp]: "typed (switch E b cfg) = typed cfg"
  by (simp add: typed_def)

lemma switch_empty [simp]: "switch {} b cfg = cfg"
  by (simp add: switch_def)

lemma switch_switch [simp]: "switch E b (switch F b cfg) = switch (E \<union> F) b cfg"
  by (auto simp: switch_def fun_eq_iff)

lemma cfg_Enable_switch: "cfg_Enable e b cfg = switch {e} b cfg"
  by (simp add: cfg_Enable_def Enable_def switch_def fun_upd_def)

lemma connect_out_switch:
  assumes "typed cfg" and "i < cfg_n cfg" and "set js \<subseteq> {..<cfg_n cfg}" and "connected cfg ! i"
  shows "connect_out (int i) js cfg = Some (switch {e. \<exists>j \<in> set js. connected cfg ! j \<and> name_at cfg i j = Some e} True cfg)"
  using assms
proof (induction js arbitrary: cfg)
  case (Cons j js)
  then have j: "j < cfg_n cfg" "length (connected cfg) = cfg_n cfg" "endnames cfg ! i \<noteq> None" by (auto simp: typed_def)
  then obtain e where e: "name_at cfg i j = Some e" by (auto simp: name_at_def)
  show ?case
  proof (cases "connected cfg ! j")
    case True
    have "{e'. \<exists>j' \<in> set js. connected cfg ! j' \<and> name_at cfg i j' = Some e'} \<union> {e}
        = {e'. \<exists>j' \<in> set (j # js). connected cfg ! j' \<and> name_at cfg i j' = Some e'}" using True e by auto
    with Cons.IH [of "switch {e} True cfg"] Cons.prems True e j show ?thesis by (simp add: typed_endname cfg_Enable_switch)
  next
    case False
    with Cons.IH [of cfg] Cons.prems j show ?thesis by (simp add: bex_Un)
  qed
qed simp

lemma connect_in_switch:
  assumes "typed cfg" and "i < cfg_n cfg" and "set js \<subseteq> {..<cfg_n cfg}"
  shows "connect_in (int i) js cfg = Some (switch {e. \<exists>j \<in> set js. connected cfg ! j \<and> name_at cfg j i = Some e} True cfg)"
  using assms
proof (induction js arbitrary: cfg)
  case (Cons j js)
  then have j: "j < cfg_n cfg" "length (connected cfg) = cfg_n cfg" by (auto simp: typed_def)
  show ?case
  proof (cases "connected cfg ! j")
    case True
    then obtain e where e: "name_at cfg j i = Some e" using Cons.prems(1) j(1) by (auto simp: name_at_def typed_def)
    have "{e'. \<exists>j' \<in> set js. connected cfg ! j' \<and> name_at cfg j' i = Some e'} \<union> {e}
        = {e'. \<exists>j' \<in> set (j # js). connected cfg ! j' \<and> name_at cfg j' i = Some e'}" using True e by auto
    with Cons.IH [of "switch {e} True cfg"] Cons.prems True e j show ?thesis by (simp add: typed_endname cfg_Enable_switch)
  next
    case False
    with Cons.IH [of cfg] Cons.prems j show ?thesis by (simp add: bex_Un)
  qed
qed simp

lemma disconnect_out_switch:
  assumes "typed cfg" and "i < cfg_n cfg" and "set js \<subseteq> {..<cfg_n cfg}"
  shows "disconnect_out (int i) js cfg = Some (switch {e. \<exists>j \<in> set js. name_at cfg i j = Some e} False cfg)"
  using assms
proof (induction js arbitrary: cfg)
  case (Cons j js)
  then have j: "j < cfg_n cfg" "length (endnames cfg) = cfg_n cfg" by (auto simp: typed_def)
  show ?case
  proof (cases "endnames cfg ! i")
    case None
    with Cons.IH [of cfg] Cons.prems j show ?thesis by (simp add: name_at_def)
  next
    case (Some names)
    then have e: "name_at cfg i j = Some (names ! j)" by (simp add: name_at_def)
    have "{e. \<exists>j' \<in> set js. name_at cfg i j' = Some e} \<union> {names ! j} = {e. \<exists>j' \<in> set (j # js). name_at cfg i j' = Some e}"
      using e by auto
    with Cons.IH [of "switch {names ! j} False cfg"] Cons.prems Some e j show ?thesis by (simp add: typed_endname cfg_Enable_switch)
  qed
qed simp

lemma disconnect_in_switch:
  assumes "typed cfg" and "i < cfg_n cfg" and "set js \<subseteq> {..<cfg_n cfg}"
  shows "disconnect_in (int i) js cfg = Some (switch {e. \<exists>j \<in> set js. name_at cfg j i = Some e} False cfg)"
  using assms
proof (induction js arbitrary: cfg)
  case (Cons j js)
  then have j: "j < cfg_n cfg" "length (endnames cfg) = cfg_n cfg" by (auto simp: typed_def)
  show ?case
  proof (cases "endnames cfg ! j")
    case None
    then have "name_at cfg j i = None" by (simp add: name_at_def)
    with Cons.IH [of cfg] Cons.prems j None show ?thesis by simp
  next
    case (Some names)
    then have e: "name_at cfg j i = Some (names ! i)" by (simp add: name_at_def)
    have "{e. \<exists>j' \<in> set js. name_at cfg j' i = Some e} \<union> {names ! i} = {e. \<exists>j' \<in> set (j # js). name_at cfg j' i = Some e}"
      using e by auto
    with Cons.IH [of "switch {names ! i} False cfg"] Cons.prems Some e j show ?thesis by (simp add: typed_endname cfg_Enable_switch)
  qed
qed simp

text \<open>The ends between \<open>i\<close> and the peers in \<open>P\<close>, in both directions.\<close>

definition links_of :: "config \<Rightarrow> nat \<Rightarrow> (nat \<Rightarrow> bool) \<Rightarrow> string set" where
  "links_of cfg i P = {e. \<exists>j < cfg_n cfg. P j \<and> (name_at cfg i j = Some e \<or> name_at cfg j i = Some e)}"

lemma connect_switch:
  assumes t: "typed cfg" and i: "i < cfg_n cfg" and row: "endnames cfg ! i \<noteq> None"
    and cfg': "cfg' = cfg\<lparr>connected := (connected cfg)[i := True]\<rparr>"
  shows "connect (int i) cfg = Some (switch (links_of cfg i (\<lambda>j. connected cfg' ! j)) True cfg')" and "typed cfg'"
proof -
  show t': "typed cfg'" using t i row by (auto simp: typed_def cfg' nth_list_update)
  have nm: "name_at cfg' = name_at cfg" "cfg_n cfg' = cfg_n cfg" by (simp_all add: cfg' name_at_def fun_eq_iff)
  have self: "cfg\<lparr>connected := connected cfg'\<rparr> = cfg'" by (simp add: cfg')
  have "slice_set (connected cfg) (int i) True = Some (connected cfg')" using t i by (simp add: slice_set_def typed_def cfg')
  moreover have "connected cfg' ! i" using t i by (simp add: cfg' typed_def)
  note sets = this calculation
  let ?js = "[0..<cfg_n cfg]" and ?P = "\<lambda>j. connected cfg' ! j"
  let ?O = "{e. \<exists>j \<in> set ?js. ?P j \<and> name_at cfg' i j = Some e}" and ?I = "{e. \<exists>j \<in> set ?js. ?P j \<and> name_at cfg' j i = Some e}"
  have "connect_out (int i) ?js cfg' = Some (switch ?O True cfg')"
    using sets(1) i nm by (intro connect_out_switch [OF t']) auto
  moreover have "connect_in (int i) ?js (switch ?O True cfg') = Some (switch (?I \<union> ?O) True cfg')"
    using connect_in_switch [of "switch ?O True cfg'" i ?js] t' i nm by (simp add: atLeast0LessThan)
  moreover have "?I \<union> ?O = links_of cfg i ?P" by (auto simp: links_of_def nm)
  ultimately show "connect (int i) cfg = Some (switch (links_of cfg i (\<lambda>j. connected cfg' ! j)) True cfg')"
    using sets(2) self by (simp add: connect_def)
qed

lemma disconnect_switch:
  assumes t: "typed cfg" and i: "i < cfg_n cfg" and cfg': "cfg' = cfg\<lparr>connected := (connected cfg)[i := False]\<rparr>"
  shows "disconnect (int i) cfg = Some (switch (links_of cfg i (\<lambda>_. True)) False cfg')" and "typed cfg'"
proof -
  show t': "typed cfg'" using t i by (auto simp: typed_def cfg' nth_list_update)
  have nm: "name_at cfg' = name_at cfg" "cfg_n cfg' = cfg_n cfg" by (simp_all add: cfg' name_at_def fun_eq_iff)
  have self: "cfg\<lparr>connected := connected cfg'\<rparr> = cfg'" by (simp add: cfg')
  have "slice_set (connected cfg) (int i) False = Some (connected cfg')" using t i by (simp add: slice_set_def typed_def cfg')
  note sets = this
  let ?js = "[0..<cfg_n cfg]"
  let ?O = "{e. \<exists>j \<in> set ?js. name_at cfg' i j = Some e}" and ?I = "{e. \<exists>j \<in> set ?js. name_at cfg' j i = Some e}"
  have "disconnect_out (int i) ?js cfg' = Some (switch ?O False cfg')"
    using i nm by (intro disconnect_out_switch [OF t']) auto
  moreover have "disconnect_in (int i) ?js (switch ?O False cfg') = Some (switch (?I \<union> ?O) False cfg')"
    using disconnect_in_switch [of "switch ?O False cfg'" i ?js] t' i nm by (simp add: atLeast0LessThan)
  moreover have "?I \<union> ?O = links_of cfg i (\<lambda>_. True)" by (auto simp: links_of_def nm)
  ultimately show "disconnect (int i) cfg = Some (switch (links_of cfg i (\<lambda>_. True)) False cfg')"
    using sets self by (simp add: disconnect_def)
qed

subsection \<open>Attaching and detaching\<close>

lemma wired_enabledI:
  assumes w: "wired cfg" and "cfg_n cfg' = cfg_n cfg" "name_at cfg' = name_at cfg" "ends (cfg_net cfg') = ends (cfg_net cfg)"
      "connections (cfg_net cfg') = connections (cfg_net cfg)" "servers (cfg_net cfg') = servers (cfg_net cfg)" "rafts cfg' = rafts cfg"
    and "\<And>k j e. k < cfg_n cfg \<Longrightarrow> j < cfg_n cfg \<Longrightarrow> name_at cfg k j = Some e \<Longrightarrow>
       enabled (cfg_net cfg') e \<longleftrightarrow> connected cfg' ! k \<and> connected cfg' ! j"
    and "\<And>e. enabled (cfg_net cfg') e \<Longrightarrow> \<exists>k < cfg_n cfg. \<exists>j < cfg_n cfg. name_at cfg k j = Some e"
  shows "wired cfg'"
  unfolding wired_def assms(2-7)
proof (intro conjI allI impI)
  fix i assume "i < cfg_n cfg" then show "servers (cfg_net cfg) (int i) = rafts cfg ! i" using w by (simp add: wired_def)
next
  fix e assume "enabled (cfg_net cfg') e" then show "\<exists>k < cfg_n cfg. \<exists>j < cfg_n cfg. name_at cfg k j = Some e" by (rule assms(9))
next
  fix i j e assume n: "i < cfg_n cfg" "j < cfg_n cfg" "name_at cfg i j = Some e"
  then show "enabled (cfg_net cfg') e = (connected cfg' ! i \<and> connected cfg' ! j)" by (rule assms(8))
  show "e \<in> ends (cfg_net cfg)" "connections (cfg_net cfg) e = Some (int j)" using w n by (auto simp: wired_def)
  show "i' = i" "j' = j" if "i' < cfg_n cfg" "j' < cfg_n cfg" "name_at cfg i' j' = Some e" for i' j'
    using w n that unfolding wired_def by blast+
qed

lemma connect_wired:
  assumes t: "typed cfg" and w: "wired cfg" and i: "i < cfg_n cfg" and row: "endnames cfg ! i \<noteq> None"
  shows "\<exists>cfg'. connect (int i) cfg = Some cfg' \<and> typed cfg' \<and> wired cfg' \<and> cfg_n cfg' = cfg_n cfg \<and> insts cfg' = insts cfg
     \<and> cfg_saved cfg' = cfg_saved cfg \<and> endnames cfg' = endnames cfg \<and> connected cfg' = (connected cfg)[i := True]
     \<and> rafts cfg' = rafts cfg"
proof -
  define cfg1 where "cfg1 = cfg\<lparr>connected := (connected cfg)[i := True]\<rparr>"
  let ?L = "links_of cfg i (\<lambda>j. connected cfg1 ! j)"
  note c = connect_switch [OF t i row cfg1_def]
  have nm: "name_at cfg1 = name_at cfg" "cfg_n cfg1 = cfg_n cfg" by (simp_all add: cfg1_def name_at_def fun_eq_iff)
  have con: "connected cfg1 ! j \<longleftrightarrow> j = i \<or> connected cfg ! j" if "j < cfg_n cfg" for j
    using t i that by (auto simp: cfg1_def typed_def nth_list_update)
  have "(e \<in> ?L \<or> enabled (cfg_net cfg) e) \<longleftrightarrow> connected cfg1 ! k \<and> connected cfg1 ! j"
    if k: "k < cfg_n cfg" "j < cfg_n cfg" "name_at cfg k j = Some e" for k j e
  proof -
    have one: "name_at cfg k' j' = Some e \<longleftrightarrow> k' = k \<and> j' = j" if "k' < cfg_n cfg" "j' < cfg_n cfg" for k' j'
      using w k that by (auto simp: wired_def)
    have "e \<in> ?L \<longleftrightarrow> (k = i \<and> connected cfg1 ! j) \<or> (j = i \<and> connected cfg1 ! k)"
      using k i one by (auto simp: links_of_def)
    moreover have "enabled (cfg_net cfg) e \<longleftrightarrow> connected cfg ! k \<and> connected cfg ! j" using w k by (simp add: wired_def)
    ultimately show ?thesis using con k i by auto
  qed
  note en = this
  have "\<exists>k < cfg_n cfg. \<exists>j < cfg_n cfg. name_at cfg k j = Some e" if "e \<in> ?L \<or> enabled (cfg_net cfg) e" for e
    using that w i by (auto simp: links_of_def wired_def)
  note nms = this
  have "wired (switch ?L True cfg1)"
  proof (rule wired_enabledI [OF w])
    show "enabled (cfg_net (switch ?L True cfg1)) e \<longleftrightarrow> connected (switch ?L True cfg1) ! k \<and> connected (switch ?L True cfg1) ! j"
      if "k < cfg_n cfg" "j < cfg_n cfg" "name_at cfg k j = Some e" for k j e using en [OF that] by (auto simp: cfg1_def)
    show "\<exists>k < cfg_n cfg. \<exists>j < cfg_n cfg. name_at cfg k j = Some e" if "enabled (cfg_net (switch ?L True cfg1)) e" for e
      using that nms [of e] by (simp add: cfg1_def split: if_splits)
  qed (simp_all add: nm, simp_all add: cfg1_def)
  with c show ?thesis by (intro exI [of _ "switch ?L True cfg1"]) (simp add: cfg1_def)
qed

lemma disconnect_wired:
  assumes t: "typed cfg" and w: "wired cfg" and i: "i < cfg_n cfg"
  shows "\<exists>cfg'. disconnect (int i) cfg = Some cfg' \<and> typed cfg' \<and> wired cfg' \<and> cfg_n cfg' = cfg_n cfg \<and> insts cfg' = insts cfg
     \<and> cfg_saved cfg' = cfg_saved cfg \<and> endnames cfg' = endnames cfg \<and> connected cfg' = (connected cfg)[i := False]
     \<and> rafts cfg' = rafts cfg \<and> ends (cfg_net cfg') = ends (cfg_net cfg)"
proof -
  define cfg1 where "cfg1 = cfg\<lparr>connected := (connected cfg)[i := False]\<rparr>"
  let ?L = "links_of cfg i (\<lambda>_. True)"
  note c = disconnect_switch [OF t i cfg1_def]
  have nm: "name_at cfg1 = name_at cfg" "cfg_n cfg1 = cfg_n cfg" by (simp_all add: cfg1_def name_at_def fun_eq_iff)
  have con: "connected cfg1 ! j \<longleftrightarrow> j \<noteq> i \<and> connected cfg ! j" if "j < cfg_n cfg" for j
    using t i that by (auto simp: cfg1_def typed_def nth_list_update)
  have "(e \<notin> ?L \<and> enabled (cfg_net cfg) e) \<longleftrightarrow> connected cfg1 ! k \<and> connected cfg1 ! j"
    if k: "k < cfg_n cfg" "j < cfg_n cfg" "name_at cfg k j = Some e" for k j e
  proof -
    have one: "name_at cfg k' j' = Some e \<longleftrightarrow> k' = k \<and> j' = j" if "k' < cfg_n cfg" "j' < cfg_n cfg" for k' j'
      using w k that by (auto simp: wired_def)
    have "e \<in> ?L \<longleftrightarrow> k = i \<or> j = i" using k i one by (auto simp: links_of_def)
    moreover have "enabled (cfg_net cfg) e \<longleftrightarrow> connected cfg ! k \<and> connected cfg ! j" using w k by (simp add: wired_def)
    ultimately show ?thesis using con k by auto
  qed
  note en = this
  have "wired (switch ?L False cfg1)"
  proof (rule wired_enabledI [OF w])
    show "enabled (cfg_net (switch ?L False cfg1)) e \<longleftrightarrow> connected (switch ?L False cfg1) ! k \<and> connected (switch ?L False cfg1) ! j"
      if "k < cfg_n cfg" "j < cfg_n cfg" "name_at cfg k j = Some e" for k j e using en [OF that] by (auto simp: cfg1_def)
    show "\<exists>k < cfg_n cfg. \<exists>j < cfg_n cfg. name_at cfg k j = Some e" if "enabled (cfg_net (switch ?L False cfg1)) e" for e
      using that w by (simp add: cfg1_def wired_def split: if_splits)
  qed (simp_all add: nm, simp_all add: cfg1_def)
  with c show ?thesis by (intro exI [of _ "switch ?L False cfg1"]) (simp add: cfg1_def)
qed

subsection \<open>Crashing\<close>

text \<open>What a restart reads back must decode.\<close>

fun readable :: "bytes \<Rightarrow> bool" where
  "readable [] = True"
| "readable (GInt _ # GInt _ # GInt _ # GEntries _ # GInt _ # GInt _ # _) = True"
| "readable _ = False"

lemma Make_readable: "readable (ReadRaftState ps) \<Longrightarrow> \<exists>rf. Make alloc now r k i ps = Some rf \<and> persister rf = ps"
  by (cases "ReadRaftState ps" rule: readable.cases) (auto simp: Make_def readPersist_def)

lemma raft_bytes_readable: "readable (raftstate (persister (persist rf)))"
  by (simp add: persist_def raft_bytes_def SaveRaftState_def clone_bytes_def)

definition disks_ok :: "config \<Rightarrow> bool" where
  "disks_ok cfg \<longleftrightarrow> (\<forall>rf \<in> set (insts cfg). readable (raftstate (persister rf)))
     \<and> (\<forall>ps. Some (Detached ps) \<in> set (cfg_saved cfg) \<longrightarrow> readable (raftstate ps))"

text \<open>The content that the harness holds for a peer.\<close>

definition disk :: "config \<Rightarrow> nat \<Rightarrow> Persister option" where
  "disk cfg i = (case cfg_saved cfg ! i of None \<Rightarrow> None | Some p \<Rightarrow> content cfg p)"

lemma typed_content: "typed cfg \<Longrightarrow> i < cfg_n cfg \<Longrightarrow> cfg_saved cfg ! i = Some p \<Longrightarrow> \<exists>ps. content cfg p = Some ps"
  by (cases p) (auto simp: content_def typed_def)

lemma content_readable:
  assumes "typed cfg" and "disks_ok cfg" and "i < cfg_n cfg" and "disk cfg i = Some ps"
  shows "readable (raftstate ps)"
proof -
  obtain p where p: "cfg_saved cfg ! i = Some p" "content cfg p = Some ps" using assms(4) by (auto simp: disk_def split: option.splits)
  have mem: "Some p \<in> set (cfg_saved cfg)"
    using nth_mem [of i "cfg_saved cfg"] p(1) typed_lengths [OF assms(1)] assms(3) by simp
  show ?thesis
  proof (cases p)
    case (OfInst a)
    then obtain rf where "rf \<in> set (insts cfg)" "ps = persister rf" using p(2) by (auto simp: content_def dest: slice_get_in_set)
    then show ?thesis using assms(2) by (simp add: disks_ok_def)
  qed (use assms(2) p(2) mem in \<open>auto simp: content_def disks_ok_def\<close>)
qed

lemma saved_same: "cfg_saved cfg ! i = v \<Longrightarrow> cfg\<lparr>cfg_saved := (cfg_saved cfg)[i := v]\<rparr> = cfg"
  by auto

lemma detach_copy_ok:
  assumes t: "typed cfg" and i: "i < cfg_n cfg"
  shows "detach_copy (int i) cfg = Some (cfg\<lparr>cfg_saved := (cfg_saved cfg)[i := map_option Detached (disk cfg i)]\<rparr>)"
proof (cases "cfg_saved cfg ! i")
  case None
  then show ?thesis using assms by (simp add: detach_copy_def disk_def typed_def saved_same)
next
  case (Some p)
  obtain ps where "content cfg p = Some ps" using typed_content [OF t i Some] by blast
  then show ?thesis using assms Some by (simp add: detach_copy_def disk_def typed_def slice_set_def)
qed

lemma resave_ok:
  assumes t: "typed cfg" and i: "i < cfg_n cfg" and "cfg_saved cfg ! i = map_option Detached ps"
  shows "resave (int i) cfg = Some cfg"
proof (cases ps)
  case (Some q)
  then have "cfg\<lparr>cfg_saved := (cfg_saved cfg)[i := Some (Detached q)]\<rparr> = cfg" using assms(3) by (intro saved_same) simp
  moreover have "SaveStateAndSnapshot (ReadRaftState q) (ReadSnapshot q) \<lparr>raftstate = [], snapshot = []\<rparr> = q"
    by (simp add: SaveStateAndSnapshot_def clone_bytes_def ReadRaftState_def ReadSnapshot_def)
  ultimately show ?thesis
    using assms Some by (simp add: resave_def content_def typed_def slice_set_def)
qed (use assms in \<open>simp add: resave_def typed_def\<close>)

definition crashed :: "nat \<Rightarrow> config \<Rightarrow> config \<Rightarrow> bool" where
  "crashed i cfg cfg' \<longleftrightarrow> cfg_n cfg' = cfg_n cfg \<and> endnames cfg' = endnames cfg \<and> connected cfg' = (connected cfg)[i := False]
     \<and> rafts cfg' = (rafts cfg)[i := None] \<and> cfg_saved cfg' = (cfg_saved cfg)[i := map_option Detached (disk cfg i)]
     \<and> ends (cfg_net cfg') = ends (cfg_net cfg) \<and> length (insts cfg') = length (insts cfg)
     \<and> (\<forall>a < length (insts cfg). insts cfg' ! a = (if rafts cfg ! i = Some a then Kill (insts cfg ! a) else insts cfg ! a))"

lemma kill_raft_ok:
  assumes t: "typed cfg" and i: "i < cfg_n cfg"
  shows "\<exists>is. kill_raft (int i) cfg = Some (cfg\<lparr>insts := is, rafts := (rafts cfg)[i := None]\<rparr>) \<and> length is = length (insts cfg)
     \<and> (\<forall>a < length (insts cfg). is ! a = (if rafts cfg ! i = Some a then Kill (insts cfg ! a) else insts cfg ! a))"
proof (cases "rafts cfg ! i")
  case None
  then have "cfg\<lparr>insts := insts cfg, rafts := (rafts cfg)[i := None]\<rparr> = cfg" by (metis (no_types) list_update_id config.surjective config.update_convs(3,4))
  with None i typed_lengths [OF t] show ?thesis by (intro exI [of _ "insts cfg"]) (simp add: kill_raft_def)
next
  case (Some a)
  then have a: "a < length (insts cfg)" using t i by (simp add: typed_def)
  with Some i typed_lengths [OF t] show ?thesis
    by (intro exI [of _ "(insts cfg)[a := Kill (insts cfg ! a)]"]) (auto simp: kill_raft_def slice_set_def)
qed

lemma crash1_ok:
  assumes t: "typed cfg" and w: "wired cfg" and i: "i < cfg_n cfg"
  shows "\<exists>cfg'. crash1 (int i) cfg = Some cfg' \<and> typed cfg' \<and> wired cfg' \<and> crashed i cfg cfg'"
proof -
  obtain cfg1 where c1: "disconnect (int i) cfg = Some cfg1" "typed cfg1" "wired cfg1" "cfg_n cfg1 = cfg_n cfg" "insts cfg1 = insts cfg"
     "cfg_saved cfg1 = cfg_saved cfg" "endnames cfg1 = endnames cfg" "connected cfg1 = (connected cfg)[i := False]" "rafts cfg1 = rafts cfg"
     "ends (cfg_net cfg1) = ends (cfg_net cfg)"
    using disconnect_wired [OF assms] by blast
  define cfg2 where "cfg2 = cfg1\<lparr>cfg_net := DeleteServer (int i) (cfg_net cfg1)\<rparr>"
  define cfg3 where "cfg3 = cfg2\<lparr>cfg_saved := (cfg_saved cfg2)[i := map_option Detached (disk cfg2 i)]\<rparr>"
  have t2: "typed cfg2" using c1(2) by (simp add: cfg2_def typed_def)
  have "content cfg2 = content cfg" using c1(5) by (simp add: fun_eq_iff content_def cfg2_def split: saved.split)
  moreover have "cfg_saved cfg2 = cfg_saved cfg" using c1(6) by (simp add: cfg2_def)
  ultimately have d: "disk cfg2 i = disk cfg i" by (simp add: disk_def split: option.split)
  have i2: "i < cfg_n cfg2" using i c1(4) by (simp add: cfg2_def)
  have t3: "typed cfg3" using t2 i2 by (auto simp: cfg3_def typed_def nth_list_update split: if_splits)
  have i3: "i < cfg_n cfg3" using i2 by (simp add: cfg3_def)
  obtain "is" where k: "kill_raft (int i) cfg3 = Some (cfg3\<lparr>insts := is, rafts := (rafts cfg3)[i := None]\<rparr>)" "length is = length (insts cfg3)"
      "\<forall>a < length (insts cfg3). is ! a = (if rafts cfg3 ! i = Some a then Kill (insts cfg3 ! a) else insts cfg3 ! a)"
    using kill_raft_ok [OF t3 i3] by blast
  define cfg4 where "cfg4 = cfg3\<lparr>insts := is, rafts := (rafts cfg3)[i := None]\<rparr>"
  have t4: "typed cfg4" using t3 i3 k(2) by (auto simp: cfg4_def typed_def nth_list_update)
  have sv: "cfg_saved cfg4 ! i = map_option Detached (disk cfg2 i)" using typed_lengths(4) [OF t2] i2 by (simp add: cfg4_def cfg3_def)
  have "resave (int i) cfg4 = Some cfg4" using i3 by (intro resave_ok [OF t4 _ sv]) (simp add: cfg4_def)
  then have "crash1 (int i) cfg = Some cfg4"
    using c1(1) detach_copy_ok [OF t2 i2] k(1) by (simp add: crash1_def cfg2_def [symmetric] cfg3_def [symmetric] cfg4_def [symmetric] Let_def)
  moreover have "wired cfg4"
    using c1(3) typed_lengths(1) [OF c1(2)] i2
    by (simp add: wired_def cfg4_def cfg3_def cfg2_def DeleteServer_def name_at_def nth_list_update)
  moreover have "crashed i cfg cfg4"
    using c1 k d by (simp add: crashed_def cfg4_def cfg3_def cfg2_def DeleteServer_def)
  ultimately show ?thesis using t4 by blast
qed

subsection \<open>Starting\<close>

text \<open>The new ends are fresh, switched off and connected to the peers in order.\<close>

definition added_ends :: "nat \<Rightarrow> string list \<Rightarrow> (string, int) Network \<Rightarrow> (string, int) Network \<Rightarrow> bool" where
  "added_ends j es rn rn' \<longleftrightarrow> distinct es \<and> set es \<inter> ends rn = {} \<and> ends rn' = ends rn \<union> set es \<and> servers rn' = servers rn
     \<and> (\<forall>e. enabled rn' e \<longleftrightarrow> e \<notin> set es \<and> enabled rn e) \<and> (\<forall>e. e \<notin> set es \<longrightarrow> connections rn' e = connections rn e)
     \<and> (\<forall>k < length es. connections rn' (es ! k) = Some (int (j + k)))"

lemma make_ends_Some: "make_ends j es rn = Some rn' \<Longrightarrow> added_ends j es rn rn'"
proof (induction j es rn rule: make_ends.induct)
  case (2 j e es rn)
  from 2(2) obtain rn1 where rn1: "MakeEnd e rn = Some rn1" "make_ends (Suc j) es (Connect e (Some (int j)) rn1) = Some rn'"
    by (auto simp: option_bind_simps)
  then have m: "e \<notin> ends rn" "ends rn1 = insert e (ends rn)" "servers rn1 = servers rn"
      "enabled rn1 = (enabled rn)(e := False)" "connections rn1 = (connections rn)(e := None)"
    by (auto simp: MakeEnd_def split: if_splits)
  have IH: "added_ends (Suc j) es (Connect e (Some (int j)) rn1) rn'" by (rule "2.IH" [OF rn1])
  then have "connections rn' ((e # es) ! k) = Some (int (j + k))" if "k < length (e # es)" for k
    using that m by (cases k) (auto simp: added_ends_def Connect_def)
  with IH m show ?case by (auto simp: added_ends_def Connect_def)
qed (simp add: added_ends_def)

lemma make_ends_ok: "distinct es \<Longrightarrow> set es \<inter> ends rn = {} \<Longrightarrow> \<exists>rn'. make_ends j es rn = Some rn'"
  by (induction j es rn rule: make_ends.induct) (simp_all add: MakeEnd_def Connect_def)

lemma start1_wired:
  assumes t: "typed cfg" and w: "wired cfg" and i: "i < cfg_n cfg" and con: "\<not> connected cfg ! i" and r: "rafts cfg ! i = None"
    and ends: "added_ends 0 names (cfg_net cfg) rn" "length names = cfg_n cfg" and a: "a = length (insts cfg)"
    and cfg': "cfg' = cfg\<lparr>endnames := (endnames cfg)[i := Some names], cfg_saved := (cfg_saved cfg)[i := Some (OfInst a)],
      insts := insts cfg @ [rf], rafts := (rafts cfg)[i := Some a], cfg_net := AddServer (int i) (Some a) rn\<rparr>"
  shows "typed cfg'" and "wired cfg'"
proof -
  show "typed cfg'" using t i ends(2) by (auto simp: typed_def cfg' a nth_list_update less_Suc_eq)
  have nm: "name_at cfg' k j = (if k = i then Some (names ! j) else name_at cfg k j)" if "k < cfg_n cfg" for k j
    using that i typed_lengths(5) [OF t] by (simp add: name_at_def cfg' nth_list_update)
  have old: "e \<in> ends (cfg_net cfg)" "e \<notin> set names" if "k < cfg_n cfg" "j < cfg_n cfg" "name_at cfg k j = Some e" for k j e
    using w that ends(1) by (auto simp: wired_def added_ends_def)
  have net: "ends (cfg_net cfg') = ends (cfg_net cfg) \<union> set names" "cfg_n cfg' = cfg_n cfg" "connected cfg' = connected cfg"
    "enabled (cfg_net cfg') e \<longleftrightarrow> e \<notin> set names \<and> enabled (cfg_net cfg) e" for e
    using ends(1) by (auto simp: cfg' AddServer_def added_ends_def)
  show "wired cfg'" unfolding wired_def net(2,3)
  proof (intro conjI allI impI)
    fix k assume "k < cfg_n cfg"
    then show "servers (cfg_net cfg') (int k) = rafts cfg' ! k"
      using w i typed_lengths(1) [OF t] ends(1) by (auto simp: cfg' AddServer_def added_ends_def wired_def nth_list_update)
  next
    fix e assume "enabled (cfg_net cfg') e"
    then have e: "e \<notin> set names" "enabled (cfg_net cfg) e" using net(4) by blast+
    then obtain k j where k: "k < cfg_n cfg" "j < cfg_n cfg" "name_at cfg k j = Some e" using w unfolding wired_def by blast
    then have "connected cfg ! k" using w e(2) unfolding wired_def by blast
    with con k nm show "\<exists>k < cfg_n cfg. \<exists>j < cfg_n cfg. name_at cfg' k j = Some e" by (intro exI [of _ k]) auto
  next
    fix k j e assume k: "k < cfg_n cfg" "j < cfg_n cfg" "name_at cfg' k j = Some e"
    show "e \<in> ends (cfg_net cfg')" using k nm old ends(2) net(1) by (cases "k = i") auto
    show "connections (cfg_net cfg') e = Some (int j)"
      using k nm old(2) [of k j e] ends w by (cases "k = i") (auto simp: cfg' AddServer_def added_ends_def wired_def)
    show "enabled (cfg_net cfg') e = (connected cfg ! k \<and> connected cfg ! j)"
      using k nm old(2) [of k j e] ends(2) w con net(4) by (cases "k = i") (auto simp: wired_def)
    show "k' = k" "j' = j" if "k' < cfg_n cfg" "j' < cfg_n cfg" "name_at cfg' k' j' = Some e" for k' j'
    proof -
      have "k' = k \<and> j' = j"
      proof (cases "k = i"; cases "k' = i")
        assume "k = i" "k' = i"
        then show ?thesis using k that nm ends by (auto simp: added_ends_def nth_eq_iff_index_eq)
      next
        assume "k \<noteq> i" "k' \<noteq> i"
        then show ?thesis using k that nm w unfolding wired_def by metis
      qed (use k that nm old(2) [of k j e] old(2) [of k' j' e] ends(2) nth_mem [of j names] nth_mem [of j' names] in auto)
      then show "k' = k" "j' = j" by auto
    qed
  qed
qed

lemma crashed_stored: "disks_ok cfg \<Longrightarrow> typed cfg \<Longrightarrow> i < cfg_n cfg \<Longrightarrow> crashed i cfg cfg' \<Longrightarrow> disks_ok cfg'"
proof -
  assume st: "disks_ok cfg" and t: "typed cfg" "i < cfg_n cfg" and c: "crashed i cfg cfg'"
  have "readable (raftstate (persister rf))" if rf: "rf \<in> set (insts cfg')" for rf
  proof -
    obtain a where a: "a < length (insts cfg)" "rf = insts cfg' ! a" using rf c
      unfolding crashed_def in_set_conv_nth by (elim conjE exE) simp
    then have "persister rf = persister (insts cfg ! a)" using c by (auto simp: crashed_def Kill_def)
    then show ?thesis using st a(1) by (simp add: disks_ok_def)
  qed
  moreover have "readable (raftstate ps)" if "Some (Detached ps) \<in> set (cfg_saved cfg')" for ps
  proof -
    have "Some (Detached ps) \<in> insert (map_option Detached (disk cfg i)) (set (cfg_saved cfg))"
      using that c set_update_subset_insert [of "cfg_saved cfg" i] by (auto simp: crashed_def)
    then show ?thesis using st content_readable [OF t(1) st t(2)] by (cases "disk cfg i") (auto simp: disks_ok_def)
  qed
  ultimately show "disks_ok cfg'" by (simp add: disks_ok_def)
qed

lemma crashed_disk:
  assumes "typed cfg" and "i < cfg_n cfg" and "crashed i cfg cfg'"
  shows "disk cfg' i = disk cfg i" and "\<not> connected cfg' ! i" and "rafts cfg' ! i = None"
  using assms typed_lengths [OF assms(1)] by (auto simp: crashed_def disk_def content_def split: option.splits)

text \<open>Starting a peer: the instance gets the content of the disk, and what may go wrong is a name drawn twice.\<close>

definition started :: "nat \<Rightarrow> string list \<Rightarrow> Raft \<Rightarrow> (string, int) Network \<Rightarrow> config \<Rightarrow> config" where
  "started i names rf rn cfg = cfg\<lparr>endnames := (endnames cfg)[i := Some names], cfg_saved := (cfg_saved cfg)[i := Some (OfInst (length (insts cfg)))],
      insts := insts cfg @ [rf], rafts := (rafts cfg)[i := Some (length (insts cfg))],
      cfg_net := AddServer (int i) (Some (length (insts cfg))) rn\<rparr>"

lemma start1_eval:
  assumes t: "typed cfg" and w: "wired cfg" and st: "disks_ok cfg" and i: "i < cfg_n cfg" and names: "names = map draw [0..<cfg_n cfg]"
  shows "\<exists>cfg1 rf. typed cfg1 \<and> wired cfg1 \<and> disks_ok cfg1 \<and> crashed i cfg cfg1
     \<and> persister rf = (case disk cfg i of None \<Rightarrow> MakePersister | Some ps \<Rightarrow> ps) \<and> readable (raftstate (persister rf))
     \<and> start1 alloc now r draw (int i) cfg = map_option (\<lambda>rn. started i names rf rn cfg1) (make_ends 0 names (cfg_net cfg1))"
proof -
  obtain cfg1 where c1: "crash1 (int i) cfg = Some cfg1" "typed cfg1" "wired cfg1" "crashed i cfg cfg1"
    using crash1_ok [OF t w i] by blast
  have st1: "disks_ok cfg1" using crashed_stored [OF st t i c1(4)] .
  have n: "cfg_n cfg1 = cfg_n cfg" using c1(4) by (simp add: crashed_def)
  define ps where "ps = (case disk cfg i of None \<Rightarrow> MakePersister | Some ps \<Rightarrow> ps)"
  have rd: "readable (raftstate ps)"
    using content_readable [OF t st i] by (auto simp: ps_def MakePersister_def split: option.splits)
  then obtain rf where rf: "Make alloc now r (length names) (int i) ps = Some rf" "persister rf = ps"
    using Make_readable [of ps alloc now r "length names" "int i"] by (auto simp: ReadRaftState_def clone_bytes_def)
  have fp: "fresh_persister (int i) (cfg1\<lparr>endnames := en, cfg_net := rn\<rparr>) = Some ps" for en rn
  proof -
    have "content (cfg1\<lparr>endnames := en, cfg_net := rn\<rparr>) = content cfg1" by (simp add: fun_eq_iff content_def split: saved.split)
    moreover have "case disk cfg1 i of None \<Rightarrow> cfg_saved cfg1 ! i = None | Some q \<Rightarrow> \<exists>p. cfg_saved cfg1 ! i = Some p \<and> content cfg1 p = Some q"
      using typed_content [OF c1(2), of i] i n by (auto simp: disk_def split: option.splits)
    ultimately show ?thesis
      using crashed_disk(1) [OF t i c1(4)] i n typed_lengths(4) [OF c1(2)]
      by (auto simp: fresh_persister_def ps_def split: option.splits)
  qed
  have "start1 alloc now r draw (int i) cfg = map_option (\<lambda>rn. started i names rf rn cfg1) (make_ends 0 names (cfg_net cfg1))"
    using c1(1) fp rf(1) i n typed_lengths [OF c1(2)]
    by (cases "make_ends 0 names (cfg_net cfg1)") (simp_all add: start1_def Let_def names slice_set_def started_def)
  moreover have "readable (raftstate (persister rf))" using rd rf(2) by simp
  ultimately show ?thesis using c1 st1 rf(2) unfolding ps_def by (intro exI [of _ cfg1] exI [of _ rf]) simp
qed

lemma start1_ok:
  assumes "typed cfg" and "wired cfg" and "disks_ok cfg" and "i < cfg_n cfg"
    and "distinct (map draw [0..<cfg_n cfg])" and "set (map draw [0..<cfg_n cfg]) \<inter> ends (cfg_net cfg) = {}"
  shows "\<exists>cfg'. start1 alloc now r draw (int i) cfg = Some cfg'"
proof -
  let ?names = "map draw [0..<cfg_n cfg]"
  obtain cfg1 rf where c: "crashed i cfg cfg1"
    "start1 alloc now r draw (int i) cfg = map_option (\<lambda>rn. started i ?names rf rn cfg1) (make_ends 0 ?names (cfg_net cfg1))"
    using start1_eval [OF assms(1-4) refl, where draw = draw and alloc = alloc and now = now and r = r] by blast
  moreover have "ends (cfg_net cfg1) = ends (cfg_net cfg)" using c(1) by (simp add: crashed_def)
  ultimately show ?thesis using make_ends_ok [OF assms(5), of "cfg_net cfg1" 0] assms(6) by auto
qed

lemma start1_inv:
  assumes t: "typed cfg" and w: "wired cfg" and st: "disks_ok cfg" and i: "i < cfg_n cfg"
    and run: "start1 alloc now r draw (int i) cfg = Some cfg'"
  shows "typed cfg' \<and> wired cfg' \<and> disks_ok cfg' \<and> cfg_n cfg' = cfg_n cfg
     \<and> disk cfg' i = Some (case disk cfg i of None \<Rightarrow> MakePersister | Some ps \<Rightarrow> ps)
     \<and> connected cfg' = (connected cfg)[i := False] \<and> rafts cfg' = (rafts cfg)[i := Some (length (insts cfg))]
     \<and> endnames cfg' = (endnames cfg)[i := Some (map draw [0..<cfg_n cfg])]
     \<and> ends (cfg_net cfg') = ends (cfg_net cfg) \<union> set (map draw [0..<cfg_n cfg])
     \<and> cfg_saved cfg' = (cfg_saved cfg)[i := Some (OfInst (length (insts cfg)))]
     \<and> (\<forall>a < length (insts cfg). insts cfg' ! a = (if rafts cfg ! i = Some a then Kill (insts cfg ! a) else insts cfg ! a))"
proof -
  let ?names = "map draw [0..<cfg_n cfg]"
  obtain cfg1 rf where c: "typed cfg1" "wired cfg1" "disks_ok cfg1" "crashed i cfg cfg1"
      "persister rf = (case disk cfg i of None \<Rightarrow> MakePersister | Some ps \<Rightarrow> ps)" "readable (raftstate (persister rf))"
      "Some cfg' = map_option (\<lambda>rn. started i ?names rf rn cfg1) (make_ends 0 ?names (cfg_net cfg1))"
    using start1_eval [OF t w st i refl, where draw = draw and alloc = alloc and now = now and r = r] run by auto
  then obtain rn where rn: "make_ends 0 ?names (cfg_net cfg1) = Some rn" and cfg': "cfg' = started i ?names rf rn cfg1"
    by (cases "make_ends 0 ?names (cfg_net cfg1)") auto
  have n: "cfg_n cfg1 = cfg_n cfg" "length (insts cfg1) = length (insts cfg)" using c(4) by (simp_all add: crashed_def)
  have "typed cfg'" "wired cfg'"
    using start1_wired [OF c(1,2) _ _ _ make_ends_Some [OF rn] _ refl cfg' [unfolded started_def]] i n crashed_disk [OF t i c(4)] by simp_all
  moreover have "disks_ok cfg'"
    using c(3,6) set_update_subset_insert [of "cfg_saved cfg1" i] by (fastforce simp: disks_ok_def cfg' started_def)
  moreover have "disk cfg' i = Some (persister rf)"
    using i n typed_lengths(4) [OF c(1)] by (simp add: disk_def cfg' started_def content_def nth_append)
  moreover have "ends (cfg_net cfg') = ends (cfg_net cfg) \<union> set ?names"
    using make_ends_Some [OF rn] c(4) by (simp add: cfg' started_def added_ends_def AddServer_def crashed_def)
  ultimately show ?thesis using c(4,5) n by (simp add: cfg' started_def crashed_def nth_append)
qed

subsection \<open>Runs of the harness\<close>

text \<open>A live peer writes to the persister that the harness keeps for it.\<close>

definition owned :: "config \<Rightarrow> bool" where
  "owned cfg \<longleftrightarrow> (\<forall>i < cfg_n cfg. \<forall>a. rafts cfg ! i = Some a \<longrightarrow> cfg_saved cfg ! i = Some (OfInst a))"

definition harness_inv :: "config \<Rightarrow> bool" where
  "harness_inv cfg \<longleftrightarrow> typed cfg \<and> wired cfg \<and> disks_ok cfg \<and> owned cfg"

text \<open>
  What happens between two looks of a test: operations of the harness, a change of the network's
  settings, and the peers, dead ones included, that go on as they like as long as what they persist
  can be decoded.
\<close>

inductive harness_step :: "config \<Rightarrow> config \<Rightarrow> bool" where
  Connects: "i < cfg_n cfg \<Longrightarrow> connect (int i) cfg = Some cfg' \<Longrightarrow> harness_step cfg cfg'"
| Disconnects: "i < cfg_n cfg \<Longrightarrow> disconnect (int i) cfg = Some cfg' \<Longrightarrow> harness_step cfg cfg'"
| Crashes: "i < cfg_n cfg \<Longrightarrow> crash1 (int i) cfg = Some cfg' \<Longrightarrow> harness_step cfg cfg'"
| Starts: "i < cfg_n cfg \<Longrightarrow> start1 alloc now r draw (int i) cfg = Some cfg' \<Longrightarrow> harness_step cfg cfg'"
| Unreliable: "harness_step cfg (setunreliable b cfg)"
| Reorders: "harness_step cfg (setlongreordering b cfg)"
| Peers: "length is = length (insts cfg) \<Longrightarrow> \<forall>rf \<in> set is. readable (raftstate (persister rf)) \<Longrightarrow> harness_step cfg (cfg\<lparr>insts := is\<rparr>)"

inductive harness_reach :: "config \<Rightarrow> config \<Rightarrow> bool" where
  Here: "harness_reach cfg cfg"
| Onward: "harness_reach cfg cfg' \<Longrightarrow> harness_step cfg' cfg'' \<Longrightarrow> harness_reach cfg cfg''"

definition ready :: "config \<Rightarrow> bool" where
  "ready cfg \<longleftrightarrow> (\<forall>i < cfg_n cfg. endnames cfg ! i \<noteq> None)"

lemma inv_connect:
  assumes "harness_inv cfg" and "i < cfg_n cfg" and "endnames cfg ! i \<noteq> None"
  shows "\<exists>cfg'. connect (int i) cfg = Some cfg' \<and> harness_inv cfg' \<and> cfg_n cfg' = cfg_n cfg \<and> endnames cfg' = endnames cfg"
proof -
  obtain cfg' where "connect (int i) cfg = Some cfg'" "typed cfg'" "wired cfg'" "cfg_n cfg' = cfg_n cfg" "insts cfg' = insts cfg"
    "cfg_saved cfg' = cfg_saved cfg" "endnames cfg' = endnames cfg" "rafts cfg' = rafts cfg"
    using connect_wired [of cfg i] assms by (auto simp: harness_inv_def)
  with assms(1) show ?thesis by (auto simp: harness_inv_def owned_def disks_ok_def)
qed

lemma inv_disconnect:
  assumes "harness_inv cfg" and "i < cfg_n cfg"
  shows "\<exists>cfg'. disconnect (int i) cfg = Some cfg' \<and> harness_inv cfg' \<and> cfg_n cfg' = cfg_n cfg \<and> endnames cfg' = endnames cfg"
proof -
  obtain cfg' where "disconnect (int i) cfg = Some cfg'" "typed cfg'" "wired cfg'" "cfg_n cfg' = cfg_n cfg" "insts cfg' = insts cfg"
    "cfg_saved cfg' = cfg_saved cfg" "endnames cfg' = endnames cfg" "rafts cfg' = rafts cfg"
    using disconnect_wired [of cfg i] assms by (auto simp: harness_inv_def)
  with assms(1) show ?thesis by (auto simp: harness_inv_def owned_def disks_ok_def)
qed

lemma inv_crash1:
  assumes "harness_inv cfg" and "i < cfg_n cfg"
  shows "\<exists>cfg'. crash1 (int i) cfg = Some cfg' \<and> harness_inv cfg' \<and> crashed i cfg cfg'"
proof -
  have t: "typed cfg" "wired cfg" "disks_ok cfg" using assms(1) by (auto simp: harness_inv_def)
  obtain cfg' where c: "crash1 (int i) cfg = Some cfg'" "typed cfg'" "wired cfg'" "crashed i cfg cfg'"
    using crash1_ok [OF t(1,2) assms(2)] by blast
  moreover have "owned cfg'"
    using c(4) assms typed_lengths [OF t(1)] by (auto simp: harness_inv_def owned_def crashed_def nth_list_update)
  ultimately show ?thesis using crashed_stored [OF t(3,1) assms(2) c(4)] by (auto simp: harness_inv_def)
qed

lemma inv_start1:
  assumes "harness_inv cfg" and "i < cfg_n cfg" and "start1 alloc now r draw (int i) cfg = Some cfg'"
  shows "harness_inv cfg'" and "cfg_n cfg' = cfg_n cfg" and "endnames cfg' = (endnames cfg)[i := Some (map draw [0..<cfg_n cfg])]"
    and "ends (cfg_net cfg') = ends (cfg_net cfg) \<union> set (map draw [0..<cfg_n cfg])"
proof -
  have t: "typed cfg" "wired cfg" "disks_ok cfg" using assms(1) by (auto simp: harness_inv_def)
  note s = start1_inv [OF t assms(2,3)]
  have "owned cfg'" using s assms(1,2) typed_lengths [OF t(1)] by (auto simp: harness_inv_def owned_def nth_list_update)
  with s show "harness_inv cfg'" "cfg_n cfg' = cfg_n cfg" "endnames cfg' = (endnames cfg)[i := Some (map draw [0..<cfg_n cfg])]"
    "ends (cfg_net cfg') = ends (cfg_net cfg) \<union> set (map draw [0..<cfg_n cfg])" by (auto simp: harness_inv_def)
qed

lemma harness_inv_net:
  assumes "harness_inv cfg" and "ends rn = ends (cfg_net cfg)" and "enabled rn = enabled (cfg_net cfg)"
    and "servers rn = servers (cfg_net cfg)" and "connections rn = connections (cfg_net cfg)"
  shows "harness_inv (cfg\<lparr>cfg_net := rn\<rparr>)"
  using assms by (simp add: harness_inv_def typed_def wired_def disks_ok_def owned_def name_at_def)

lemma harness_step_inv:
  assumes "harness_step cfg cfg'" and "harness_inv cfg" and "ready cfg"
  shows "harness_inv cfg' \<and> ready cfg' \<and> cfg_n cfg' = cfg_n cfg"
  using assms
proof (induction rule: harness_step.induct)
  case (Connects i cfg cfg')
  then show ?case using inv_connect [of cfg i] by (auto simp: ready_def)
next
  case (Disconnects i cfg cfg')
  then show ?case using inv_disconnect [of cfg i] by (auto simp: ready_def)
next
  case (Crashes i cfg cfg')
  then show ?case using inv_crash1 [of cfg i] by (auto simp: ready_def crashed_def)
next
  case (Starts i cfg alloc now r draw cfg')
  then show ?case using inv_start1 [OF Starts.prems(1) Starts.hyps] typed_lengths(5) [of cfg]
    by (auto simp: ready_def nth_list_update harness_inv_def)
next
  case (Unreliable cfg b)
  then show ?case using harness_inv_net by (simp add: setunreliable_def Reliable_def ready_def)
next
  case (Reorders cfg b)
  then show ?case using harness_inv_net by (simp add: setlongreordering_def LongReordering_def ready_def)
next
  case (Peers "is" cfg)
  then show ?case by (simp add: harness_inv_def typed_def wired_def disks_ok_def owned_def name_at_def ready_def)
qed

lemma harness_reach_inv: "harness_reach cfg cfg' \<Longrightarrow> harness_inv cfg \<Longrightarrow> ready cfg \<Longrightarrow> harness_inv cfg' \<and> ready cfg' \<and> cfg_n cfg' = cfg_n cfg"
proof (induction rule: harness_reach.induct)
  case (Onward cfg cfg' cfg'')
  then show ?case using harness_step_inv [of cfg' cfg''] by auto
qed simp

subsection \<open>The first configuration\<close>

lemma new_config_inv: "harness_inv (new_config now n)"
  by (simp add: harness_inv_def new_config_def typed_def wired_def disks_ok_def owned_def name_at_def MakeNetwork_def)

lemma inv_logs: "harness_inv cfg \<Longrightarrow> length ls = length (logs cfg) \<Longrightarrow> harness_inv (cfg\<lparr>logs := ls\<rparr>)"
  by (simp add: harness_inv_def typed_def wired_def disks_ok_def owned_def name_at_def)

lemma start_all_inv:
  assumes "start_all alloc now r draw is cfg = Some cfg'" and "harness_inv cfg" and "set is \<subseteq> {..<cfg_n cfg}"
  shows "harness_inv cfg' \<and> cfg_n cfg' = cfg_n cfg
     \<and> (\<forall>k < cfg_n cfg. k \<in> set is \<or> endnames cfg ! k \<noteq> None \<longrightarrow> endnames cfg' ! k \<noteq> None)"
  using assms
proof (induction "is" arbitrary: cfg)
  case (Cons i "is")
  from Cons.prems(1) obtain ls cfg1 where c: "slice_set (logs cfg) (int i) Map.empty = Some ls"
    "start1 alloc now (r i) (draw i) (int i) (cfg\<lparr>logs := ls\<rparr>) = Some cfg1" "start_all alloc now r draw is cfg1 = Some cfg'"
    by (auto simp: option_bind_simps)
  have inv: "harness_inv (cfg\<lparr>logs := ls\<rparr>)" using inv_logs [OF Cons.prems(2)] slice_set_length [OF c(1)] by simp
  have i: "i < cfg_n (cfg\<lparr>logs := ls\<rparr>)" using Cons.prems(3) by simp
  note s = inv_start1 [OF inv i c(2)]
  have len: "length (endnames cfg) = cfg_n cfg" using Cons.prems(2) typed_lengths(5) by (simp add: harness_inv_def)
  have "\<forall>k < cfg_n cfg. k \<in> set (i # is) \<or> endnames cfg ! k \<noteq> None \<longrightarrow> k \<in> set is \<or> endnames cfg1 ! k \<noteq> None"
    using s(3) len i by (auto simp: nth_list_update split: if_splits)
  moreover have "set is \<subseteq> {..<cfg_n cfg1}" using Cons.prems(3) s(2) by simp
  ultimately show ?case using Cons.IH [OF c(3) s(1)] s(2) by auto
qed simp

lemma start_all_ok:
  assumes "harness_inv cfg" and "set is \<subseteq> {..<cfg_n cfg}" and "distinct is"
    and inj: "\<And>i i' j j'. draw i j = draw i' j' \<Longrightarrow> i = i' \<and> j = j'"
    and "\<forall>i \<in> set is. \<forall>j. draw i j \<notin> ends (cfg_net cfg)"
  shows "\<exists>cfg'. start_all alloc now r draw is cfg = Some cfg'"
  using assms(1-3,5)
proof (induction "is" arbitrary: cfg)
  case (Cons i "is")
  have len: "length (logs cfg) = cfg_n cfg" "i < cfg_n cfg" using Cons.prems(1,2) typed_lengths(6) by (simp_all add: harness_inv_def)
  let ?cfg = "cfg\<lparr>logs := (logs cfg)[i := Map.empty]\<rparr>"
  have inv: "harness_inv ?cfg" using inv_logs [OF Cons.prems(1)] by simp
  have "distinct (map (draw i) [0..<cfg_n ?cfg])" using inj by (auto simp: distinct_map inj_on_def)
  moreover have "set (map (draw i) [0..<cfg_n ?cfg]) \<inter> ends (cfg_net ?cfg) = {}" using Cons.prems(4) by auto
  ultimately obtain cfg1 where c: "start1 alloc now (r i) (draw i) (int i) ?cfg = Some cfg1"
    using start1_ok [of ?cfg i "draw i" alloc now "r i"] inv len by (auto simp: harness_inv_def)
  note s = inv_start1 [OF inv _ c]
  have "\<forall>k \<in> set is. \<forall>j. draw k j \<notin> ends (cfg_net cfg1)"
    using Cons.prems(3,4) s(4) len(2) inj by (auto dest: inj)
  then obtain cfg' where "start_all alloc now r draw is cfg1 = Some cfg'"
    using Cons.IH [of cfg1] s(1,2) len(2) Cons.prems(2,3) by auto
  then show ?case using c len by (simp add: slice_set_def)
qed simp

lemma connect_all_ok:
  assumes "harness_inv cfg" and "ready cfg" and "set is \<subseteq> {..<cfg_n cfg}"
  shows "\<exists>cfg'. connect_all is cfg = Some cfg' \<and> harness_inv cfg' \<and> ready cfg' \<and> cfg_n cfg' = cfg_n cfg"
  using assms
proof (induction "is" arbitrary: cfg)
  case (Cons i "is")
  then obtain cfg1 where c: "connect (int i) cfg = Some cfg1" "harness_inv cfg1" "cfg_n cfg1 = cfg_n cfg" "endnames cfg1 = endnames cfg"
    using inv_connect [of cfg i] by (auto simp: ready_def)
  then have "ready cfg1" "set is \<subseteq> {..<cfg_n cfg1}" using Cons.prems(2,3) by (auto simp: ready_def)
  then show ?case using Cons.IH [OF c(2)] c by auto
qed simp

definition first_config :: "int \<Rightarrow> nat \<Rightarrow> bool \<Rightarrow> config" where
  "first_config now n unreliable = (let cfg = setunreliable unreliable (new_config now n) in cfg\<lparr>cfg_net := LongDelays True (cfg_net cfg)\<rparr>)"

lemma first_config_inv: "harness_inv (first_config now n unreliable)" "cfg_n (first_config now n unreliable) = n"
  "ends (cfg_net (first_config now n unreliable)) = {}"
  by (simp_all add: harness_inv_def first_config_def Let_def setunreliable_def LongDelays_def Reliable_def new_config_def typed_def wired_def
      disks_ok_def owned_def name_at_def MakeNetwork_def)

lemma make_config_inv:
  assumes "make_config alloc now r draw n unreliable = Some cfg"
  shows "harness_inv cfg \<and> ready cfg \<and> cfg_n cfg = n"
proof -
  obtain cfg2 where c: "start_all alloc now r draw [0..<n] (first_config now n unreliable) = Some cfg2" "connect_all [0..<n] cfg2 = Some cfg"
    using assms by (auto simp: make_config_def first_config_def Let_def option_bind_simps)
  have "harness_inv cfg2 \<and> ready cfg2 \<and> cfg_n cfg2 = n"
    using start_all_inv [OF c(1) first_config_inv(1)] first_config_inv(2) by (auto simp: ready_def atLeast0LessThan)
  then show ?thesis using connect_all_ok [of cfg2 "[0..<n]"] c(2) by (auto simp: atLeast0LessThan)
qed

lemma make_config_ok:
  assumes "\<And>i i' j j'. draw i j = draw i' j' \<Longrightarrow> i = i' \<and> j = j'"
  shows "\<exists>cfg. make_config alloc now r draw n unreliable = Some cfg"
proof -
  obtain cfg2 where c: "start_all alloc now r draw [0..<n] (first_config now n unreliable) = Some cfg2"
  proof -
    have sub: "set [0..<n] \<subseteq> {..<cfg_n (first_config now n unreliable)}" by (simp add: first_config_inv atLeast0LessThan)
    have "\<exists>cfg2. start_all alloc now r draw [0..<n] (first_config now n unreliable) = Some cfg2"
      by (rule start_all_ok [OF first_config_inv(1) sub distinct_upt]) (auto dest: assms simp: first_config_inv(3))
    then show ?thesis using that by blast
  qed
  have "harness_inv cfg2 \<and> ready cfg2 \<and> cfg_n cfg2 = n"
    using start_all_inv [OF c(1) first_config_inv(1)] first_config_inv(2) by (auto simp: ready_def atLeast0LessThan)
  then obtain cfg where "connect_all [0..<n] cfg2 = Some cfg" using connect_all_ok [of cfg2 "[0..<n]"] by (auto simp: atLeast0LessThan)
  with c show ?thesis by (auto simp: make_config_def first_config_def Let_def)
qed

subsection \<open>Properties\<close>

text \<open>C30: The harness does not go wrong: in every state that a test can reach from \<^verbatim>\<open>make_config\<close>, by attaching,
  detaching, crashing and starting peers in any order while the peers, dead ones included, go on, the
  tables of the harness have one row per peer with \<^verbatim>\<open>n\<close> end names each and their pointers lead to
  instances; so \<^verbatim>\<open>connect\<close>, \<^verbatim>\<open>disconnect\<close> and \<^verbatim>\<open>crash1\<close> of a peer never index out of range or follow a nil
  pointer, and neither does \<^verbatim>\<open>start1\<close> when the names it draws are new.\<close>

theorem harness_well_typed:
  assumes "make_config alloc now r draw n unreliable = Some cfg0" and "harness_reach cfg0 cfg" and "i < n"
  shows "typed cfg \<and> cfg_n cfg = n \<and> connect (int i) cfg \<noteq> None \<and> disconnect (int i) cfg \<noteq> None \<and> crash1 (int i) cfg \<noteq> None
     \<and> (distinct (map draw' [0..<n]) \<longrightarrow> set (map draw' [0..<n]) \<inter> ends (cfg_net cfg) = {}
          \<longrightarrow> start1 alloc' now' r' draw' (int i) cfg \<noteq> None)"
proof -
  have inv: "harness_inv cfg" "ready cfg" "cfg_n cfg = n" using harness_reach_inv [OF assms(2)] make_config_inv [OF assms(1)] by auto
  then have t: "typed cfg" "wired cfg" "disks_ok cfg" by (auto simp: harness_inv_def)
  have i: "i < cfg_n cfg" using assms(3) inv(3) by simp
  then show ?thesis
    using t inv(3) inv_connect [OF inv(1) i] inv_disconnect [OF inv(1) i] inv_crash1 [OF inv(1) i] inv(2)
      start1_ok [OF t i, of draw' alloc' now' r'] by (auto simp: ready_def)
qed

text \<open>Names of three peers, by counting.\<close>

definition sample_draw :: "nat \<Rightarrow> nat \<Rightarrow> string" where
  "sample_draw i j = replicate i CHR ''a'' @ CHR ''b'' # replicate j CHR ''a''"

lemma sample_draw_inj: "sample_draw i j = sample_draw i' j' \<Longrightarrow> i = i' \<and> j = j'"
proof -
  have "takeWhile (\<lambda>c. c = CHR ''a'') (sample_draw i j) = replicate i CHR ''a''" for i j
    by (induction i) (simp_all add: sample_draw_def)
  moreover have "length (sample_draw i j) = Suc (i + j)" for i j by (simp add: sample_draw_def)
  moreover assume "sample_draw i j = sample_draw i' j'"
  ultimately show ?thesis by (metis add_left_cancel length_replicate old.nat.inject)
qed

lemma sample_make_config: "\<exists>cfg. make_config (\<lambda>k. k) 0 (\<lambda>_. 0) sample_draw 3 False = Some cfg"
  by (rule make_config_ok) (rule sample_draw_inj)

theorem harness_well_typed_witness:
  "\<exists>cfg. make_config (\<lambda>k. k) 0 (\<lambda>_. 0) sample_draw 3 False = Some cfg \<and> typed cfg \<and> crash1 2 cfg \<noteq> None"
proof -
  obtain cfg where c: "make_config (\<lambda>k. k) 0 (\<lambda>_. 0) sample_draw 3 False = Some cfg" using sample_make_config by blast
  from harness_well_typed [OF c harness_reach.Here, of 2] c show ?thesis by auto
qed

text \<open>C29: Isolation: in every state that a test can reach, the current end of peer \<^verbatim>\<open>i\<close> towards peer \<^verbatim>\<open>j\<close> is attached to a
  server exactly when both peers are attached to the net and \<^verbatim>\<open>j\<close> is running, and the server is the one
  of the current instance of \<^verbatim>\<open>j\<close>.  An end of an earlier instance, which cannot be stopped, is attached to
  nothing: only the current ends are ever enabled.\<close>

theorem harness_isolates:
  assumes "make_config alloc now r draw n unreliable = Some cfg0" and "harness_reach cfg0 cfg" and "i < n" and "j < n"
  shows "\<exists>e. endname (int i) (int j) cfg = Some e
     \<and> (\<forall>name a. attached e name a (cfg_net cfg) \<longleftrightarrow> connected cfg ! i \<and> connected cfg ! j \<and> name = int j \<and> rafts cfg ! j = Some a)
     \<and> (\<forall>e' name a. attached e' name a (cfg_net cfg) \<longrightarrow> (\<exists>k < n. \<exists>l < n. endname (int k) (int l) cfg = Some e'))"
proof -
  have inv: "harness_inv cfg" "ready cfg" and n: "cfg_n cfg = n" using harness_reach_inv [OF assms(2)] make_config_inv [OF assms(1)] by auto
  have t: "typed cfg" and w: "wired cfg" using inv(1) by (auto simp: harness_inv_def)
  have en: "endname (int k) (int l) cfg = name_at cfg k l" if "k < n" "l < n" for k l using typed_endname [OF t] that n by simp
  obtain e where e: "name_at cfg i j = Some e" using inv(2) assms(3) n by (auto simp: ready_def name_at_def)
  have "connections (cfg_net cfg) e = Some (int j)" "enabled (cfg_net cfg) e \<longleftrightarrow> connected cfg ! i \<and> connected cfg ! j"
    "servers (cfg_net cfg) (int j) = rafts cfg ! j"
    using w e assms(3,4) n by (auto simp: wired_def)
  then have "attached e name a (cfg_net cfg) \<longleftrightarrow> connected cfg ! i \<and> connected cfg ! j \<and> name = int j \<and> rafts cfg ! j = Some a" for name a
    by (auto simp: attached_def)
  moreover have "\<exists>k < n. \<exists>l < n. endname (int k) (int l) cfg = Some e'" if at: "attached e' name a (cfg_net cfg)" for e' name a
  proof -
    obtain k l where "k < n" "l < n" "name_at cfg k l = Some e'" using w n at by (auto simp: wired_def attached_def)
    then show ?thesis using en by metis
  qed
  ultimately show ?thesis using en [OF assms(3,4)] e by auto
qed

theorem harness_isolates_witness:
  "\<exists>cfg e. make_config (\<lambda>k. k) 0 (\<lambda>_. 0) sample_draw 3 False = Some cfg \<and> endname 0 2 cfg = Some e"
proof -
  obtain cfg where c: "make_config (\<lambda>k. k) 0 (\<lambda>_. 0) sample_draw 3 False = Some cfg" using sample_make_config by blast
  from harness_isolates [OF c harness_reach.Here, of 0 2] c show ?thesis by auto
qed


definition sample_restart :: "(config \<times> config) option" where
  "sample_restart = do {
     cfg \<leftarrow> make_config (\<lambda>k. k) 0 (\<lambda>_. 0) sample_draw 1 False;
     cfg' \<leftarrow> start1 (\<lambda>k. k) 7 0 (sample_draw 5) 0 cfg;
     Some (cfg, cfg')
   }"

lemma sample_restart_runs: "map_option (\<lambda>(cfg, cfg'). (rafts cfg, rafts cfg')) sample_restart = Some ([Some 0], [Some 1])"
  by code_simp


end
