(* ===== verification/Harness_Checks.thy ===== *)
theory Harness_Checks
  imports Harness_Net
begin

text \<open>
  The rest of \<^verbatim>\<open>src/raft/config.go\<close>: what the harness checks.  The appliers compare what the peers
  apply, the other functions look at the peers while these go on: the configuration that a function
  sees when it looks at peer \<open>i\<close> is \<open>look i\<close>, an argument.  The number of peers \<open>n\<close> never changes.  A \<^verbatim>\<open>t.Fatal\<close> is a value of \<open>failure\<close>, \<open>Crash\<close> stands for a panic.
  \<^verbatim>\<open>log.Fatal\<close> in an applier ends the process, so the applier has no further state.
\<close>

subsection \<open>Appliers\<close>

text \<open>The error message as a value, \<open>None\<close> for the empty string.  \<open>i\<close> is the peer whose message is handled.\<close>

fun conflict :: "int \<Rightarrow> int \<Rightarrow> iface \<Rightarrow> int \<Rightarrow> (int \<rightharpoonup> iface) list \<Rightarrow> apply_error option \<Rightarrow> apply_error option" where
  "conflict i index v j [] err = err"
| "conflict i index v j (l # ls) err =
     (case l index of
        Some old \<Rightarrow> conflict i index v (j + 1) ls (if old \<noteq> v then Some (CommitDiffers index i v j old) else err)
      | None \<Rightarrow> conflict i index v (j + 1) ls err)"

definition checkLogs :: "int \<Rightarrow> ApplyMsg \<Rightarrow> config \<Rightarrow> ((apply_error option \<times> bool) \<times> config) option" where
  "checkLogs i m cfg = do {
     let v = am_Command m;
     let err = conflict i (CommandIndex m) v 0 (logs cfg) None;
     l \<leftarrow> slice_get (logs cfg) i;
     let prevok = (l (CommandIndex m - 1) \<noteq> None);
     ls \<leftarrow> slice_set (logs cfg) i (l(CommandIndex m \<mapsto> v));
     let mi = (if CommandIndex m > maxIndex cfg then CommandIndex m else maxIndex cfg);
     Some ((err, prevok), cfg\<lparr>logs := ls, maxIndex := mi\<rparr>)
   }"

text \<open>One message; \<open>Inl\<close> is the end of the process by \<^verbatim>\<open>log.Fatalf\<close>.\<close>

definition apply_check :: "int \<Rightarrow> ApplyMsg \<Rightarrow> config \<Rightarrow> (apply_error + config) option" where
  "apply_check i m cfg = do {
     ((err, prevok), cfg1) \<leftarrow> checkLogs i m cfg;
     let err' = (if CommandIndex m > 1 \<and> prevok = False then Some (OutOfOrder i (CommandIndex m)) else err);
     Some (case err' of Some e \<Rightarrow> Inl e | None \<Rightarrow> Inr cfg1)
   }"

definition applier :: "int \<Rightarrow> ApplyMsg \<Rightarrow> config \<Rightarrow> (apply_error + config) option" where
  "applier i m cfg = (if CommandValid m = False then Some (Inr cfg) else apply_check i m cfg)"

text \<open>
  The applier with snapshots keeps \<^verbatim>\<open>lastApplied\<close>; \<open>GoSnapshot\<close> is the call of the peer's \<^verbatim>\<open>Snapshot\<close>, which
  works in a goroutine of its own.
\<close>

datatype snap_result = Ended apply_error | Applied int config "(nat \<times> int \<times> bytes) list"

definition SnapShotInterval :: int where
  "SnapShotInterval = 10"

definition raft_at :: "int \<Rightarrow> config \<Rightarrow> (nat \<times> Raft) option" where
  "raft_at i cfg = do {
     r \<leftarrow> slice_get (rafts cfg) i;
     a \<leftarrow> r;
     rf \<leftarrow> slice_get (insts cfg) (int a);
     Some (a, rf)
   }"

definition applierSnap_install :: "int \<Rightarrow> ApplyMsg \<Rightarrow> int \<Rightarrow> config \<Rightarrow> snap_result option" where
  "applierSnap_install i m applied cfg = do {
     (a, rf) \<leftarrow> raft_at i cfg;
     (rf', ok) \<leftarrow> CondInstallSnapshot (SnapshotTerm m) (SnapshotIndex m) (am_Snapshot m) rf;
     is \<leftarrow> slice_set (insts cfg) (int a) rf';
     let cfg1 = cfg\<lparr>insts := is\<rparr>;
     (if ok then do {
        (v, rest) \<leftarrow> decode_int (am_Snapshot m);
        ls \<leftarrow> slice_set (logs cfg1) i [SnapshotIndex m \<mapsto> IInt v];
        Some (Applied (SnapshotIndex m) (cfg1\<lparr>logs := ls\<rparr>) [])
      }
      else Some (Applied applied cfg1 []))
   }"

definition applierSnap_command :: "int \<Rightarrow> ApplyMsg \<Rightarrow> config \<Rightarrow> snap_result option" where
  "applierSnap_command i m cfg = do {
     r \<leftarrow> apply_check i m cfg;
     (case r of
        Inl e \<Rightarrow> Some (Ended e)
      | Inr cfg1 \<Rightarrow>
          if (CommandIndex m + 1) mod SnapShotInterval = 0 then do {
            w \<leftarrow> encode_iface (am_Command m);
            (a, rf) \<leftarrow> raft_at i cfg1;
            Some (Applied (CommandIndex m) cfg1 [(a, CommandIndex m, w)])
          }
          else Some (Applied (CommandIndex m) cfg1 []))
   }"

definition applierSnap :: "int \<Rightarrow> ApplyMsg \<Rightarrow> int \<Rightarrow> config \<Rightarrow> snap_result option" where
  "applierSnap i m applied cfg =
     (if SnapshotValid m then applierSnap_install i m applied cfg
      else if CommandValid m \<and> CommandIndex m > applied then applierSnap_command i m cfg
      else Some (Applied applied cfg []))"

subsection \<open>Looking at the peers\<close>

datatype failure =
    Crash
  | ManyLeaders
  | NoLeaderFound
  | TermsDisagree
  | UnexpectedLeader int
  | ApplyFailed apply_error
  | ValuesDiffer int iface iface
  | OnlyDecided int int
  | NoAgreement iface
  | TookTooLong

definition peer_state :: "nat \<Rightarrow> config \<Rightarrow> (int \<times> bool) option" where
  "peer_state i cfg = map_option (\<lambda>(a, rf). GetState rf) (raft_at (int i) cfg)"

text \<open>The map from terms to the attached peers that claim to be leaders.\<close>

fun leaders_loop :: "(nat \<Rightarrow> config) \<Rightarrow> nat list \<Rightarrow> (int \<rightharpoonup> int list) \<Rightarrow> (int \<rightharpoonup> int list) option" where
  "leaders_loop look [] leaders = Some leaders"
| "leaders_loop look (i # is) leaders = do {
     c \<leftarrow> slice_get (connected (look i)) (int i);
     (if c then do {
        (term, leader) \<leftarrow> peer_state i (look i);
        leaders_loop look is
          (if leader then leaders(term \<mapsto> (case leaders term of None \<Rightarrow> [] | Some ls \<Rightarrow> ls) @ [int i]) else leaders)
      }
      else leaders_loop look is leaders)
   }"

text \<open>
  The range over the map stops at a term with more than one leader and otherwise finds the largest
  term; its order does not matter.  \<open>terms\<close> are the keys.
\<close>

fun lastTerm_loop :: "(int \<rightharpoonup> int list) \<Rightarrow> int list \<Rightarrow> int \<Rightarrow> failure + int" where
  "lastTerm_loop leaders [] lastTermWithLeader = Inr lastTermWithLeader"
| "lastTerm_loop leaders (term # terms) lastTermWithLeader =
     (if length (case leaders term of None \<Rightarrow> [] | Some ls \<Rightarrow> ls) > 1 then Inl ManyLeaders
      else lastTerm_loop leaders terms (if term > lastTermWithLeader then term else lastTermWithLeader))"

definition checkOneLeader_round :: "int list \<Rightarrow> (int \<rightharpoonup> int list) \<Rightarrow> failure + int option" where
  "checkOneLeader_round terms leaders =
     (case lastTerm_loop leaders terms (- 1) of
        Inl f \<Rightarrow> Inl f
      | Inr lastTermWithLeader \<Rightarrow>
          if terms \<noteq> [] then
            (case leaders lastTermWithLeader of
               None \<Rightarrow> Inl Crash
             | Some ls \<Rightarrow> (case ls of [] \<Rightarrow> Inl Crash | l # _ \<Rightarrow> Inr (Some l)))
          else Inr None)"

fun checkOneLeader_loop :: "((int \<rightharpoonup> int list) \<Rightarrow> int list) \<Rightarrow> nat \<Rightarrow> (nat \<Rightarrow> config) list \<Rightarrow> failure + int" where
  "checkOneLeader_loop keys n [] = Inl NoLeaderFound"
| "checkOneLeader_loop keys n (look # looks) =
     (case leaders_loop look [0..<n] Map.empty of
        None \<Rightarrow> Inl Crash
      | Some leaders \<Rightarrow>
          (case checkOneLeader_round (keys leaders) leaders of
             Inl f \<Rightarrow> Inl f
           | Inr (Some l) \<Rightarrow> Inr l
           | Inr None \<Rightarrow> checkOneLeader_loop keys n looks))"

definition checkOneLeader :: "((int \<rightharpoonup> int list) \<Rightarrow> int list) \<Rightarrow> nat \<Rightarrow> (nat \<Rightarrow> nat \<Rightarrow> config) \<Rightarrow> failure + int" where
  "checkOneLeader keys n look = checkOneLeader_loop keys n (map look [0..<10])"

fun checkTerms_loop :: "(nat \<Rightarrow> config) \<Rightarrow> nat list \<Rightarrow> int \<Rightarrow> failure + int" where
  "checkTerms_loop look [] term = Inr term"
| "checkTerms_loop look (i # is) term =
     (case slice_get (connected (look i)) (int i) of
        None \<Rightarrow> Inl Crash
      | Some c \<Rightarrow>
          if c then
            (case peer_state i (look i) of
               None \<Rightarrow> Inl Crash
             | Some (xterm, _) \<Rightarrow>
                 if term = - 1 then checkTerms_loop look is xterm
                 else if term \<noteq> xterm then Inl TermsDisagree
                 else checkTerms_loop look is term)
          else checkTerms_loop look is term)"

definition checkTerms :: "nat \<Rightarrow> (nat \<Rightarrow> config) \<Rightarrow> failure + int" where
  "checkTerms n look = checkTerms_loop look [0..<n] (- 1)"

fun checkNoLeader_loop :: "(nat \<Rightarrow> config) \<Rightarrow> nat list \<Rightarrow> failure + unit" where
  "checkNoLeader_loop look [] = Inr ()"
| "checkNoLeader_loop look (i # is) =
     (case slice_get (connected (look i)) (int i) of
        None \<Rightarrow> Inl Crash
      | Some c \<Rightarrow>
          if c then
            (case peer_state i (look i) of
               None \<Rightarrow> Inl Crash
             | Some (_, is_leader) \<Rightarrow> if is_leader then Inl (UnexpectedLeader (int i)) else checkNoLeader_loop look is)
          else checkNoLeader_loop look is)"

definition checkNoLeader :: "nat \<Rightarrow> (nat \<Rightarrow> config) \<Rightarrow> failure + unit" where
  "checkNoLeader n look = checkNoLeader_loop look [0..<n]"

subsection \<open>Agreement\<close>

fun nCommitted_loop :: "int \<Rightarrow> (nat \<Rightarrow> config) \<Rightarrow> nat list \<Rightarrow> int \<Rightarrow> iface \<Rightarrow> failure + int \<times> iface" where
  "nCommitted_loop index look [] cnt cmd = Inr (cnt, cmd)"
| "nCommitted_loop index look (i # is) cnt cmd =
     (case slice_get (applyErr (look i)) (int i) of
        None \<Rightarrow> Inl Crash
      | Some (Some e) \<Rightarrow> Inl (ApplyFailed e)
      | Some None \<Rightarrow>
          (case slice_get (logs (look i)) (int i) of
             None \<Rightarrow> Inl Crash
           | Some l \<Rightarrow>
               (case l index of
                  None \<Rightarrow> nCommitted_loop index look is cnt cmd
                | Some cmd1 \<Rightarrow>
                    if cnt > 0 \<and> cmd \<noteq> cmd1 then Inl (ValuesDiffer index cmd cmd1)
                    else nCommitted_loop index look is (cnt + 1) cmd1)))"

definition nCommitted :: "int \<Rightarrow> nat \<Rightarrow> (nat \<Rightarrow> config) \<Rightarrow> failure + int \<times> iface" where
  "nCommitted index n look = nCommitted_loop index look [0..<n] 0 INil"

text \<open>
  One iteration of \<^verbatim>\<open>wait\<close> has a look for the count and a look for the terms; \<open>Inr None\<close> when a peer has moved on.
\<close>

fun moved_on :: "(nat \<Rightarrow> config) \<Rightarrow> nat list \<Rightarrow> int \<Rightarrow> failure + bool" where
  "moved_on look [] startTerm = Inr False"
| "moved_on look (i # is) startTerm =
     (case peer_state i (look i) of
        None \<Rightarrow> Inl Crash
      | Some (t, _) \<Rightarrow> if t > startTerm then Inr True else moved_on look is startTerm)"

fun wait_rounds :: "int \<Rightarrow> nat \<Rightarrow> int \<Rightarrow> int \<Rightarrow> ((nat \<Rightarrow> config) \<times> (nat \<Rightarrow> config)) list \<Rightarrow> failure + bool" where
  "wait_rounds index npeers expected startTerm [] = Inr False"
| "wait_rounds index npeers expected startTerm ((look, look') # looks) =
     (case nCommitted index npeers look of
        Inl f \<Rightarrow> Inl f
      | Inr (nd, _) \<Rightarrow>
          if nd \<ge> expected then Inr False
          else if startTerm > - 1 then
            (case moved_on look' [0..<npeers] startTerm of
               Inl f \<Rightarrow> Inl f
             | Inr True \<Rightarrow> Inr True
             | Inr False \<Rightarrow> wait_rounds index npeers expected startTerm looks)
          else wait_rounds index npeers expected startTerm looks)"

definition cfg_wait :: "int \<Rightarrow> int \<Rightarrow> int \<Rightarrow> nat \<Rightarrow> (nat \<Rightarrow> (nat \<Rightarrow> config) \<times> (nat \<Rightarrow> config)) \<Rightarrow> (nat \<Rightarrow> config) \<Rightarrow> failure + iface" where
  "cfg_wait index expected startTerm npeers looks final =
     (case wait_rounds index npeers expected startTerm (map looks [0..<30]) of
        Inl f \<Rightarrow> Inl f
      | Inr True \<Rightarrow> Inr (IInt (- 1))
      | Inr False \<Rightarrow>
          (case nCommitted index npeers final of
             Inl f \<Rightarrow> Inl f
           | Inr (nd, cmd) \<Rightarrow> if nd < expected then Inl (OnlyDecided nd index) else Inr cmd))"

text \<open>
  \<^verbatim>\<open>one\<close>: the scan for a leader submits the command, which changes the peer that takes it; \<open>look k\<close> is the
  configuration when the scan asks its \<open>k\<close>-th peer.  The result has the index, \<open>-1\<close> for none, the
  position after the scan and the configuration with the changed peer, if there is one.
\<close>

fun one_scan :: "(nat \<Rightarrow> nat) \<Rightarrow> iface \<Rightarrow> nat \<Rightarrow> (nat \<Rightarrow> config) \<Rightarrow> nat list \<Rightarrow> nat \<Rightarrow> failure + int \<times> nat \<times> config option" where
  "one_scan alloc cmd n look [] starts = Inr (- 1, starts, None)"
| "one_scan alloc cmd n look (si # sis) starts =
     (let starts' = (starts + 1) mod n; cfg = look si in
      case slice_get (connected cfg) (int starts') of
        None \<Rightarrow> Inl Crash
      | Some c \<Rightarrow>
          if c then
            (case slice_get (rafts cfg) (int starts') of
               None \<Rightarrow> Inl Crash
             | Some None \<Rightarrow> one_scan alloc cmd n look sis starts'
             | Some (Some a) \<Rightarrow>
                 (case slice_get (insts cfg) (int a) of
                    None \<Rightarrow> Inl Crash
                  | Some rf \<Rightarrow>
                      (case Start alloc cmd rf of
                         (rf', (index1, _, ok), _) \<Rightarrow>
                           if ok then Inr (index1, starts', Some (cfg\<lparr>insts := (insts cfg)[a := rf']\<rparr>))
                           else one_scan alloc cmd n look sis starts')))
          else one_scan alloc cmd n look sis starts')"

text \<open>The wait of two seconds: \<open>looks\<close> are the looks of its iterations.\<close>

fun one_poll :: "iface \<Rightarrow> int \<Rightarrow> nat \<Rightarrow> int \<Rightarrow> (nat \<Rightarrow> config) list \<Rightarrow> failure + bool" where
  "one_poll cmd expectedServers n index [] = Inr False"
| "one_poll cmd expectedServers n index (look # looks) =
     (case nCommitted index n look of
        Inl f \<Rightarrow> Inl f
      | Inr (nd, cmd1) \<Rightarrow>
          if nd > 0 \<and> nd \<ge> expectedServers \<and> cmd1 = cmd then Inr True
          else one_poll cmd expectedServers n index looks)"

text \<open>
  An attempt has the looks of its scan and, given the configuration after a successful submission, the
  looks of its wait.  The attempts are those that begin within ten seconds.
\<close>

type_synonym attempt = "(nat \<Rightarrow> config) \<times> (config \<Rightarrow> (nat \<Rightarrow> config) list)"

fun one_loop :: "(nat \<Rightarrow> nat) \<Rightarrow> iface \<Rightarrow> int \<Rightarrow> bool \<Rightarrow> nat \<Rightarrow> attempt list \<Rightarrow> nat \<Rightarrow> failure + int" where
  "one_loop alloc cmd expectedServers retry n [] starts = Inl (NoAgreement cmd)"
| "one_loop alloc cmd expectedServers retry n ((look, polls) # attempts) starts =
     (case one_scan alloc cmd n look [0..<n] starts of
        Inl f \<Rightarrow> Inl f
      | Inr (index, starts', cfg) \<Rightarrow>
          if index \<noteq> - 1 then
            (case one_poll cmd expectedServers n index (case cfg of None \<Rightarrow> [] | Some cfg1 \<Rightarrow> polls cfg1) of
               Inl f \<Rightarrow> Inl f
             | Inr True \<Rightarrow> Inr index
             | Inr False \<Rightarrow>
                 if retry = False then Inl (NoAgreement cmd)
                 else one_loop alloc cmd expectedServers retry n attempts starts')
          else one_loop alloc cmd expectedServers retry n attempts starts')"

definition cfg_one :: "(nat \<Rightarrow> nat) \<Rightarrow> iface \<Rightarrow> int \<Rightarrow> bool \<Rightarrow> nat \<Rightarrow> attempt list \<Rightarrow> failure + int" where
  "cfg_one alloc cmd expectedServers retry n attempts = one_loop alloc cmd expectedServers retry n attempts 0"

subsection \<open>Beginning and end of a test\<close>

definition rpcCount :: "(nat \<Rightarrow> ('o, 'a, 'r) Server) \<Rightarrow> int \<Rightarrow> config \<Rightarrow> int option" where
  "rpcCount heap server cfg = Network_GetCount heap server (cfg_net cfg)"

text \<open>\<open>blen\<close> is the length of a \<^verbatim>\<open>[]byte\<close>.\<close>

fun LogSize_loop :: "(bytes \<Rightarrow> int) \<Rightarrow> config \<Rightarrow> nat list \<Rightarrow> int \<Rightarrow> int option" where
  "LogSize_loop blen cfg [] logsize = Some logsize"
| "LogSize_loop blen cfg (i # is) logsize = do {
     s \<leftarrow> slice_get (cfg_saved cfg) (int i);
     p \<leftarrow> s;
     ps \<leftarrow> content cfg p;
     let n = RaftStateSize blen ps;
     LogSize_loop blen cfg is (if n > logsize then n else logsize)
   }"

definition LogSize :: "(bytes \<Rightarrow> int) \<Rightarrow> config \<Rightarrow> int option" where
  "LogSize blen cfg = LogSize_loop blen cfg [0..<cfg_n cfg] 0"

definition rpcTotal :: "config \<Rightarrow> int" where
  "rpcTotal cfg = GetTotalCount (cfg_net cfg)"

definition bytesTotal :: "config \<Rightarrow> int" where
  "bytesTotal cfg = GetTotalBytes (cfg_net cfg)"

definition begin_test :: "int \<Rightarrow> config \<Rightarrow> config" where
  "begin_test now cfg = cfg\<lparr>t0 := now, rpcs0 := rpcTotal cfg, bytes0 := bytesTotal cfg, cmds0 := 0, maxIndex0 := maxIndex cfg\<rparr>"

text \<open>\<open>now\<close> in nanoseconds; \<open>failed\<close> is \<^verbatim>\<open>t.Failed()\<close>.\<close>

definition checkTimeout :: "bool \<Rightarrow> int \<Rightarrow> config \<Rightarrow> failure + unit" where
  "checkTimeout failed now cfg =
     (if \<not> failed \<and> now - start_time cfg > 120 * 1000000000 then Inl TookTooLong else Inr ())"

text \<open>The time, the number of peers, of requests, of bytes and of agreements that \<^verbatim>\<open>end\<close> prints.\<close>

definition end_test :: "bool \<Rightarrow> int \<Rightarrow> config \<Rightarrow> failure + (int \<times> int \<times> int \<times> int \<times> int) option" where
  "end_test failed now cfg =
     (case checkTimeout failed now cfg of
        Inl f \<Rightarrow> Inl f
      | Inr _ \<Rightarrow> Inr (if failed = False
          then Some (now - t0 cfg, int (cfg_n cfg), rpcTotal cfg - rpcs0 cfg, bytesTotal cfg - bytes0 cfg, maxIndex cfg - maxIndex0 cfg)
          else None))"

fun kill_all :: "nat option list \<Rightarrow> Raft list \<Rightarrow> Raft list option" where
  "kill_all [] is = Some is"
| "kill_all (None # rs) is = kill_all rs is"
| "kill_all (Some a # rs) is = do {
     rf \<leftarrow> slice_get is (int a);
     is' \<leftarrow> slice_set is (int a) (Kill rf);
     kill_all rs is'
   }"

definition cleanup :: "bool \<Rightarrow> int \<Rightarrow> config \<Rightarrow> ((failure + unit) \<times> config) option" where
  "cleanup failed now cfg = do {
     is \<leftarrow> kill_all (rafts cfg) (insts cfg);
     rn \<leftarrow> Cleanup (cfg_net cfg);
     let cfg1 = cfg\<lparr>insts := is, cfg_net := rn\<rparr>;
     Some (checkTimeout failed now cfg1, cfg1)
   }"

subsection \<open>What the appliers guarantee\<close>

lemma conflict_iff: "conflict i index v j ls err \<noteq> None \<longleftrightarrow> err \<noteq> None \<or> (\<exists>l \<in> set ls. \<exists>old. l index = Some old \<and> old \<noteq> v)"
  by (induction i index v j ls err rule: conflict.induct) (auto split: option.splits)

text \<open>The messages that the appliers of all peers handle, in the order of their critical sections.\<close>

fun apply_run :: "(nat \<times> ApplyMsg) list \<Rightarrow> config \<Rightarrow> (apply_error + config) option" where
  "apply_run [] cfg = Some (Inr cfg)"
| "apply_run ((i, m) # ms) cfg = do {
     r \<leftarrow> applier (int i) m cfg;
     (case r of Inl e \<Rightarrow> Some (Inl e) | Inr cfg1 \<Rightarrow> apply_run ms cfg1)
   }"

definition applied_at :: "(nat \<times> ApplyMsg) list \<Rightarrow> nat \<Rightarrow> int \<Rightarrow> iface \<Rightarrow> bool" where
  "applied_at ms i idx v \<longleftrightarrow> (\<exists>m. (i, m) \<in> set ms \<and> CommandValid m \<and> CommandIndex m = idx \<and> am_Command m = v)"

text \<open>The logs hold exactly the messages, agree with each other, and have no holes after the first position.\<close>

definition consistent :: "(nat \<times> ApplyMsg) list \<Rightarrow> config \<Rightarrow> bool" where
  "consistent ms cfg \<longleftrightarrow> (\<forall>i < length (logs cfg). \<forall>idx v. (logs cfg ! i) idx = Some v \<longleftrightarrow> applied_at ms i idx v)
     \<and> (\<forall>i < length (logs cfg). \<forall>j < length (logs cfg). \<forall>idx v w. (logs cfg ! i) idx = Some v \<longrightarrow> (logs cfg ! j) idx = Some w \<longrightarrow> v = w)
     \<and> (\<forall>i < length (logs cfg). \<forall>idx. idx > 1 \<longrightarrow> (logs cfg ! i) idx \<noteq> None \<longrightarrow> (logs cfg ! i) (idx - 1) \<noteq> None)"

lemma apply_check_iff:
  assumes "i < length (logs cfg)"
  shows "\<exists>cfg'. checkLogs (int i) m cfg = Some ((conflict (int i) (CommandIndex m) (am_Command m) 0 (logs cfg) None,
       (logs cfg ! i) (CommandIndex m - 1) \<noteq> None), cfg') \<and> logs cfg' = (logs cfg)[i := (logs cfg ! i)(CommandIndex m \<mapsto> am_Command m)]
       \<and> applyErr cfg' = applyErr cfg"
  using assms by (simp add: checkLogs_def Let_def slice_set_def)

lemma apply_check_Inr:
  assumes i: "i < length (logs cfg)" and r: "apply_check (int i) m cfg = Some (Inr cfg')"
  shows "logs cfg' = (logs cfg)[i := (logs cfg ! i)(CommandIndex m \<mapsto> am_Command m)]" and "applyErr cfg' = applyErr cfg"
    and "\<forall>l \<in> set (logs cfg). \<forall>old. l (CommandIndex m) = Some old \<longrightarrow> old = am_Command m"
    and "CommandIndex m > 1 \<longrightarrow> (logs cfg ! i) (CommandIndex m - 1) \<noteq> None"
proof -
  obtain cfg1 where c: "checkLogs (int i) m cfg = Some ((conflict (int i) (CommandIndex m) (am_Command m) 0 (logs cfg) None,
       (logs cfg ! i) (CommandIndex m - 1) \<noteq> None), cfg1)" "logs cfg1 = (logs cfg)[i := (logs cfg ! i)(CommandIndex m \<mapsto> am_Command m)]"
       "applyErr cfg1 = applyErr cfg"
    using apply_check_iff [OF i] by blast
  have e: "cfg' = cfg1" "conflict (int i) (CommandIndex m) (am_Command m) 0 (logs cfg) None = None"
     "CommandIndex m > 1 \<longrightarrow> (logs cfg ! i) (CommandIndex m - 1) \<noteq> None"
    using r c(1) by (auto simp: apply_check_def Let_def split: if_splits option.splits)
  with c(2,3) show "logs cfg' = (logs cfg)[i := (logs cfg ! i)(CommandIndex m \<mapsto> am_Command m)]" "applyErr cfg' = applyErr cfg"
    "CommandIndex m > 1 \<longrightarrow> (logs cfg ! i) (CommandIndex m - 1) \<noteq> None" by simp_all
  show "\<forall>l \<in> set (logs cfg). \<forall>old. l (CommandIndex m) = Some old \<longrightarrow> old = am_Command m"
    using e(2) conflict_iff [of "int i" "CommandIndex m" "am_Command m" 0 "logs cfg" None] by auto
qed

lemma applier_consistent:
  assumes i: "i < length (logs cfg)" and r: "applier (int i) m cfg = Some (Inr cfg')" and c: "consistent ms cfg"
  shows "consistent (ms @ [(i, m)]) cfg' \<and> length (logs cfg') = length (logs cfg) \<and> applyErr cfg' = applyErr cfg"
proof (cases "CommandValid m")
  case False
  then have "applied_at (ms @ [(i, m)]) = applied_at ms" by (auto simp: applied_at_def fun_eq_iff)
  moreover have "cfg' = cfg" using False r by (simp add: applier_def)
  ultimately show ?thesis using c unfolding consistent_def by (simp only: simp_thms)
next
  case True
  then have "apply_check (int i) m cfg = Some (Inr cfg')" using r by (simp add: applier_def)
  note a = apply_check_Inr [OF i this]
  let ?x = "CommandIndex m" and ?v = "am_Command m"
  have same: "old = ?v" if "j < length (logs cfg)" "(logs cfg ! j) ?x = Some old" for j old
    using a(3) nth_mem [OF that(1)] that(2) by blast
  have look: "(logs cfg' ! j) idx = (if j = i \<and> idx = ?x then Some ?v else (logs cfg ! j) idx)" if "j < length (logs cfg)" for j idx
    using that a(1) i by (simp add: nth_list_update)
  have app: "applied_at (ms @ [(i, m)]) j idx v \<longleftrightarrow> applied_at ms j idx v \<or> (j = i \<and> idx = ?x \<and> v = ?v)" for j idx v
    using True by (auto simp: applied_at_def)
  have len: "length (logs cfg') = length (logs cfg)" using a(1) by simp
  have "(logs cfg' ! j) idx = Some v \<longleftrightarrow> applied_at (ms @ [(i, m)]) j idx v" if j: "j < length (logs cfg)" for j idx v
  proof -
    have "(logs cfg ! j) idx = Some v \<longleftrightarrow> applied_at ms j idx v" using c j by (simp add: consistent_def)
    then show ?thesis using look [OF j] same [OF j] app by auto
  qed
  moreover have "v = w" if "j < length (logs cfg)" "k < length (logs cfg)" "(logs cfg' ! j) idx = Some v" "(logs cfg' ! k) idx = Some w"
    for j k idx v w
    using that look same c unfolding consistent_def by (auto split: if_splits)
  moreover have "(logs cfg' ! j) (idx - 1) \<noteq> None" if "j < length (logs cfg)" "idx > 1" "(logs cfg' ! j) idx \<noteq> None" for j idx
    using that look a(4) c by (auto simp: consistent_def split: if_splits)
  ultimately show ?thesis using a(2) len unfolding consistent_def by auto
qed

lemma apply_run_consistent:
  assumes "apply_run ms' cfg = Some (Inr cfg')" and "consistent ms cfg" and "\<forall>(i, m) \<in> set ms'. i < length (logs cfg)"
  shows "consistent (ms @ ms') cfg' \<and> length (logs cfg') = length (logs cfg) \<and> applyErr cfg' = applyErr cfg"
  using assms
proof (induction ms' cfg arbitrary: ms rule: apply_run.induct)
  case (2 i m ms' cfg)
  from "2.prems"(1) obtain r where r: "applier (int i) m cfg = Some r"
    "(case r of Inl e \<Rightarrow> Some (Inl e) | Inr cfg1 \<Rightarrow> apply_run ms' cfg1) = Some (Inr cfg')" by (auto simp: option_bind_simps)
  then obtain cfg1 where c: "applier (int i) m cfg = Some (Inr cfg1)" "apply_run ms' cfg1 = Some (Inr cfg')" by (cases r) auto
  have "i < length (logs cfg)" using "2.prems"(3) by simp
  note s = applier_consistent [OF this c(1) "2.prems"(2)]
  have "consistent ((ms @ [(i, m)]) @ ms') cfg' \<and> length (logs cfg') = length (logs cfg1) \<and> applyErr cfg' = applyErr cfg1"
    using s "2.prems"(3) by (intro "2.IH" [OF c(1) refl c(2)]) auto
  with s show ?case by simp
qed simp


definition apply_msg :: "int \<Rightarrow> iface \<Rightarrow> ApplyMsg" where
  "apply_msg idx v = \<lparr>CommandValid = True, am_Command = v, CommandIndex = idx, SnapshotValid = False,
     am_Snapshot = [], SnapshotTerm = 0, SnapshotIndex = 0\<rparr>"

definition sample_msgs :: "(nat \<times> ApplyMsg) list" where
  "sample_msgs = [(0, apply_msg 1 (IInt 5)), (1, apply_msg 1 (IInt 5)), (0, apply_msg 2 (IInt 7))]"

lemma sample_apply: "\<exists>cfg'. apply_run sample_msgs (new_config 0 2) = Some (Inr cfg')"
proof -
  have "map_option (case_sum (\<lambda>_. None) (\<lambda>cfg. Some (map (\<lambda>l. l 1) (logs cfg)))) (apply_run sample_msgs (new_config 0 2))
     = Some (Some [Some (IInt 5), Some (IInt 5)])" by code_simp
  then obtain r where "apply_run sample_msgs (new_config 0 2) = Some r"
    "case_sum (\<lambda>_. None) (\<lambda>cfg. Some (map (\<lambda>l. l 1) (logs cfg))) r = Some [Some (IInt 5), Some (IInt 5)]" by auto
  then show ?thesis by (cases r) auto
qed


subsection \<open>What the checks for leaders tell\<close>

definition claims :: "nat \<Rightarrow> (nat \<Rightarrow> config) \<Rightarrow> nat \<Rightarrow> int \<Rightarrow> bool" where
  "claims n look i t \<longleftrightarrow> i < n \<and> connected (look i) ! i \<and> peer_state i (look i) = Some (t, True)"

text \<open>A look at a running system: the tables are there, an attached peer runs, and terms are not negative.\<close>

definition sound_look :: "nat \<Rightarrow> (nat \<Rightarrow> config) \<Rightarrow> bool" where
  "sound_look n look \<longleftrightarrow> (\<forall>i < n. i < length (connected (look i)) \<and> (connected (look i) ! i \<longrightarrow>
     (\<exists>t b. peer_state i (look i) = Some (t, b) \<and> 0 \<le> t)))"

lemma leaders_loop_claims:
  assumes "sound_look n look" and "set is \<subseteq> {..<n}"
  shows "\<exists>m'. leaders_loop look is m = Some m' \<and>
     (\<forall>t. (case m' t of None \<Rightarrow> [] | Some ls \<Rightarrow> ls) = (case m t of None \<Rightarrow> [] | Some ls \<Rightarrow> ls) @ map int (filter (\<lambda>i. claims n look i t) is))
     \<and> ((\<forall>t. m t \<noteq> Some []) \<longrightarrow> (\<forall>t. m' t \<noteq> Some []))"
  using assms(2)
proof (induction "is" arbitrary: m)
  case (Cons i "is")
  then have i: "i < n" "set is \<subseteq> {..<n}" by auto
  then have get: "slice_get (connected (look i)) (int i) = Some (connected (look i) ! i)" using assms(1) by (simp add: sound_look_def)
  show ?case
  proof (cases "\<exists>t. claims n look i t")
    case True
    then obtain t where t: "connected (look i) ! i" "peer_state i (look i) = Some (t, True)" by (auto simp: claims_def)
    define m1 where "m1 = m(t \<mapsto> (case m t of None \<Rightarrow> [] | Some ls \<Rightarrow> ls) @ [int i])"
    have run: "leaders_loop look (i # is) m = leaders_loop look is m1" using get t by (simp add: m1_def)
    have "claims n look i t' \<longleftrightarrow> t' = t" for t' using i t by (auto simp: claims_def)
    then have "(case m1 t' of None \<Rightarrow> [] | Some ls \<Rightarrow> ls) @ map int (filter (\<lambda>i. claims n look i t') is)
        = (case m t' of None \<Rightarrow> [] | Some ls \<Rightarrow> ls) @ map int (filter (\<lambda>i. claims n look i t') (i # is))" for t'
      by (simp add: m1_def)
    moreover have "(\<forall>t. m t \<noteq> Some []) \<longrightarrow> (\<forall>t. m1 t \<noteq> Some [])" by (simp add: m1_def)
    ultimately show ?thesis using Cons.IH [OF i(2), of m1] run by auto
  next
    case False
    then have run: "leaders_loop look (i # is) m = leaders_loop look is m"
      using get assms(1) i by (fastforce simp: sound_look_def claims_def)
    then show ?thesis using Cons.IH [OF i(2), of m] False by auto
  qed
qed simp

lemma lastTerm_loop_spec:
  "lastTerm_loop m terms k = (if \<exists>t \<in> set terms. length (case m t of None \<Rightarrow> [] | Some ls \<Rightarrow> ls) > 1 then Inl ManyLeaders
     else Inr (fold max terms k))"
proof (induction m terms k rule: lastTerm_loop.induct)
  case (2 m t terms k)
  have "(if t > k then t else k) = max t k" by simp
  with 2 show ?case by auto
qed simp

lemma length_filter_upt: "length (filter P [0..<n]) = card {i. i < n \<and> P i}"
  by (simp add: length_filter_conv_card cong: conj_cong)

lemma many_filter: "length (filter P [0..<n]) > 1 \<longleftrightarrow> (\<exists>i < n. \<exists>j < n. i \<noteq> j \<and> P i \<and> P j)"
proof -
  have "card {i. i < n \<and> P i} \<le> Suc 0 \<longleftrightarrow> (\<forall>i < n. \<forall>j < n. P i \<longrightarrow> P j \<longrightarrow> i = j)"
    by (subst card_le_Suc0_iff_eq) auto
  then have "length (filter P [0..<n]) \<le> 1 \<longleftrightarrow> (\<forall>i < n. \<forall>j < n. P i \<longrightarrow> P j \<longrightarrow> i = j)" by (simp add: length_filter_upt)
  then show ?thesis by (metis not_le)
qed

text \<open>One round: two leaders in one term, no leader, or the leader of the largest term.\<close>

definition top_leader :: "nat \<Rightarrow> (nat \<Rightarrow> config) \<Rightarrow> nat \<Rightarrow> int \<Rightarrow> bool" where
  "top_leader n look i t \<longleftrightarrow> claims n look i t \<and> (\<forall>i' t'. claims n look i' t' \<longrightarrow> i' \<noteq> i \<longrightarrow> t' < t)"

definition split_term :: "nat \<Rightarrow> (nat \<Rightarrow> config) \<Rightarrow> bool" where
  "split_term n look \<longleftrightarrow> (\<exists>i i' t. i \<noteq> i' \<and> claims n look i t \<and> claims n look i' t)"

lemma checkOneLeader_round_spec:
  assumes s: "sound_look n look" and "\<And>m. finite (dom m) \<Longrightarrow> set (keys m) = dom m"
  shows "\<exists>m. leaders_loop look [0..<n] Map.empty = Some m \<and>
     (split_term n look \<and> checkOneLeader_round (keys m) m = Inl ManyLeaders
      \<or> \<not> split_term n look \<and> (\<forall>i t. \<not> claims n look i t) \<and> checkOneLeader_round (keys m) m = Inr None
      \<or> \<not> split_term n look \<and> (\<exists>i t. top_leader n look i t \<and> checkOneLeader_round (keys m) m = Inr (Some (int i))))"
proof -
  let ?ls = "\<lambda>m t. case m t of None \<Rightarrow> [] | Some ls \<Rightarrow> ls"
  obtain m where m: "leaders_loop look [0..<n] Map.empty = Some m" "\<And>t. ?ls m t = map int (filter (\<lambda>i. claims n look i t) [0..<n])"
    "\<And>t. m t \<noteq> Some []"
    using leaders_loop_claims [OF s, of "[0..<n]" Map.empty] by (auto simp: atLeast0LessThan)
  have dom: "m t = (if \<exists>i. claims n look i t then Some (map int (filter (\<lambda>i. claims n look i t) [0..<n])) else None)" for t
  proof (cases "m t")
    case None
    then have "filter (\<lambda>i. claims n look i t) [0..<n] = []" using m(2) [of t] by simp
    then have "\<not> claims n look i t" for i by (auto simp: filter_empty_conv claims_def)
    with None show ?thesis by auto
  next
    case (Some ls)
    then have "ls = map int (filter (\<lambda>i. claims n look i t) [0..<n])" "ls \<noteq> []" using m(2,3) [of t] by auto
    with Some show ?thesis by (auto simp: filter_empty_conv)
  qed
  have "dom m \<subseteq> (\<lambda>i. fst (the (peer_state i (look i)))) ` {..<n}"
    using dom by (force simp: claims_def image_iff split: if_splits)
  then have "finite (dom m)" by (rule finite_subset) simp
  then have keys: "set (keys m) = dom m" by (rule assms(2))
  have split: "(\<exists>t \<in> set (keys m). length (?ls m t) > 1) \<longleftrightarrow> split_term n look"
  proof -
    have "length (?ls m t) > 1 \<longleftrightarrow> (\<exists>i i'. i \<noteq> i' \<and> claims n look i t \<and> claims n look i' t)" for t
      unfolding m(2) length_map many_filter by (auto simp: claims_def)
    moreover have "t \<in> set (keys m)" if "length (?ls m t) > 1" for t using that keys by (auto split: option.splits)
    ultimately show ?thesis unfolding split_term_def by blast
  qed
  show ?thesis
  proof (intro exI [of _ m] conjI m(1), cases "split_term n look")
    case True
    then show "split_term n look \<and> checkOneLeader_round (keys m) m = Inl ManyLeaders
      \<or> \<not> split_term n look \<and> (\<forall>i t. \<not> claims n look i t) \<and> checkOneLeader_round (keys m) m = Inr None
      \<or> \<not> split_term n look \<and> (\<exists>i t. top_leader n look i t \<and> checkOneLeader_round (keys m) m = Inr (Some (int i)))"
      using split by (simp add: checkOneLeader_round_def lastTerm_loop_spec)
  next
    case False
    have last: "lastTerm_loop m (keys m) (- 1) = Inr (fold max (keys m) (- 1))" using False split by (simp add: lastTerm_loop_spec)
    show "split_term n look \<and> checkOneLeader_round (keys m) m = Inl ManyLeaders
      \<or> \<not> split_term n look \<and> (\<forall>i t. \<not> claims n look i t) \<and> checkOneLeader_round (keys m) m = Inr None
      \<or> \<not> split_term n look \<and> (\<exists>i t. top_leader n look i t \<and> checkOneLeader_round (keys m) m = Inr (Some (int i)))"
    proof (cases "keys m")
      case Nil
      then have "m t = None" for t using keys by (auto simp: domIff)
      then have "\<not> claims n look i t" for i t using dom [of t] by (auto split: if_splits)
      with False Nil show ?thesis by (auto simp: checkOneLeader_round_def)
    next
      case (Cons t0 ts)
      define t where "t = fold max (keys m) (- 1)"
      have mx: "t = Max (insert (- 1) (set (keys m)))" unfolding t_def by (simp add: Max.set_eq_fold [symmetric])
      have key: "t' \<in> set (keys m) \<longleftrightarrow> (\<exists>i. claims n look i t')" for t' using keys dom [of t'] by (auto simp: domIff)
      have pos: "0 \<le> t'" if "t' \<in> set (keys m)" for t' using that key s by (fastforce simp: sound_look_def claims_def)
      have "t0 \<le> t" unfolding mx Cons by (intro Max_ge) auto
      then have "0 \<le> t" using pos [of t0] Cons by simp
      then have "t \<in> set (keys m)" using Max_in [of "insert (- 1) (set (keys m))"] unfolding mx by auto
      then obtain i where i: "claims n look i t" using key by blast
      then have "filter (\<lambda>i. claims n look i t) [0..<n] \<noteq> []" by (auto simp: filter_empty_conv claims_def)
      then obtain j js where j: "filter (\<lambda>i. claims n look i t) [0..<n] = j # js" by (cases "filter (\<lambda>i. claims n look i t) [0..<n]") auto
      then have "j \<in> set (filter (\<lambda>i. claims n look i t) [0..<n])" by simp
      then have cj: "claims n look j t" by simp
      have "t' < t" if "claims n look i' t'" "i' \<noteq> j" for i' t'
      proof -
        have "t' \<le> t" unfolding mx using that(1) key by (intro Max_ge) auto
        moreover have "t' \<noteq> t" using that cj False by (auto simp: split_term_def)
        ultimately show ?thesis by simp
      qed
      then have "top_leader n look j t" using cj by (auto simp: top_leader_def)
      moreover have "checkOneLeader_round (keys m) m = Inr (Some (int j))"
      proof -
        have "m t = Some (int j # map int js)" using dom [of t] i j by auto
        moreover have "keys m \<noteq> []" using Cons by simp
        ultimately show ?thesis unfolding checkOneLeader_round_def last t_def [symmetric] by simp
      qed
      ultimately show ?thesis using False by blast
    qed
  qed
qed

text \<open>The verdicts of \<^verbatim>\<open>checkOneLeader\<close>, whatever the peers do between its looks: it returns a peer only when in some
  round that peer was attached and claimed to be leader in a term larger than the term of every other
  attached claimant, no term had two leaders and no earlier round saw a leader; it reports several leaders
  only when it saw two attached peers claim the same term; and it reports that there is none only when
  none of its ten rounds saw one.  On peers that run it never follows a nil pointer.\<close>

lemma checkOneLeader_verdicts:
  assumes "\<And>k. sound_look n (look k)" and "\<And>m. finite (dom m) \<Longrightarrow> set (keys m) = dom m"
  shows "case checkOneLeader keys n look of
       Inr l \<Rightarrow> \<exists>k < 10. (\<forall>k' < k. \<forall>i t. \<not> claims n (look k') i t) \<and> \<not> split_term n (look k) \<and> (\<exists>i t. l = int i \<and> top_leader n (look k) i t)
     | Inl f \<Rightarrow> f = ManyLeaders \<and> (\<exists>k < 10. (\<forall>k' < k. \<forall>i t. \<not> claims n (look k') i t) \<and> split_term n (look k))
         \<or> f = NoLeaderFound \<and> (\<forall>k < 10. \<forall>i t. \<not> claims n (look k) i t)"
proof -
  have "case checkOneLeader_loop keys n (map look [a..<b]) of
       Inr l \<Rightarrow> \<exists>k \<in> {a..<b}. (\<forall>k' \<in> {a..<k}. \<forall>i t. \<not> claims n (look k') i t) \<and> \<not> split_term n (look k) \<and> (\<exists>i t. l = int i \<and> top_leader n (look k) i t)
     | Inl f \<Rightarrow> f = ManyLeaders \<and> (\<exists>k \<in> {a..<b}. (\<forall>k' \<in> {a..<k}. \<forall>i t. \<not> claims n (look k') i t) \<and> split_term n (look k))
         \<or> f = NoLeaderFound \<and> (\<forall>k \<in> {a..<b}. \<forall>i t. \<not> claims n (look k) i t)" for a b
  proof (induction "b - a" arbitrary: a)
    case (Suc d)
    then have up: "[a..<b] = a # [Suc a..<b]" and d: "d = b - Suc a" and a: "a < b" by (auto simp: upt_conv_Cons)
    have sp: "{a..<b} = insert a {Suc a..<b}" using a by auto
    obtain m where m: "leaders_loop (look a) [0..<n] Map.empty = Some m" and
      cs: "split_term n (look a) \<and> checkOneLeader_round (keys m) m = Inl ManyLeaders
      \<or> \<not> split_term n (look a) \<and> (\<forall>i t. \<not> claims n (look a) i t) \<and> checkOneLeader_round (keys m) m = Inr None
      \<or> \<not> split_term n (look a) \<and> (\<exists>i t. top_leader n (look a) i t \<and> checkOneLeader_round (keys m) m = Inr (Some (int i)))"
      using checkOneLeader_round_spec [where keys = keys, OF assms] by blast
    from cs show ?case
    proof (elim disjE conjE exE)
      assume none: "\<forall>i t. \<not> claims n (look a) i t" and r: "checkOneLeader_round (keys m) m = Inr None"
      have run: "checkOneLeader_loop keys n (map look [a..<b]) = checkOneLeader_loop keys n (map look [Suc a..<b])"
        unfolding up using m r by simp
      have ext: "(\<forall>k' \<in> {a..<k}. \<forall>i t. \<not> claims n (look k') i t) \<longleftrightarrow> (\<forall>k' \<in> {Suc a..<k}. \<forall>i t. \<not> claims n (look k') i t)" for k
        using none by (metis Suc_leD atLeastLessThan_iff le_antisym not_less_eq_eq)
      show ?thesis using Suc(1) [OF d] none unfolding run ext sp
        by (cases "checkOneLeader_loop keys n (map look [Suc a..<b])") (simp_all, blast+)
    qed (use m a in \<open>auto simp: up intro!: bexI [of _ a]\<close>)
  qed simp
  from this [of 0 10] show ?thesis by (simp add: checkOneLeader_def Ball_def Bex_def split: sum.splits)
qed

definition sample_leader :: config where
  "sample_leader = (new_config 0 1)\<lparr>connected := [True], rafts := [Some 0],
     insts := [becomeLeaderInit (the (Make (\<lambda>k. k) 0 0 1 0 MakePersister))]\<rparr>"

lemma sample_leader_state: "peer_state 0 sample_leader = Some (0, True)" "connected sample_leader = [True]"
proof -
  have "peer_state 0 sample_leader = Some (0, True)" by code_simp
  then show "peer_state 0 sample_leader = Some (0, True)" .
qed (simp add: sample_leader_def)

subsection \<open>What the checks for agreement tell\<close>

definition holds_at :: "(nat \<Rightarrow> config) \<Rightarrow> int \<Rightarrow> nat \<Rightarrow> iface option" where
  "holds_at look index i = (logs (look i) ! i) index"

lemma nCommitted_loop_Inr:
  "nCommitted_loop index look is cnt cmd = Inr (nd, c) \<Longrightarrow> 0 \<le> cnt \<Longrightarrow>
     nd = cnt + int (length (filter (\<lambda>i. holds_at look index i \<noteq> None) is))
     \<and> (\<forall>i \<in> set is. \<forall>v. holds_at look index i = Some v \<longrightarrow> v = c) \<and> (cnt > 0 \<longrightarrow> c = cmd)"
proof (induction "is" arbitrary: cnt cmd)
  case (Cons i "is")
  obtain l where l: "slice_get (logs (look i)) (int i) = Some l" "slice_get (applyErr (look i)) (int i) = Some None"
    using Cons.prems(1) by (auto split: option.splits)
  then have h: "holds_at look index i = l index" by (simp add: holds_at_def slice_get_Some_iff)
  show ?case
  proof (cases "l index")
    case None
    then show ?thesis using Cons.IH [of cnt cmd] Cons.prems l h by simp
  next
    case (Some cmd1)
    then have "nCommitted_loop index look is (cnt + 1) cmd1 = Inr (nd, c)" "cnt > 0 \<longrightarrow> cmd = cmd1"
      using Cons.prems(1) l by (auto split: if_splits)
    with Cons.IH [of "cnt + 1" cmd1] Cons.prems(2) Some h show ?thesis by auto
  qed
qed simp

lemma nCommitted_Inr:
  assumes "nCommitted index n look = Inr (nd, c)"
  shows "nd = int (card {i. i < n \<and> holds_at look index i = Some c})" and "i < n \<Longrightarrow> holds_at look index i \<in> {None, Some c}"
proof -
  have *: "nd = int (length (filter (\<lambda>i. holds_at look index i \<noteq> None) [0..<n]))"
    "\<And>i v. i < n \<Longrightarrow> holds_at look index i = Some v \<Longrightarrow> v = c"
    using nCommitted_loop_Inr [of index look "[0..<n]" 0 INil nd c] assms by (auto simp: nCommitted_def)
  have "{i. i < n \<and> holds_at look index i \<noteq> None} = {i. i < n \<and> holds_at look index i = Some c}" using *(2) by blast
  with *(1) show "nd = int (card {i. i < n \<and> holds_at look index i = Some c})" by (simp only: length_filter_upt)
  show "holds_at look index i \<in> {None, Some c}" if "i < n" using *(2) [OF that] by (cases "holds_at look index i") auto
qed

text \<open>A leader has taken the command at \<open>index\<close>.\<close>

definition start_accepted :: "(nat \<Rightarrow> nat) \<Rightarrow> iface \<Rightarrow> config \<Rightarrow> int \<Rightarrow> config \<Rightarrow> bool" where
  "start_accepted alloc cmd cfg index cfg' \<longleftrightarrow> (\<exists>i a rf' t gos. i < length (connected cfg) \<and> connected cfg ! i \<and> rafts cfg ! i = Some a
     \<and> a < length (insts cfg) \<and> Start alloc cmd (insts cfg ! a) = (rf', (index, t, True), gos) \<and> cfg' = cfg\<lparr>insts := (insts cfg)[a := rf']\<rparr>)"

lemma one_scan_accepted:
  "one_scan alloc cmd n look sis starts = Inr (index, starts', cfg) \<Longrightarrow> index \<noteq> - 1 \<Longrightarrow>
     \<exists>si \<in> set sis. \<exists>cfg'. cfg = Some cfg' \<and> start_accepted alloc cmd (look si) index cfg'"
proof (induction sis arbitrary: starts)
  case (Cons si sis)
  let ?s = "(starts + 1) mod n" and ?cfg = "look si"
  obtain c where c: "slice_get (connected ?cfg) (int ?s) = Some c"
    using Cons.prems(1) by (auto simp: Let_def split: option.splits)
  show ?case
  proof (cases "\<exists>a. c \<and> slice_get (rafts ?cfg) (int ?s) = Some (Some a)")
    case False
    then have "one_scan alloc cmd n look sis ?s = Inr (index, starts', cfg)"
      using Cons.prems(1) c by (auto simp: Let_def split: option.splits if_splits)
    from Cons.IH [OF this Cons.prems(2)] show ?thesis by auto
  next
    case True
    then obtain a where a: "c" "slice_get (rafts ?cfg) (int ?s) = Some (Some a)" by blast
    obtain rf where rf: "slice_get (insts ?cfg) (int a) = Some rf"
      using Cons.prems(1) c a by (auto simp: Let_def split: option.splits)
    obtain rf' idx t ok gos where st: "Start alloc cmd rf = (rf', (idx, t, ok), gos)" by (cases "Start alloc cmd rf") auto
    show ?thesis
    proof (cases ok)
      case True
      then have "index = idx" "cfg = Some (?cfg\<lparr>insts := (insts ?cfg)[a := rf']\<rparr>)" using Cons.prems(1) c a rf st by (auto simp: Let_def)
      moreover have "start_accepted alloc cmd ?cfg idx (?cfg\<lparr>insts := (insts ?cfg)[a := rf']\<rparr>)"
        unfolding start_accepted_def using c a rf st True
        by (intro exI [of _ ?s] exI [of _ a] exI [of _ rf'] exI [of _ t] exI [of _ gos]) (auto simp: slice_get_Some_iff)
      ultimately show ?thesis by auto
    next
      case False
      then have "one_scan alloc cmd n look sis ?s = Inr (index, starts', cfg)" using Cons.prems(1) c a rf st by (simp add: Let_def)
      from Cons.IH [OF this Cons.prems(2)] show ?thesis by auto
    qed
  qed
qed simp

lemma one_poll_committed:
  "one_poll cmd ex n index looks = Inr True \<Longrightarrow> \<exists>look \<in> set looks. \<exists>nd. nCommitted index n look = Inr (nd, cmd) \<and> nd > 0 \<and> nd \<ge> ex"
proof (induction looks)
  case (Cons look looks)
  then obtain nd cmd1 where nd: "nCommitted index n look = Inr (nd, cmd1)" by (auto split: sum.splits)
  show ?case
  proof (cases "nd > 0 \<and> nd \<ge> ex \<and> cmd1 = cmd")
    case True
    with nd show ?thesis by auto
  next
    case False
    with nd Cons.prems have "one_poll cmd ex n index looks = Inr True" by (simp split: if_splits)
    from Cons.IH [OF this] show ?thesis by auto
  qed
qed simp

text \<open>C33: What a successful agreement means: the index that \<^verbatim>\<open>one\<close> returns is the position at which an attached peer that
  claimed to be leader had taken the command during the call, and afterwards a look at all the peers
  found at least the expected number of them, and at least one, to have applied this command at that
  position and none to have applied another one there.\<close>

theorem one_reaches_agreement:
  assumes "cfg_one alloc cmd expectedServers retry n attempts = Inr index"
  shows "\<exists>(look, polls) \<in> set attempts. \<exists>si < n. \<exists>cfg'. start_accepted alloc cmd (look si) index cfg' \<and> (\<exists>look' \<in> set (polls cfg').
     expectedServers \<le> int (card {i. i < n \<and> holds_at look' index i = Some cmd}) \<and> {i. i < n \<and> holds_at look' index i = Some cmd} \<noteq> {}
     \<and> (\<forall>i < n. holds_at look' index i \<in> {None, Some cmd}))"
proof -
  have "one_loop alloc cmd expectedServers retry n attempts starts = Inr index \<Longrightarrow> ?thesis" for starts
  proof (induction attempts arbitrary: starts)
    case (Cons at attempts)
    obtain look polls where at: "at = (look, polls)" by force
    obtain idx starts' cfg where sc: "one_scan alloc cmd n look [0..<n] starts = Inr (idx, starts', cfg)"
      using Cons.prems by (cases "one_scan alloc cmd n look [0..<n] starts") (auto simp: at)
    show ?case
    proof (cases "one_loop alloc cmd expectedServers retry n attempts starts' = Inr index")
      case True
      from Cons.IH [OF this] show ?thesis by (meson list.set_intros(2))
    next
      case False
      then have hit: "idx \<noteq> - 1" "one_poll cmd expectedServers n idx (case cfg of None \<Rightarrow> [] | Some cfg1 \<Rightarrow> polls cfg1) = Inr True" "idx = index"
        using Cons.prems sc by (auto simp: at split: if_splits sum.splits bool.splits)
      obtain si cfg' where si: "si < n" "cfg = Some cfg'" "start_accepted alloc cmd (look si) index cfg'"
        using one_scan_accepted [OF sc hit(1)] hit(3) by auto
      then obtain look' nd where l: "look' \<in> set (polls cfg')" "nCommitted index n look' = Inr (nd, cmd)" "nd > 0" "nd \<ge> expectedServers"
        using one_poll_committed [OF hit(2)] hit(3) by auto
      note nc = nCommitted_Inr [OF l(2)]
      have "{i. i < n \<and> holds_at look' index i = Some cmd} \<noteq> {}" using l(3) nc(1) by (intro notI) simp
      then have "\<exists>look' \<in> set (polls cfg'). expectedServers \<le> int (card {i. i < n \<and> holds_at look' index i = Some cmd})
          \<and> {i. i < n \<and> holds_at look' index i = Some cmd} \<noteq> {} \<and> (\<forall>i < n. holds_at look' index i \<in> {None, Some cmd})"
        using l nc by (intro bexI [OF _ l(1)]) simp
      with si show ?thesis by (intro bexI [of _ at]) (auto simp: at)
    qed
  qed simp
  with assms show ?thesis by (auto simp: cfg_one_def)
qed

definition sample_attempts :: "attempt list" where
  "sample_attempts = [((\<lambda>_. sample_leader), (\<lambda>cfg. [\<lambda>_. cfg\<lparr>logs := [[1 \<mapsto> IInt 9]]\<rparr>]))]"

lemma sample_one: "cfg_one (\<lambda>k. k) (IInt 9) 1 True 1 sample_attempts = Inr 1"
  by code_simp

theorem one_reaches_agreement_witness:
  "cfg_one (\<lambda>k. k) (IInt 9) 1 True 1 sample_attempts = Inr 1 \<and> (\<exists>cfg'. start_accepted (\<lambda>k. k) (IInt 9) sample_leader 1 cfg')"
  using one_reaches_agreement [OF sample_one] sample_one by (auto simp: sample_attempts_def)

subsection \<open>Terms\<close>

text \<open>The peers that \<^verbatim>\<open>checkTerms\<close> asks, and their terms.\<close>

definition asked :: "(nat \<Rightarrow> config) \<Rightarrow> nat \<Rightarrow> int \<Rightarrow> bool" where
  "asked look i t \<longleftrightarrow> connected (look i) ! i \<and> (\<exists>b. peer_state i (look i) = Some (t, b))"

definition terms_seen :: "(nat \<Rightarrow> config) \<Rightarrow> nat list \<Rightarrow> int \<Rightarrow> int set" where
  "terms_seen look is term = (if term = - 1 then {} else {term}) \<union> {t. \<exists>i \<in> set is. asked look i t}"

lemma checkTerms_loop_spec:
  assumes "sound_look n look" and "set is \<subseteq> {..<n}"
  shows "checkTerms_loop look is term = (if \<exists>t \<in> terms_seen look is term. \<exists>t' \<in> terms_seen look is term. t \<noteq> t' then Inl TermsDisagree
     else Inr (if terms_seen look is term = {} then - 1 else the_elem (terms_seen look is term)))"
  using assms(2)
proof (induction "is" arbitrary: "term")
  case Nil
  have "terms_seen look [] term = (if term = - 1 then {} else {term})" by (simp add: terms_seen_def)
  then show ?case by (cases "term = - 1") simp_all
next
  case (Cons i "is")
  then have i: "i < n" "set is \<subseteq> {..<n}" by auto
  then have get: "slice_get (connected (look i)) (int i) = Some (connected (look i) ! i)" using assms(1) by (simp add: sound_look_def)
  note IH = Cons.IH [OF i(2)]
  show ?case
  proof (cases "\<exists>t. asked look i t")
    case False
    then have "\<not> connected (look i) ! i" using assms(1) i(1) by (auto simp: sound_look_def asked_def)
    moreover have "terms_seen look (i # is) term = terms_seen look is term" using False by (auto simp: terms_seen_def)
    ultimately show ?thesis using get IH [of "term"] by simp
  next
    case True
    then obtain t b where t: "connected (look i) ! i" "peer_state i (look i) = Some (t, b)" "t \<noteq> - 1"
      using assms(1) i(1) by (fastforce simp: asked_def sound_look_def)
    then have only: "asked look i t' \<longleftrightarrow> t' = t" for t' by (auto simp: asked_def)
    have seen: "terms_seen look (i # is) term = (if term = - 1 then {} else {term}) \<union> terms_seen look is t"
      using t(3) by (auto simp: terms_seen_def only)
    show ?thesis
    proof (cases "term = - 1 \<or> term = t")
      case True
      then have "checkTerms_loop look (i # is) term = checkTerms_loop look is t" using get t by auto
      moreover have "terms_seen look (i # is) term = terms_seen look is t" using True t(3) unfolding seen by (auto simp: terms_seen_def)
      ultimately show ?thesis using IH [of t] by simp
    next
      case False
      then have "checkTerms_loop look (i # is) term = Inl TermsDisagree" using get t by simp
      moreover have "term \<in> terms_seen look (i # is) term" "t \<in> terms_seen look (i # is) term"
        using False t(3) unfolding seen by (auto simp: terms_seen_def)
      then have "\<exists>t \<in> terms_seen look (i # is) term. \<exists>t' \<in> terms_seen look (i # is) term. t \<noteq> t'" using False by blast
      ultimately show ?thesis by (simp only: if_True)
    qed
  qed
qed

text \<open>No attached peer claims to be leader exactly when \<^verbatim>\<open>checkNoLeader\<close> returns.\<close>

lemma checkNoLeader_loop_spec:
  assumes "sound_look n look" and "set is \<subseteq> {..<n}"
  shows "checkNoLeader_loop look is = Inr () \<longleftrightarrow> (\<forall>i \<in> set is. \<forall>t. \<not> claims n look i t)"
  using assms(2)
proof (induction "is")
  case (Cons i "is")
  then have i: "i < n" "set is \<subseteq> {..<n}" by auto
  then have "slice_get (connected (look i)) (int i) = Some (connected (look i) ! i)" using assms(1) by (simp add: sound_look_def)
  moreover have "connected (look i) ! i \<longrightarrow> (\<exists>t b. peer_state i (look i) = Some (t, b))" using assms(1) i(1) by (auto simp: sound_look_def)
  ultimately show ?case using Cons.IH [OF i(2)] i(1) by (auto simp: claims_def split: if_splits)
qed simp

end
