(* ===== verification/Raft_Runs.thy ===== *)
theory Raft_Runs
  imports Raft_Validity Harness_Checks
begin

text \<open>
  The properties of the whole cluster, and runs that show them: the cluster refines the model of
  elections, what is applied has been started, and what two leaders in one term lead to: a run of three peers in
  which two of them apply different commands at the same index, and the harness that watches them.
\<close>

subsection \<open>A run\<close>

text \<open>
  After \<open>two_leader_run\<close> the peers 0 and 2 lead in term 2.  Each is given a command and sends it to
  peer 1, which accepts both, so each leader finds its command on a majority.
\<close>

definition divergent_run :: "sys_action list" where
  "divergent_run = map SElection two_leader_run @
     [SStart 0 (\<lambda>n. n) (IInt 7), SStart 2 (\<lambda>n. n) (IInt 8), SGo 0, SGo 0, SGo 0, SGo 5,
      SHandle 0 (\<lambda>n. n) 1600000000, SReply 0 1600000001, SHandle 0 (\<lambda>n. n) 1600000002, SReply 0 1600000003]"

lemma divergent_run_result:
  "map_option applied (sys_run divergent_run (boot_sys 3 0)) = Some [(0, apply_msg 1 (IInt 7)), (2, apply_msg 1 (IInt 8))]"
  by code_simp

lemma divergent_state:
  obtains s where "sys_reach 3 s" "applied s = [(0, apply_msg 1 (IInt 7)), (2, apply_msg 1 (IInt 8))]"
proof -
  obtain s where s: "sys_run divergent_run (boot_sys 3 0) = Some s" "applied s = [(0, apply_msg 1 (IInt 7)), (2, apply_msg 1 (IInt 8))]"
    using divergent_run_result by (cases "sys_run divergent_run (boot_sys 3 0)") auto
  show ?thesis by (rule that [OF sys_run_reach [OF s(1) sys_reach.boot] s(2)])
qed

lemma inl_result: "map_option (case_sum Some (\<lambda>_. None)) r = Some (Some e) \<Longrightarrow> r = Some (Inl e)"
  by (cases r) (auto split: sum.splits)

lemma divergent_run_watched:
  "apply_run [(0, apply_msg 1 (IInt 7)), (2, apply_msg 1 (IInt 8))] (new_config 0 3) = Some (Inl (CommitDiffers 1 2 (IInt 8) 0 (IInt 7)))"
    (is "?r = _")
proof -
  have "map_option (case_sum Some (\<lambda>_. None)) ?r = Some (Some (CommitDiffers 1 2 (IInt 8) 0 (IInt 7)))" by code_simp
  then show ?thesis by (rule inl_result)
qed

subsection \<open>Properties\<close>

text \<open>C5: State machine safety does not hold: in a reachable state of a cluster of three, without any crash, two peers have
  applied different commands at index 1, and the harness, which compares what the peers apply, ends the test.\<close>

theorem peers_apply_different_commands:
  "\<exists>s. sys_reach 3 s \<and> applied_at (applied s) 0 1 (IInt 7) \<and> applied_at (applied s) 2 1 (IInt 8)
     \<and> apply_run (applied s) (new_config 0 3) = Some (Inl (CommitDiffers 1 2 (IInt 8) 0 (IInt 7)))"
proof -
  obtain s where s: "sys_reach 3 s" "applied s = [(0, apply_msg 1 (IInt 7)), (2, apply_msg 1 (IInt 8))]"
    by (rule divergent_state)
  moreover have "applied_at (applied s) 0 1 (IInt 7)" "applied_at (applied s) 2 1 (IInt 8)"
    unfolding s(2) by (auto simp: applied_at_def apply_msg_def)
  ultimately show ?thesis using divergent_run_watched s(2) by auto
qed

text \<open>C3: Validity: whatever the schedule, the losses and the restarts, a command that a peer hands to its
  service has been started by a client, and so has the command in a snapshot that it hands over.\<close>

theorem delivered_were_proposed:
  assumes "sys_reach n s" and "(i, m) \<in> set (applied s)"
  shows "(CommandValid m \<longrightarrow> am_Command m \<in> proposed s) \<and>
     (\<forall>c d. SnapshotValid m \<longrightarrow> decode_int (am_Snapshot m) = Some (c, d) \<longrightarrow> IInt c \<in> proposed s)"
  using sys_reach_ok [OF assms(1)] assms(2) by (fastforce simp: sys_ok_def msg_ok_def snap_ok_def)

theorem delivered_were_proposed_witness:
  "\<exists>s. sys_reach 3 s \<and> (2, apply_msg 1 (IInt 8)) \<in> set (applied s) \<and> IInt 8 \<in> proposed s"
proof -
  obtain s where s: "sys_reach 3 s" "applied s = [(0, apply_msg 1 (IInt 7)), (2, apply_msg 1 (IInt 8))]"
    by (rule divergent_state)
  from delivered_were_proposed [OF s(1), of 2 "apply_msg 1 (IInt 8)"] s show ?thesis by (auto simp: apply_msg_def)
qed



end
