(* ===== verification/Porcupine_Model.thy ===== *)
theory Porcupine_Model
  imports Prelude
begin

text \<open>
  \<^verbatim>\<open>src/porcupine/model.go\<close>: operations, events and models.  \<^verbatim>\<open>interface{}\<close> values are of the type
  variable \<open>'v\<close>, states of type \<open>'s\<close>.  \<^verbatim>\<open>Step\<close> returns \<open>None\<close> when the model panics, as on a
  failed type assertion.  A function field that may be \<^verbatim>\<open>nil\<close> is an option, filled in by
  \<open>fillDefault\<close> of the checker.
\<close>

record 'v Operation =
  op_ClientId :: int
  op_Input :: 'v
  op_Call :: int
  op_Output :: 'v
  op_Return :: int

datatype EventKind = CallEvent | ReturnEvent

record 'v Event =
  ev_ClientId :: int
  ev_Kind :: EventKind
  ev_Value :: 'v
  ev_Id :: int

record ('s, 'v) Model =
  Partition :: "('v Operation list \<Rightarrow> 'v Operation list list option) option"
  PartitionEvent :: "('v Event list \<Rightarrow> 'v Event list list option) option"
  Init :: 's
  Step :: "'s \<Rightarrow> 'v \<Rightarrow> 'v \<Rightarrow> (bool \<times> 's) option"
  Equal :: "('s \<Rightarrow> 's \<Rightarrow> bool) option"

definition NoPartition :: "'v Operation list \<Rightarrow> 'v Operation list list option" where
  "NoPartition history = Some [history]"

definition NoPartitionEvent :: "'v Event list \<Rightarrow> 'v Event list list option" where
  "NoPartitionEvent history = Some [history]"

definition ShallowEqual :: "'s \<Rightarrow> 's \<Rightarrow> bool" where
  "ShallowEqual state1 state2 \<longleftrightarrow> state1 = state2"

datatype CheckResult = Unknown | Ok | Illegal

text \<open>The fields of a model that the checker needs, with their defaults.\<close>

definition fillDefault :: "('s, 'v) Model \<Rightarrow> ('s, 'v) Model" where
  "fillDefault model =
     (let m1 = (if Partition model = None then model\<lparr>Partition := Some NoPartition\<rparr> else model);
          m2 = (if PartitionEvent m1 = None then m1\<lparr>PartitionEvent := Some NoPartitionEvent\<rparr> else m1)
      in if Equal m2 = None then m2\<lparr>Equal := Some ShallowEqual\<rparr> else m2)"

lemma fillDefault_fields [simp]:
  "Init (fillDefault m) = Init m" "Step (fillDefault m) = Step m"
  "Equal (fillDefault m) = Some (case Equal m of Some eq \<Rightarrow> eq | None \<Rightarrow> ShallowEqual)"
  "Partition (fillDefault m) = Some (case Partition m of Some f \<Rightarrow> f | None \<Rightarrow> NoPartition)"
  "PartitionEvent (fillDefault m) = Some (case PartitionEvent m of Some f \<Rightarrow> f | None \<Rightarrow> NoPartitionEvent)"
  by (auto simp: fillDefault_def Let_def split: option.splits)

text \<open>
  What the search relies on: the equality of states given with the model, or \<open>ShallowEqual\<close>, only
  identifies states that the model cannot tell apart.
\<close>

locale lawful_model =
  fixes m :: "('s, 'v) Model" and eq :: "'s \<Rightarrow> 's \<Rightarrow> bool"
  assumes Equal_is: "Equal m = Some eq"
    and eq_step: "eq s t \<Longrightarrow> Step m s v w = Some (True, s') \<Longrightarrow> \<exists>t'. Step m t v w = Some (True, t') \<and> eq s' t'"

definition lawful :: "('s, 'v) Model \<Rightarrow> bool" where
  "lawful m \<longleftrightarrow> (\<exists>eq. lawful_model m eq)"

lemma shallow_lawful: "Equal m = None \<Longrightarrow> lawful_model (fillDefault m) ShallowEqual"
  by (rule lawful_model.intro) (auto simp: ShallowEqual_def)

end
