(* ===== verification/Entries.thy ===== *)
theory Entries
  imports Porcupine_Model
begin

text \<open>
  The first part of \<^verbatim>\<open>src/porcupine/checker.go\<close>: histories as lists of entries, one for the call and
  one for the return of each operation.  \<^verbatim>\<open>sort.Sort(byTime(...))\<close> is not stable: the order of
  entries that \<^verbatim>\<open>Less\<close> does not distinguish is not specified, so the sort is an argument with the
  contract \<open>time_sort\<close>.
\<close>

subsection \<open>Entries\<close>

datatype entryKind = callEntry | returnEntry

record 'v entry =
  en_kind :: entryKind
  en_value :: 'v
  en_id :: int
  en_time :: int
  en_clientId :: int

definition byTime_Less :: "'v entry \<Rightarrow> 'v entry \<Rightarrow> bool" where
  "byTime_Less a b =
     (if en_time a \<noteq> en_time b then en_time a < en_time b
      else en_kind a = callEntry \<and> en_kind b = returnEntry)"

fun makeEntries_loop :: "int \<Rightarrow> 'v Operation list \<Rightarrow> 'v entry list" where
  "makeEntries_loop k0 [] = []"
| "makeEntries_loop k0 (elem # history) =
     \<lparr>en_kind = callEntry, en_value = op_Input elem, en_id = k0, en_time = op_Call elem,
      en_clientId = op_ClientId elem\<rparr> #
     \<lparr>en_kind = returnEntry, en_value = op_Output elem, en_id = k0, en_time = op_Return elem,
      en_clientId = op_ClientId elem\<rparr> # makeEntries_loop (k0 + 1) history"

definition makeEntries :: "('v entry list \<Rightarrow> 'v entry list) \<Rightarrow> 'v Operation list \<Rightarrow> 'v entry list" where
  "makeEntries srt history = srt (makeEntries_loop 0 history)"

fun renumber_loop :: "(int \<rightharpoonup> int) \<Rightarrow> int \<Rightarrow> 'v Event list \<Rightarrow> 'v Event list" where
  "renumber_loop m k0 [] = []"
| "renumber_loop m k0 (v # events) =
     (case m (ev_Id v) of
        Some r \<Rightarrow> v\<lparr>ev_Id := r\<rparr> # renumber_loop m k0 events
      | None \<Rightarrow> v\<lparr>ev_Id := k0\<rparr> # renumber_loop (m(ev_Id v \<mapsto> k0)) (k0 + 1) events)"

definition renumber :: "'v Event list \<Rightarrow> 'v Event list" where
  "renumber events = renumber_loop Map.empty 0 events"

fun convertEntries_loop :: "nat \<Rightarrow> 'v Event list \<Rightarrow> 'v entry list" where
  "convertEntries_loop i [] = []"
| "convertEntries_loop i (elem # events) =
     \<lparr>en_kind = (if ev_Kind elem = ReturnEvent then returnEntry else callEntry), en_value = ev_Value elem,
      en_id = ev_Id elem, en_time = int i, en_clientId = ev_ClientId elem\<rparr> # convertEntries_loop (Suc i) events"

definition convertEntries :: "'v Event list \<Rightarrow> 'v entry list" where
  "convertEntries events = convertEntries_loop 0 events"

subsection \<open>Well-formed histories\<close>

text \<open>
  Every operation has one call and, later in the list, one return, and the operations are
  numbered from 0: what the search needs of a history.
\<close>

definition wf_entries :: "'v entry list \<Rightarrow> bool" where
  "wf_entries es \<longleftrightarrow>
     (\<forall>i < length es. 0 \<le> en_id (es ! i) \<and> en_id (es ! i) < int (length es div 2)) \<and>
     (\<forall>i < length es. \<forall>j < length es. en_id (es ! i) = en_id (es ! j) \<longrightarrow> en_kind (es ! i) = en_kind (es ! j) \<longrightarrow> i = j) \<and>
     (\<forall>i < length es. en_kind (es ! i) = callEntry \<longrightarrow>
        (\<exists>j. i < j \<and> j < length es \<and> en_kind (es ! j) = returnEntry \<and> en_id (es ! j) = en_id (es ! i))) \<and>
     (\<forall>i < length es. en_kind (es ! i) = returnEntry \<longrightarrow>
        (\<exists>j < i. en_kind (es ! j) = callEntry \<and> en_id (es ! j) = en_id (es ! i)))"

lemma wf_entries_return:
  "wf_entries es \<Longrightarrow> i < length es \<Longrightarrow> en_kind (es ! i) = callEntry \<Longrightarrow>
   \<exists>j. i < j \<and> j < length es \<and> en_kind (es ! j) = returnEntry \<and> en_id (es ! j) = en_id (es ! i)"
  by (simp add: wf_entries_def)

lemma wf_entries_call:
  "wf_entries es \<Longrightarrow> i < length es \<Longrightarrow> en_kind (es ! i) = returnEntry \<Longrightarrow>
   \<exists>j<i. en_kind (es ! j) = callEntry \<and> en_id (es ! j) = en_id (es ! i)"
  by (simp add: wf_entries_def)

lemma wf_entries_unique:
  "wf_entries es \<Longrightarrow> i < length es \<Longrightarrow> j < length es \<Longrightarrow> en_id (es ! i) = en_id (es ! j) \<Longrightarrow>
   en_kind (es ! i) = en_kind (es ! j) \<Longrightarrow> i = j"
  by (simp add: wf_entries_def)

text \<open>What \<^verbatim>\<open>sort.Sort(byTime(...))\<close> promises.\<close>

locale time_sort =
  fixes srt :: "'v entry list \<Rightarrow> 'v entry list"
  assumes srt_perm: "mset (srt xs) = mset xs"
    and srt_sorted: "sorted_wrt (\<lambda>a b. \<not> byTime_Less b a) (srt xs)"
begin

lemma srt_set [simp]: "set (srt xs) = set xs"
  using mset_eq_setD [OF srt_perm] .

lemma srt_length [simp]: "length (srt xs) = length xs"
  using mset_eq_length [OF srt_perm] .

text \<open>An entry that is earlier by \<^verbatim>\<open>Less\<close> comes first.\<close>

lemma Less_before:
  assumes "i < length (srt xs)" and "j < length (srt xs)" and "byTime_Less (srt xs ! i) (srt xs ! j)"
  shows "i < j"
proof (rule ccontr)
  assume "\<not> i < j"
  moreover have "i \<noteq> j" using assms(3) by (auto simp: byTime_Less_def)
  ultimately have "j < i" by simp
  with srt_sorted [of xs] assms(1,3) show False by (simp add: sorted_wrt_iff_nth_less)
qed

end

text \<open>An executable sort with this contract: by time, calls before returns.\<close>

definition time_key :: "'v entry \<Rightarrow> int" where
  "time_key e = 2 * en_time e + (if en_kind e = callEntry then 0 else 1)"

lemma byTime_Less_key: "byTime_Less a b \<longleftrightarrow> time_key a < time_key b"
  by (cases "en_kind a"; cases "en_kind b") (auto simp: byTime_Less_def time_key_def)

interpretation by_time: time_sort "sort_key time_key"
proof unfold_locales
  show "sorted_wrt (\<lambda>a b. \<not> byTime_Less b a) (sort_key time_key xs)" for xs :: "'a entry list"
    using sorted_sort_key [of time_key xs] by (simp only: sorted_map byTime_Less_key not_less)
qed simp

subsection \<open>Entries of a list of operations\<close>

definition call_of :: "int \<Rightarrow> 'v Operation \<Rightarrow> 'v entry" where
  "call_of k0 op = \<lparr>en_kind = callEntry, en_value = op_Input op, en_id = k0, en_time = op_Call op,
     en_clientId = op_ClientId op\<rparr>"

definition return_of :: "int \<Rightarrow> 'v Operation \<Rightarrow> 'v entry" where
  "return_of k0 op = \<lparr>en_kind = returnEntry, en_value = op_Output op, en_id = k0, en_time = op_Return op,
     en_clientId = op_ClientId op\<rparr>"

lemma call_return_sel [simp]:
  "en_kind (call_of i p) = callEntry" "en_id (call_of i p) = i" "en_value (call_of i p) = op_Input p"
  "en_time (call_of i p) = op_Call p" "en_kind (return_of i p) = returnEntry" "en_id (return_of i p) = i"
  "en_value (return_of i p) = op_Output p" "en_time (return_of i p) = op_Return p"
  by (simp_all add: call_of_def return_of_def)

lemma makeEntries_loop_set:
  "set (makeEntries_loop k0 ops) = (\<Union>k < length ops. {call_of (k0 + int k) (ops ! k), return_of (k0 + int k) (ops ! k)})"
proof (induction ops arbitrary: k0)
  case (Cons p ops)
  have "{..<length (p # ops)} = insert 0 (Suc ` {..<length ops})" by (auto simp: image_iff less_Suc_eq_0_disj)
  with Cons show ?case by (auto simp: call_of_def return_of_def add.assoc)
qed simp

lemma makeEntries_loop_length [simp]: "length (makeEntries_loop k0 ops) = 2 * length ops"
  by (induction k0 ops rule: makeEntries_loop.induct) auto

lemma makeEntries_loop_distinct: "distinct (makeEntries_loop k0 ops)"
proof (induction ops arbitrary: k0)
  case (Cons p ops)
  have "en_id e > k0" if "e \<in> set (makeEntries_loop (k0 + 1) ops)" for e
    using that by (auto simp: makeEntries_loop_set)
  with Cons.IH [of "k0 + 1"] show ?case by fastforce
qed simp

context time_sort
begin

lemma makeEntries_set:
  "set (makeEntries srt ops) = (\<Union>k < length ops. {call_of (int k) (ops ! k), return_of (int k) (ops ! k)})"
  by (simp add: makeEntries_def makeEntries_loop_set)

lemma makeEntries_length: "length (makeEntries srt ops) = 2 * length ops"
  by (simp add: makeEntries_def)

lemma makeEntries_distinct: "distinct (makeEntries srt ops)"
  using makeEntries_loop_distinct mset_eq_imp_distinct_iff [OF srt_perm] unfolding makeEntries_def by blast

lemma makeEntries_nth:
  assumes "i < length (makeEntries srt ops)"
  shows "\<exists>k < length ops. makeEntries srt ops ! i = call_of (int k) (ops ! k) \<or> makeEntries srt ops ! i = return_of (int k) (ops ! k)"
  using nth_mem [OF assms] unfolding makeEntries_set by auto

lemma makeEntries_index:
  assumes "k < length ops"
  shows "\<exists>i < length (makeEntries srt ops). makeEntries srt ops ! i = call_of (int k) (ops ! k)"
    and "\<exists>i < length (makeEntries srt ops). makeEntries srt ops ! i = return_of (int k) (ops ! k)"
proof -
  have "call_of (int k) (ops ! k) \<in> set (makeEntries srt ops)" "return_of (int k) (ops ! k) \<in> set (makeEntries srt ops)"
    using assms unfolding makeEntries_set by blast+
  then show "\<exists>i < length (makeEntries srt ops). makeEntries srt ops ! i = call_of (int k) (ops ! k)"
    "\<exists>i < length (makeEntries srt ops). makeEntries srt ops ! i = return_of (int k) (ops ! k)"
    unfolding in_set_conv_nth by blast+
qed

lemma makeEntries_before:
  "i < length (makeEntries srt ops) \<Longrightarrow> j < length (makeEntries srt ops) \<Longrightarrow>
   byTime_Less (makeEntries srt ops ! i) (makeEntries srt ops ! j) \<Longrightarrow> i < j"
  unfolding makeEntries_def by (rule Less_before)

text \<open>Operations that return no earlier than they are called give a history the search can work on.\<close>

lemma makeEntries_wf:
  assumes calls: "\<forall>p \<in> set ops. op_Call p \<le> op_Return p"
  shows "wf_entries (makeEntries srt ops)"
proof -
  let ?es = "makeEntries srt ops"
  have uniq: "i = j" if a: "i < length ?es" "j < length ?es" "en_id (?es ! i) = en_id (?es ! j)" "en_kind (?es ! i) = en_kind (?es ! j)" for i j
  proof -
    obtain k where "?es ! i = call_of (int k) (ops ! k) \<or> ?es ! i = return_of (int k) (ops ! k)"
      using makeEntries_nth [OF a(1)] by blast
    moreover obtain l where "?es ! j = call_of (int l) (ops ! l) \<or> ?es ! j = return_of (int l) (ops ! l)"
      using makeEntries_nth [OF a(2)] by blast
    ultimately have "?es ! i = ?es ! j" using a(3,4) by auto
    then show "i = j" using makeEntries_distinct a(1,2) by (simp add: nth_eq_iff_index_eq)
  qed
  have order: "i < j" if "i < length ?es" "j < length ?es" "k < length ops" "?es ! i = call_of (int k) (ops ! k)"
      "?es ! j = return_of (int k) (ops ! k)" for i j k
  proof -
    have "op_Call (ops ! k) \<le> op_Return (ops ! k)" using calls that(3) by simp
    then show "i < j" using makeEntries_before [OF that(1,2)] that(4,5) by (auto simp: byTime_Less_def)
  qed
  show ?thesis unfolding wf_entries_def
  proof (intro conjI allI impI)
    fix i assume i: "i < length ?es"
    obtain k where k: "k < length ops" "?es ! i = call_of (int k) (ops ! k) \<or> ?es ! i = return_of (int k) (ops ! k)"
      using makeEntries_nth [OF i] by blast
    then show "0 \<le> en_id (?es ! i)" "en_id (?es ! i) < int (length ?es div 2)" by (auto simp: makeEntries_length)
    show "\<exists>j>i. j < length ?es \<and> en_kind (?es ! j) = returnEntry \<and> en_id (?es ! j) = en_id (?es ! i)" if "en_kind (?es ! i) = callEntry"
      using makeEntries_index(2) [OF k(1)] order [OF i _ k(1)] k(2) that by force
    show "\<exists>j<i. en_kind (?es ! j) = callEntry \<and> en_id (?es ! j) = en_id (?es ! i)" if "en_kind (?es ! i) = returnEntry"
      using makeEntries_index(1) [OF k(1)] order [OF _ i k(1)] k(2) that by force
  qed (use uniq in blast)
qed

text \<open>The order of a return and a call in the list is the order of their times.\<close>

lemma makeEntries_order:
  assumes "i < length ops" and "j < length ops"
  shows "(\<exists>q < length (makeEntries srt ops). \<exists>p < q. makeEntries srt ops ! p = return_of (int i) (ops ! i)
      \<and> makeEntries srt ops ! q = call_of (int j) (ops ! j)) \<longleftrightarrow> op_Return (ops ! i) < op_Call (ops ! j)"
proof
  let ?es = "makeEntries srt ops"
  assume "\<exists>q < length ?es. \<exists>p < q. ?es ! p = return_of (int i) (ops ! i) \<and> ?es ! q = call_of (int j) (ops ! j)"
  then obtain p q where pq: "q < length ?es" "p < q" "?es ! p = return_of (int i) (ops ! i)" "?es ! q = call_of (int j) (ops ! j)"
    by blast
  then have "\<not> byTime_Less (?es ! q) (?es ! p)" using makeEntries_before [of q ops p] by auto
  with pq(3,4) show "op_Return (ops ! i) < op_Call (ops ! j)" by (auto simp: byTime_Less_def split: if_splits)
next
  let ?es = "makeEntries srt ops"
  assume lt: "op_Return (ops ! i) < op_Call (ops ! j)"
  obtain p q where pq: "p < length ?es" "?es ! p = return_of (int i) (ops ! i)" "q < length ?es" "?es ! q = call_of (int j) (ops ! j)"
    using makeEntries_index(2) [OF assms(1)] makeEntries_index(1) [OF assms(2)] by blast
  then have "p < q" using makeEntries_before [of p ops q] lt by (simp add: byTime_Less_def)
  with pq show "\<exists>q < length ?es. \<exists>p < q. ?es ! p = return_of (int i) (ops ! i) \<and> ?es ! q = call_of (int j) (ops ! j)" by blast
qed

end

subsection \<open>Entries of a list of events\<close>

text \<open>A map that numbers a finite set of event ids without gaps.\<close>

definition numbering :: "(int \<rightharpoonup> int) \<Rightarrow> int \<Rightarrow> bool" where
  "numbering m k \<longleftrightarrow> inj_on m (dom m) \<and> ran m = {0..<k} \<and> 0 \<le> k"

lemma numbering_extend: "numbering m k \<Longrightarrow> m x = None \<Longrightarrow> numbering (m(x \<mapsto> k)) (k + 1)"
proof -
  assume n: "numbering m k" and x: "m x = None"
  have "m y \<noteq> Some k" for y using n ranI [of m y k] by (auto simp: numbering_def)
  then have "inj_on (m(x \<mapsto> k)) (dom (m(x \<mapsto> k)))"
    using n by (auto simp: numbering_def inj_on_def dom_def)
  moreover have "ran (m(x \<mapsto> k)) = {0..<k + 1}" using n x by (auto simp: numbering_def)
  ultimately show ?thesis using n by (simp add: numbering_def)
qed

lemma renumber_loop_map:
  assumes "numbering m k"
  shows "\<exists>m' k'. numbering m' k' \<and> dom m' = dom m \<union> ev_Id ` set evs \<and> m \<subseteq>\<^sub>m m'
     \<and> renumber_loop m k evs = map (\<lambda>v. v\<lparr>ev_Id := the (m' (ev_Id v))\<rparr>) evs"
  using assms
proof (induction evs arbitrary: m k)
  case Nil
  then show ?case by auto
next
  case (Cons v evs)
  show ?case
  proof (cases "m (ev_Id v)")
    case None
    obtain m' k' where m': "numbering m' k'" "dom m' = dom (m(ev_Id v \<mapsto> k)) \<union> ev_Id ` set evs" "m(ev_Id v \<mapsto> k) \<subseteq>\<^sub>m m'"
      "renumber_loop (m(ev_Id v \<mapsto> k)) (k + 1) evs = map (\<lambda>v. v\<lparr>ev_Id := the (m' (ev_Id v))\<rparr>) evs"
      using Cons.IH [OF numbering_extend [OF Cons.prems None]] by blast
    have "m' (ev_Id v) = Some k" using m'(3) by (auto simp: map_le_def dest: bspec [of _ _ "ev_Id v"])
    moreover have "m \<subseteq>\<^sub>m m'" using m'(3) None by (auto simp: map_le_def dom_def split: if_splits)
    ultimately show ?thesis using m' None by (intro exI [of _ m'] exI [of _ k']) auto
  next
    case (Some r)
    obtain m' k' where m': "numbering m' k'" "dom m' = dom m \<union> ev_Id ` set evs" "m \<subseteq>\<^sub>m m'"
      "renumber_loop m k evs = map (\<lambda>v. v\<lparr>ev_Id := the (m' (ev_Id v))\<rparr>) evs"
      using Cons.IH [OF Cons.prems] by blast
    moreover have "m' (ev_Id v) = Some r" using m'(3) Some by (auto simp: map_le_def dom_def)
    ultimately show ?thesis using Some by (intro exI [of _ m'] exI [of _ k']) auto
  qed
qed

text \<open>Renumbering renames the ids one to one to the numbers from 0.\<close>

lemma renumber_renames:
  "\<exists>f. bij_betw f (ev_Id ` set evs) {0..<int (card (ev_Id ` set evs))} \<and> renumber evs = map (\<lambda>v. v\<lparr>ev_Id := f (ev_Id v)\<rparr>) evs"
proof -
  have "numbering Map.empty 0" by (simp add: numbering_def)
  from renumber_loop_map [OF this, of evs] obtain m k where m: "numbering m k" "dom m = ev_Id ` set evs"
    "renumber evs = map (\<lambda>v. v\<lparr>ev_Id := the (m (ev_Id v))\<rparr>) evs" by (auto simp: renumber_def)
  have "inj_on (\<lambda>x. the (m x)) (dom m)" using m(1) by (auto simp: numbering_def inj_on_def dom_def)
  moreover have "(\<lambda>x. the (m x)) ` dom m = ran m" by (auto simp: ran_def dom_def image_iff) (metis option.sel)
  then have "(\<lambda>x. the (m x)) ` dom m = {0..<k}" using m(1) by (simp add: numbering_def)
  ultimately have "bij_betw (\<lambda>x. the (m x)) (dom m) {0..<k}" by (simp add: bij_betw_def)
  moreover from bij_betw_same_card [OF this] have "k = int (card (dom m))" using m(1) by (simp add: numbering_def)
  ultimately show ?thesis using m(2,3) by (intro exI [of _ "\<lambda>x. the (m x)"]) simp
qed

lemma convertEntries_loop_nth:
  "i < length evs \<Longrightarrow> convertEntries_loop k evs ! i =
     \<lparr>en_kind = (if ev_Kind (evs ! i) = ReturnEvent then returnEntry else callEntry), en_value = ev_Value (evs ! i),
      en_id = ev_Id (evs ! i), en_time = int (k + i), en_clientId = ev_ClientId (evs ! i)\<rparr>"
  by (induction evs arbitrary: k i) (auto simp: nth_Cons split: nat.split)

lemma convertEntries_loop_length [simp]: "length (convertEntries_loop k evs) = length evs"
  by (induction evs arbitrary: k) auto

text \<open>Each operation of the history has one call event and, later, one return event.\<close>

definition wf_events :: "'v Event list \<Rightarrow> bool" where
  "wf_events evs \<longleftrightarrow>
     (\<forall>i < length evs. \<forall>j < length evs. ev_Id (evs ! i) = ev_Id (evs ! j) \<longrightarrow> ev_Kind (evs ! i) = ev_Kind (evs ! j) \<longrightarrow> i = j) \<and>
     (\<forall>i < length evs. ev_Kind (evs ! i) = CallEvent \<longrightarrow>
        (\<exists>j. i < j \<and> j < length evs \<and> ev_Kind (evs ! j) = ReturnEvent \<and> ev_Id (evs ! j) = ev_Id (evs ! i))) \<and>
     (\<forall>i < length evs. ev_Kind (evs ! i) = ReturnEvent \<longrightarrow>
        (\<exists>j < i. ev_Kind (evs ! j) = CallEvent \<and> ev_Id (evs ! j) = ev_Id (evs ! i)))"

lemma wf_events_return:
  "wf_events evs \<Longrightarrow> i < length evs \<Longrightarrow> ev_Kind (evs ! i) = CallEvent \<Longrightarrow>
   \<exists>j. i < j \<and> j < length evs \<and> ev_Kind (evs ! j) = ReturnEvent \<and> ev_Id (evs ! j) = ev_Id (evs ! i)"
  by (simp add: wf_events_def)

lemma wf_events_call:
  "wf_events evs \<Longrightarrow> i < length evs \<Longrightarrow> ev_Kind (evs ! i) = ReturnEvent \<Longrightarrow>
   \<exists>j<i. ev_Kind (evs ! j) = CallEvent \<and> ev_Id (evs ! j) = ev_Id (evs ! i)"
  by (simp add: wf_events_def)

lemma wf_events_unique:
  "wf_events evs \<Longrightarrow> i < length evs \<Longrightarrow> j < length evs \<Longrightarrow> ev_Id (evs ! i) = ev_Id (evs ! j) \<Longrightarrow>
   ev_Kind (evs ! i) = ev_Kind (evs ! j) \<Longrightarrow> i = j"
  by (simp add: wf_events_def)

lemma wf_events_half:
  assumes wf: "wf_events evs"
  shows "length evs = 2 * card (ev_Id ` set evs)"
proof -
  let ?I = "\<lambda>kd. {i. i < length evs \<and> ev_Kind (evs ! i) = kd}" and ?f = "\<lambda>i. ev_Id (evs ! i)"
  have "card (?I kd) = card (ev_Id ` set evs)" for kd
  proof -
    have "inj_on ?f (?I kd)" using wf_events_unique [OF wf] by (auto intro!: inj_onI)
    moreover have "?f ` ?I kd = ev_Id ` set evs"
    proof (intro equalityI subsetI)
      fix x assume "x \<in> ev_Id ` set evs"
      then obtain i where i: "i < length evs" "x = ev_Id (evs ! i)" by (auto simp: in_set_conv_nth)
      obtain j where "j < length evs" "ev_Kind (evs ! j) = kd" "ev_Id (evs ! j) = x"
        using i wf_events_return [OF wf i(1)] wf_events_call [OF wf i(1)]
        by (cases kd; cases "ev_Kind (evs ! i)") (auto dest: less_trans)
      then show "x \<in> ?f ` ?I kd" by blast
    qed auto
    ultimately show ?thesis by (metis card_image)
  qed
  moreover have "{..<length evs} = ?I CallEvent \<union> ?I ReturnEvent" using EventKind.exhaust by auto
  then have "length evs = card (?I CallEvent \<union> ?I ReturnEvent)" by (metis card_lessThan)
  moreover have "card (?I CallEvent \<union> ?I ReturnEvent) = card (?I CallEvent) + card (?I ReturnEvent)"
    by (rule card_Un_disjoint) auto
  ultimately show ?thesis by simp
qed

lemma convertEntries_renumber_wf:
  assumes wf: "wf_events evs"
  shows "wf_entries (convertEntries (renumber evs))"
proof -
  obtain f where f: "bij_betw f (ev_Id ` set evs) {0..<int (card (ev_Id ` set evs))}"
    and r: "renumber evs = map (\<lambda>v. v\<lparr>ev_Id := f (ev_Id v)\<rparr>) evs" using renumber_renames by blast
  let ?es = "convertEntries (renumber evs)"
  have len: "length ?es = length evs" by (simp add: convertEntries_def r)
  have kd: "en_kind (?es ! i) = (if ev_Kind (evs ! i) = ReturnEvent then returnEntry else callEntry)"
    and nr: "en_id (?es ! i) = f (ev_Id (evs ! i))" if "i < length evs" for i
    using that by (simp_all add: convertEntries_def r convertEntries_loop_nth)
  have inj: "f (ev_Id (evs ! i)) = f (ev_Id (evs ! j)) \<longleftrightarrow> ev_Id (evs ! i) = ev_Id (evs ! j)" if "i < length evs" "j < length evs" for i j
    using f that by (auto simp: bij_betw_def inj_on_def)
  have kinds: "k \<noteq> ReturnEvent \<longleftrightarrow> k = CallEvent" for k by (cases k) auto
  have rng: "f (ev_Id (evs ! i)) \<in> {0..<int (length evs div 2)}" if "i < length evs" for i
    using bij_betwE [OF f] that wf_events_half [OF wf] by simp
  show ?thesis unfolding wf_entries_def len
  proof (intro conjI allI impI)
    fix i assume i: "i < length evs"
    show "0 \<le> en_id (?es ! i)" "en_id (?es ! i) < int (length evs div 2)" using rng [OF i] i by (simp_all add: nr)
    show "i = j" if "j < length evs" "en_id (?es ! i) = en_id (?es ! j)" "en_kind (?es ! i) = en_kind (?es ! j)" for j
    proof -
      have "ev_Id (evs ! i) = ev_Id (evs ! j)" using that(1,2) i by (simp add: nr inj)
      moreover have "ev_Kind (evs ! i) = ev_Kind (evs ! j)"
        using that(1,3) i kd [OF i] kd [OF that(1)] by (cases "ev_Kind (evs ! i)"; cases "ev_Kind (evs ! j)") simp_all
      ultimately show "i = j" by (rule wf_events_unique [OF wf i that(1)])
    qed
    {
      assume "en_kind (?es ! i) = callEntry"
      then have "ev_Kind (evs ! i) = CallEvent" using kd [OF i] kinds by (auto split: if_splits)
      then obtain j where j: "i < j" "j < length evs" "ev_Kind (evs ! j) = ReturnEvent" "ev_Id (evs ! j) = ev_Id (evs ! i)"
        using wf_events_return [OF wf i] by blast
      then show "\<exists>j>i. j < length evs \<and> en_kind (?es ! j) = returnEntry \<and> en_id (?es ! j) = en_id (?es ! i)"
        using kd [OF j(2)] nr [OF j(2)] nr [OF i] by (intro exI [of _ j]) simp
    }
    {
      assume "en_kind (?es ! i) = returnEntry"
      then have "ev_Kind (evs ! i) = ReturnEvent" using kd [OF i] by (auto split: if_splits)
      then obtain j where j: "j < i" "ev_Kind (evs ! j) = CallEvent" "ev_Id (evs ! j) = ev_Id (evs ! i)"
        using wf_events_call [OF wf i] by blast
      then show "\<exists>j<i. en_kind (?es ! j) = callEntry \<and> en_id (?es ! j) = en_id (?es ! i)"
        using kd [of j] nr [of j] nr [OF i] i by (intro exI [of _ j]) simp
    }
  qed
qed

end
