(* ===== verification/Entry_List.thy ===== *)
theory Entry_List
  imports Entries
begin

text \<open>
  The doubly linked list of calls and returns of \<^verbatim>\<open>src/porcupine/checker.go\<close> (\<^verbatim>\<open>node\<close>,
  \<^verbatim>\<open>insertBefore\<close>, \<^verbatim>\<open>length\<close>, \<^verbatim>\<open>makeLinkedEntries\<close>, \<^verbatim>\<open>lift\<close>, \<^verbatim>\<open>unlift\<close>).  The heap has one
  function per field of \<^verbatim>\<open>node\<close>; a pointer is an address or \<^verbatim>\<open>nil\<close> (\<open>None\<close>), and reading
  through \<^verbatim>\<open>nil\<close> is a panic (\<open>None\<close>).  \<open>dll h xs\<close> says that the nodes \<open>xs\<close> form a list in
  this order; \<open>lift\<close> removes a call and its return from it, and \<open>unlift\<close> gives back the
  very heap \<open>lift\<close> started from, which is what lets the search backtrack.
\<close>

subsection \<open>Heap and operations\<close>

record 'v heap =
  h_value :: "nat \<Rightarrow> 'v option"
  h_match :: "nat \<Rightarrow> nat option"
  h_id :: "nat \<Rightarrow> int"
  h_next :: "nat \<Rightarrow> nat option"
  h_prev :: "nat \<Rightarrow> nat option"
  h_size :: nat

definition empty_heap :: "'v heap" where
  "empty_heap = \<lparr>h_value = (\<lambda>_. None), h_match = (\<lambda>_. None), h_id = (\<lambda>_. 0), h_next = (\<lambda>_. None),
     h_prev = (\<lambda>_. None), h_size = 0\<rparr>"

text \<open>\<^verbatim>\<open>&node{value: v, match: m, id: i}\<close> is a fresh address.\<close>

definition new_node :: "'v option \<Rightarrow> nat option \<Rightarrow> int \<Rightarrow> 'v heap \<Rightarrow> nat \<times> 'v heap" where
  "new_node v m i h =
     (let a = h_size h in
      (a, \<lparr>h_value = (h_value h)(a := v), h_match = (h_match h)(a := m), h_id = (h_id h)(a := i),
           h_next = (h_next h)(a := None), h_prev = (h_prev h)(a := None), h_size = Suc a\<rparr>))"

definition set_next :: "nat \<Rightarrow> nat option \<Rightarrow> 'v heap \<Rightarrow> 'v heap" where
  "set_next a p h = h\<lparr>h_next := (h_next h)(a := p)\<rparr>"

definition set_prev :: "nat \<Rightarrow> nat option \<Rightarrow> 'v heap \<Rightarrow> 'v heap" where
  "set_prev a p h = h\<lparr>h_prev := (h_prev h)(a := p)\<rparr>"

definition insertBefore :: "nat \<Rightarrow> nat option \<Rightarrow> 'v heap \<Rightarrow> 'v heap" where
  "insertBefore n mark h =
     (case mark of None \<Rightarrow> h
      | Some mk \<Rightarrow>
          (let beforeMark = h_prev h mk;
               h1 = set_prev mk (Some n) h;
               h2 = set_next n (Some mk) h1
           in case beforeMark of None \<Rightarrow> h2
              | Some b \<Rightarrow> set_next b (Some n) (set_prev n (Some b) h2)))"

partial_function (option) length_loop :: "'v heap \<Rightarrow> nat option \<Rightarrow> nat \<Rightarrow> nat option" where
  "length_loop h n l = (case n of None \<Rightarrow> Some l | Some a \<Rightarrow> length_loop h (h_next h a) (l + 1))"

definition node_length :: "'v heap \<Rightarrow> nat option \<Rightarrow> nat option" where
  "node_length h n = length_loop h n 0"

text \<open>The loop of \<^verbatim>\<open>makeLinkedEntries\<close> runs over the entries from the last to the first.\<close>

fun makeLinked_loop :: "'v entry list \<Rightarrow> nat option \<Rightarrow> (int \<rightharpoonup> nat) \<Rightarrow> 'v heap \<Rightarrow> nat option \<times> 'v heap" where
  "makeLinked_loop [] root match h = (root, h)"
| "makeLinked_loop (elem # rest) root match h =
     (if en_kind elem = returnEntry
      then (let (n, h1) = new_node (Some (en_value elem)) None (en_id elem) h
            in makeLinked_loop rest (Some n) (match(en_id elem \<mapsto> n)) (insertBefore n root h1))
      else (let (n, h1) = new_node (Some (en_value elem)) (match (en_id elem)) (en_id elem) h
            in makeLinked_loop rest (Some n) match (insertBefore n root h1)))"

definition makeLinkedEntries :: "'v entry list \<Rightarrow> 'v heap \<Rightarrow> nat option \<times> 'v heap" where
  "makeLinkedEntries entries h = makeLinked_loop (rev entries) None Map.empty h"

definition lift :: "nat \<Rightarrow> 'v heap \<Rightarrow> 'v heap option" where
  "lift e h = do {
     p \<leftarrow> h_prev h e;
     let h1 = set_next p (h_next h e) h;
     q \<leftarrow> h_next h1 e;
     let h2 = set_prev q (h_prev h1 e) h1;
     m \<leftarrow> h_match h2 e;
     mp \<leftarrow> h_prev h2 m;
     let h3 = set_next mp (h_next h2 m) h2;
     Some (case h_next h3 m of None \<Rightarrow> h3 | Some mq \<Rightarrow> set_prev mq (h_prev h3 m) h3)
   }"

definition unlift :: "nat \<Rightarrow> 'v heap \<Rightarrow> 'v heap option" where
  "unlift e h = do {
     m \<leftarrow> h_match h e;
     mp \<leftarrow> h_prev h m;
     let h1 = set_next mp (Some m) h;
     let h2 = (case h_next h1 m of None \<Rightarrow> h1 | Some mq \<Rightarrow> set_prev mq (Some m) h1);
     p \<leftarrow> h_prev h2 e;
     let h3 = set_next p (Some e) h2;
     q \<leftarrow> h_next h3 e;
     Some (set_prev q (Some e) h3)
   }"

subsection \<open>Linked lists\<close>

fun links :: "'v heap \<Rightarrow> nat list \<Rightarrow> bool" where
  "links h [] = True"
| "links h [a] = True"
| "links h (a # b # xs) = (h_next h a = Some b \<and> h_prev h b = Some a \<and> links h (b # xs))"

definition dll :: "'v heap \<Rightarrow> nat list \<Rightarrow> bool" where
  "dll h xs \<longleftrightarrow> links h xs \<and> distinct xs \<and> xs \<noteq> [] \<and> h_next h (last xs) = None"

lemma set_next_sel [simp]:
  "h_next (set_next a p h) = (h_next h)(a := p)" "h_prev (set_next a p h) = h_prev h"
  "h_match (set_next a p h) = h_match h" "h_id (set_next a p h) = h_id h"
  "h_value (set_next a p h) = h_value h" "h_size (set_next a p h) = h_size h"
  by (simp_all add: set_next_def)

lemma set_prev_sel [simp]:
  "h_prev (set_prev a p h) = (h_prev h)(a := p)" "h_next (set_prev a p h) = h_next h"
  "h_match (set_prev a p h) = h_match h" "h_id (set_prev a p h) = h_id h"
  "h_value (set_prev a p h) = h_value h" "h_size (set_prev a p h) = h_size h"
  by (simp_all add: set_prev_def)

lemma set_link_same [simp]:
  "set_next a p (set_next a q h) = set_next a p h" "set_prev a p (set_prev a q h) = set_prev a p h"
  "h_next h a = p \<Longrightarrow> set_next a p h = h" "h_prev h a = p \<Longrightarrow> set_prev a p h = h"
  by (auto simp: set_next_def set_prev_def)

lemma set_link_commute: "set_next a p (set_prev b q h) = set_prev b q (set_next a p h)"
  by (simp add: set_next_def set_prev_def)

lemma links_Cons:
  "links h (a # xs) \<longleftrightarrow> links h xs \<and> (xs \<noteq> [] \<longrightarrow> h_next h a = Some (hd xs) \<and> h_prev h (hd xs) = Some a)"
  by (cases xs) auto

lemma links_append:
  "links h (xs @ ys) \<longleftrightarrow> links h xs \<and> links h ys \<and>
     (xs \<noteq> [] \<longrightarrow> ys \<noteq> [] \<longrightarrow> h_next h (last xs) = Some (hd ys) \<and> h_prev h (hd ys) = Some (last xs))"
  by (induction xs) (auto simp: links_Cons)

text \<open>Only the forward links of all nodes but the last and the backward links of all but the first matter.\<close>

lemma links_cong:
  assumes "\<And>a. a \<in> set (butlast xs) \<Longrightarrow> h_next h' a = h_next h a"
    and "\<And>a. a \<in> set (tl xs) \<Longrightarrow> h_prev h' a = h_prev h a"
  shows "links h' xs = links h xs"
  using assms by (induction xs rule: links.induct [of _ h]) auto

lemma dll_unique_next: "dll h (xs @ a # ys) \<Longrightarrow> h_next h a = (case ys of [] \<Rightarrow> None | b # _ \<Rightarrow> Some b)"
  by (cases ys) (auto simp: dll_def links_append)

lemma dll_unique_prev: "dll h (xs @ a # ys) \<Longrightarrow> xs \<noteq> [] \<Longrightarrow> h_prev h a = Some (last xs)"
  by (auto simp: dll_def links_append)

lemma set_tl: "set (tl xs) \<subseteq> set xs"
  by (cases xs) auto

text \<open>Taking one node out of the middle of a list.\<close>

lemma dll_remove:
  assumes d: "dll h (xs @ a # ys)" and ne: "xs \<noteq> []"
    and h': "h' = (let h1 = set_next (last xs) (h_next h a) h
                   in case ys of [] \<Rightarrow> h1 | b # _ \<Rightarrow> set_prev b (Some (last xs)) h1)"
  shows "dll h' (xs @ ys)"
proof -
  from ne obtain xs0 l where xs: "xs = xs0 @ [l]" by (cases xs rule: rev_cases) auto
  have dist: "distinct (xs0 @ l # a # ys)" and lk: "links h (xs0 @ l # a # ys)"
    and lst: "h_next h (last (a # ys)) = None"
    using d by (auto simp: dll_def xs)
  have nxt: "h_next h a = (case ys of [] \<Rightarrow> None | b # _ \<Rightarrow> Some b)" by (rule dll_unique_next [OF d])
  have "links h' xs"
    using dist lk set_tl [of xs]
    by (subst links_cong [of _ _ h]) (auto simp: h' xs links_append Let_def split: list.splits)
  moreover have "links h' ys"
    using dist lk by (subst links_cong [of _ _ h])
      (auto simp: h' xs links_append links_Cons Let_def dest: in_set_butlastD split: list.splits)
  ultimately show ?thesis
    using dist lst nxt by (cases ys) (auto simp: dll_def h' xs links_append Let_def)
qed

subsection \<open>Removing a call and its return\<close>

lemma dll_remove_call:
  assumes d: "dll h (xs @ a # b # ys)" and ne: "xs \<noteq> []"
  shows "dll (set_prev b (Some (last xs)) (set_next (last xs) (Some b) h)) (xs @ b # ys)"
  using dll_remove [OF d ne refl] dll_unique_next [OF d] by (simp add: Let_def)

lemma dll_remove_return:
  assumes d: "dll h (xs @ m # zs)" and ne: "xs \<noteq> []"
  shows "dll (case zs of [] \<Rightarrow> set_next (last xs) None h
              | c # _ \<Rightarrow> set_prev c (Some (last xs)) (set_next (last xs) (Some c) h)) (xs @ zs)"
  using dll_remove [OF d ne refl] dll_unique_next [OF d] by (cases zs) (simp_all add: Let_def)

lemma lift_eval:
  assumes "h_prev h e = Some p" and "h_next h e = Some q" and "p \<noteq> e" and "q \<noteq> e"
    and h2: "h2 = set_prev q (Some p) (set_next p (Some q) h)"
    and "h_match h e = Some m" and "h_prev h2 m = Some r"
  shows "lift e h = Some (let h3 = set_next r (h_next h2 m) h2
     in case h_next h3 m of None \<Rightarrow> h3 | Some mq \<Rightarrow> set_prev mq (h_prev h3 m) h3)"
proof -
  have links: "h_next (set_next p (Some q) h) e = Some q" "h_prev (set_next p (Some q) h) e = Some p"
    and m: "h_match h2 e = Some m" using assms by simp_all
  show ?thesis
    by (simp only: lift_def assms(1,2,7) links m Let_def Option.bind.simps flip: h2)
qed

lemma lift_dll:
  assumes d: "dll h (xs @ e # ys @ m # zs)" and ne: "xs \<noteq> []" and m: "h_match h e = Some m"
  shows "\<exists>h'. lift e h = Some h' \<and> dll h' (xs @ ys @ zs) \<and> h_value h' = h_value h \<and> h_match h' = h_match h
           \<and> h_id h' = h_id h \<and> h_size h' = h_size h \<and> unlift e h' = Some h"
proof -
  obtain q qs where q: "ys @ m # zs = q # qs" by (cases "ys @ m # zs") auto
  define p where "p = last xs"
  define h2 where "h2 = set_prev q (Some p) (set_next p (Some q) h)"
  have pe: "h_prev h e = Some p" and nx: "h_next h e = Some q" and dist: "distinct (xs @ e # ys @ m # zs)"
    using d ne dll_unique_prev [OF d ne] dll_unique_next [OF d] q by (auto simp: p_def dll_def)
  have bk: "h_next h p = Some e" "h_prev h q = Some e" and p_in: "p \<in> set xs"
    using d ne q by (auto simp: p_def dll_def links_append links_Cons)
  have q_in: "q \<in> set (ys @ m # zs)" by (simp add: q)
  have d2: "dll h2 ((xs @ ys) @ m # zs)"
    using dll_remove_call [of h xs e q qs] d q ne by (simp add: h2_def p_def)
  define r where "r = last (xs @ ys)"
  have r_in: "r \<in> set (xs @ ys)" unfolding r_def by (rule last_in_set) (simp add: ne)
  have mp: "h_prev h2 m = Some r" and rn: "h_next h2 r = Some m"
    using dll_unique_prev [OF d2] ne d2 links_append [of h2 "xs @ ys" "m # zs"] by (auto simp: r_def dll_def)
  have mn: "h_next h2 m = (case zs of [] \<Rightarrow> None | c # _ \<Rightarrow> Some c)" by (rule dll_unique_next [OF d2])
  have cb: "h_prev h2 c = Some m" if "zs = c # cs" for c cs
    using d2 that by (auto simp: dll_def links_append)
  define h' where "h' = (case zs of [] \<Rightarrow> set_next r None h2
      | c # _ \<Rightarrow> set_prev c (Some r) (set_next r (Some c) h2))"
  have d': "dll h' (xs @ ys @ zs)"
    unfolding h'_def r_def using dll_remove_return [OF d2] ne by simp
  have ne_pts: "p \<noteq> e" "q \<noteq> e" "m \<noteq> e" "p \<noteq> m" "r \<noteq> m" "r \<noteq> e" "m \<notin> set zs" "e \<notin> set zs"
    using dist p_in q_in r_in by auto
  have l: "lift e h = Some h'"
    unfolding lift_eval [OF pe nx _ _ h2_def m mp, OF ne_pts(1,2)] h'_def
    using mn mp ne_pts by (cases zs) (simp_all add: Let_def)
  have r2: "set_next r (Some m) h2 = h2" and p2: "set_next p (Some e) h = h" "set_prev q (Some e) h = h"
    using rn bk by simp_all
  have u: "unlift e h' = Some h"
  proof -
    have pm: "h_match h' e = Some m" "h_prev h' m = Some r" "h_next h' m = h_next h2 m"
      using m mp ne_pts by (auto simp: h'_def h2_def split: list.splits)
    have undo: "(case h_next h2 m of None \<Rightarrow> set_next r (Some m) h'
        | Some c \<Rightarrow> set_prev c (Some m) (set_next r (Some m) h')) = h2"
      using mn r2 cb by (auto simp: h'_def set_link_commute split: list.splits)
    have "h_prev h2 e = Some p" "h_next h2 e = Some q" using pe nx ne_pts by (auto simp: h2_def)
    moreover have "set_prev q (Some e) (set_next p (Some e) h2) = h"
      using p2 by (simp add: h2_def set_link_commute)
    ultimately show ?thesis using pm undo ne_pts by (simp add: unlift_def Let_def)
  qed
  show ?thesis using l d' u by (auto simp: h'_def h2_def split: list.splits)
qed

subsection \<open>Building the list\<close>

text \<open>The nodes of the list of \<open>N\<close> entries, in the order of the list.\<close>

definition chain :: "'v heap \<Rightarrow> nat option \<Rightarrow> nat \<Rightarrow> bool" where
  "chain h root N \<longleftrightarrow> h_size h = N \<and> root = (if N = 0 then None else Some (N - 1)) \<and> links h (rev [0..<N]) \<and>
     (N \<noteq> 0 \<longrightarrow> h_next h 0 = None \<and> h_prev h (N - 1) = None)"

lemma insert_chain:
  assumes c: "chain h root N" and new: "new_node v m i h = (n, h1)"
  shows "n = N" and "chain (insertBefore n root h1) (Some N) (Suc N)"
    and "h_value (insertBefore n root h1) = (h_value h)(N := v)"
    and "h_match (insertBefore n root h1) = (h_match h)(N := m)"
    and "h_id (insertBefore n root h1) = (h_id h)(N := i)"
proof -
  have n: "n = N" and h1: "h1 = \<lparr>h_value = (h_value h)(N := v), h_match = (h_match h)(N := m), h_id = (h_id h)(N := i),
      h_next = (h_next h)(N := None), h_prev = (h_prev h)(N := None), h_size = Suc N\<rparr>"
    using c new by (auto simp: chain_def new_node_def Let_def)
  show "n = N" by (rule n)
  show "h_value (insertBefore n root h1) = (h_value h)(N := v)" "h_match (insertBefore n root h1) = (h_match h)(N := m)"
    "h_id (insertBefore n root h1) = (h_id h)(N := i)"
    by (auto simp: insertBefore_def h1 Let_def split: option.split)
  show "chain (insertBefore n root h1) (Some N) (Suc N)"
  proof (cases "N = 0")
    case True
    then show ?thesis using c by (auto simp: chain_def h1 n insertBefore_def)
  next
    case False
    then obtain M where M: "N = Suc M" by (cases N) auto
    define h2 where "h2 = insertBefore n root h1"
    have h: "h2 = set_next N (Some M) (set_prev M (Some N) h1)"
      using c by (auto simp: h2_def chain_def M n insertBefore_def h1 Let_def)
    have "a \<noteq> N" if "a \<in> set (butlast (M # rev [0..<M]))" for a using in_set_butlastD [OF that] by (auto simp: M)
    then have "links h2 (M # rev [0..<M]) = links h (M # rev [0..<M])"
      unfolding h h1 by (intro links_cong) (auto simp: M)
    then show ?thesis using c unfolding h2_def [symmetric] by (auto simp: chain_def h h1 M links_Cons [of _ "Suc M"])
  qed
qed

text \<open>
  In the order of allocation, the node at address \<open>j\<close> stands for the \<open>j\<close>-th entry from the end,
  and the match of a call is the return with the same number.
\<close>

definition node_of :: "'v entry list \<Rightarrow> 'v heap \<Rightarrow> nat \<Rightarrow> bool" where
  "node_of r h j \<longleftrightarrow> h_value h j = Some (en_value (r ! j)) \<and> h_id h j = en_id (r ! j) \<and>
     (\<forall>a. h_match h j = Some a \<longleftrightarrow>
        en_kind (r ! j) = callEntry \<and> a < j \<and> en_kind (r ! a) = returnEntry \<and> en_id (r ! a) = en_id (r ! j))"

definition match_inv :: "'v entry list \<Rightarrow> (int \<rightharpoonup> nat) \<Rightarrow> bool" where
  "match_inv r match \<longleftrightarrow>
     (\<forall>k a. match k = Some a \<longleftrightarrow> a < length r \<and> en_kind (r ! a) = returnEntry \<and> en_id (r ! a) = k)"

definition one_return :: "'v entry list \<Rightarrow> bool" where
  "one_return r \<longleftrightarrow> (\<forall>i < length r. \<forall>j < length r. en_kind (r ! i) = returnEntry \<longrightarrow> en_kind (r ! j) = returnEntry
     \<longrightarrow> en_id (r ! i) = en_id (r ! j) \<longrightarrow> i = j)"

lemma node_of_append: "j < length r \<Longrightarrow> node_of (r @ r') h j = node_of r h j"
  unfolding node_of_def by (simp add: nth_append cong: conj_cong)

lemma node_of_cong:
  "h_value h' j = h_value h j \<Longrightarrow> h_match h' j = h_match h j \<Longrightarrow> h_id h' j = h_id h j \<Longrightarrow> node_of r h' j = node_of r h j"
  by (simp add: node_of_def)

lemma match_inv_call: "match_inv r match \<Longrightarrow> en_kind e = callEntry \<Longrightarrow> match_inv (r @ [e]) match"
  unfolding match_inv_def by (simp add: nth_append less_Suc_eq conj_disj_distribR)

lemma match_inv_return:
  assumes "match_inv r match" and "en_kind e = returnEntry" and one: "one_return (r @ [e])"
  shows "match_inv (r @ [e]) (match(en_id e \<mapsto> length r))"
proof -
  have "a \<notin> {a. a < length r \<and> en_kind (r ! a) = returnEntry \<and> en_id (r ! a) = en_id e}" for a
    using one [unfolded one_return_def, rule_format, of a "length r"] assms(2) by (auto simp: nth_append)
  then show ?thesis using assms(1,2) by (auto simp: match_inv_def nth_append less_Suc_eq)
qed

lemma makeLinked_loop_chain:
  assumes "chain h root (length r)" and "\<forall>j < length r. node_of r h j" and "match_inv r match" and "one_return (r @ r')"
  shows "\<exists>root' h'. makeLinked_loop r' root match h = (root', h') \<and> chain h' root' (length (r @ r'))
           \<and> (\<forall>j < length (r @ r'). node_of (r @ r') h' j)"
  using assms
proof (induction r' arbitrary: r root match h)
  case Nil
  then show ?case by simp
next
  case (Cons e r')
  define m where "m = (if en_kind e = returnEntry then None else match (en_id e))"
  obtain n h1 where new: "new_node (Some (en_value e)) m (en_id e) h = (n, h1)" by fastforce
  note ins = insert_chain [OF Cons.prems(1) new]
  let ?h = "insertBefore n root h1"
  have old: "node_of (r @ [e]) ?h j" if "j < length r" for j
    using Cons.prems(2) that node_of_cong [of ?h j h "r @ [e]"] by (simp add: ins(3-5) node_of_append)
  have "node_of (r @ [e]) ?h (length r)"
    using Cons.prems(3) by (cases "en_kind e") (auto simp: node_of_def ins(3-5) m_def match_inv_def nth_append)
  with old have nodes: "\<forall>j < length (r @ [e]). node_of (r @ [e]) ?h j" by (auto simp: less_Suc_eq)
  have ch: "chain ?h (Some n) (length (r @ [e]))" using ins(1,2) by simp
  have one: "one_return ((r @ [e]) @ r')" using Cons.prems(4) by simp
  have one1: "one_return (r @ [e])"
    unfolding one_return_def
  proof (intro allI impI)
    fix i j assume "i < length (r @ [e])" "j < length (r @ [e])"
      "en_kind ((r @ [e]) ! i) = returnEntry" "en_kind ((r @ [e]) ! j) = returnEntry"
      "en_id ((r @ [e]) ! i) = en_id ((r @ [e]) ! j)"
    then show "i = j" using one [unfolded one_return_def, rule_format, of i j] by (auto simp: nth_append split: if_splits)
  qed
  show ?case
  proof (cases "en_kind e")
    case callEntry
    then show ?thesis
      using Cons.IH [OF ch nodes match_inv_call [OF Cons.prems(3) callEntry] one] callEntry new by (simp add: m_def)
  next
    case returnEntry
    then show ?thesis
      using Cons.IH [OF ch nodes match_inv_return [OF Cons.prems(3) returnEntry one1] one] returnEntry new ins(1)
      by (simp add: m_def fun_upd_def)
  qed
qed

lemma makeLinkedEntries_chain:
  assumes "one_return (rev es)"
  shows "\<exists>root h. makeLinkedEntries es empty_heap = (root, h) \<and> chain h root (length es)
           \<and> (\<forall>j < length es. node_of (rev es) h j)"
  using makeLinked_loop_chain [of empty_heap None "[]" Map.empty "rev es"] assms
  by (simp add: makeLinkedEntries_def chain_def match_inv_def empty_heap_def)

lemma length_loop_links:
  "links h xs \<Longrightarrow> xs \<noteq> [] \<Longrightarrow> h_next h (last xs) = None \<Longrightarrow> length_loop h (Some (hd xs)) l = Some (l + length xs)"
proof (induction xs arbitrary: l)
  case (Cons a xs)
  show ?case
  proof (cases xs)
    case Nil
    with Cons.prems show ?thesis by (simp add: length_loop.simps [of h "Some a"] length_loop.simps [of h None])
  next
    case (Cons b ys)
    with Cons.prems Cons.IH [of "Suc l"] show ?thesis by (simp add: length_loop.simps [of h "Some a"])
  qed
qed simp

lemma node_length_chain: "chain h root N \<Longrightarrow> node_length h root = Some N"
proof (cases N)
  case (Suc M)
  assume "chain h root N"
  then show ?thesis
    using length_loop_links [of h "rev [0..<N]" 0] Suc by (auto simp: chain_def node_length_def last_rev)
qed (simp add: chain_def node_length_def length_loop.simps)

end
