(* ===== verification/Check_Single.thy ===== *)
theory Check_Single
  imports Bitset Entry_List
begin

text \<open>
  \<^verbatim>\<open>checkSingle\<close> of \<^verbatim>\<open>src/porcupine/checker.go\<close>: the depth-first search for a linearization of a
  history, with undo on the linked list and a cache of configurations already tried.  One
  iteration of its loop is \<open>check_step\<close>; the loop is a partial function, so that a search that
  panics or does not end is \<open>None\<close>.  The kill flag, set by another goroutine, is an oracle that
  says what each iteration reads.  A pointer to a slice in \<^verbatim>\<open>longest\<close> is the number of the
  iteration that made the slice, together with the slice.

  \<open>linearizable\<close> is the definition of linearizability by a total order of the operations; the
  theory proves that the search returns, and with which result.
\<close>

subsection \<open>The program\<close>

definition uint_of :: "int \<Rightarrow> nat" where
  "uint_of k = nat (k mod 2 ^ 64)"

type_synonym 's cache = "64 word \<Rightarrow> (bitset \<times> 's) list"
type_synonym longest = "(nat \<times> int list) option list"

fun cacheContains_loop :: "('s, 'v) Model \<Rightarrow> (bitset \<times> 's) list \<Rightarrow> bitset \<times> 's \<Rightarrow> bool option" where
  "cacheContains_loop model [] en = Some False"
| "cacheContains_loop model (elem # elems) en =
     (if bitset_equals (fst en) (fst elem)
      then do {
        eq \<leftarrow> Equal model;
        if eq (snd en) (snd elem) then Some True else cacheContains_loop model elems en
      }
      else cacheContains_loop model elems en)"

definition cacheContains :: "('s, 'v) Model \<Rightarrow> 's cache \<Rightarrow> bitset \<times> 's \<Rightarrow> bool option" where
  "cacheContains model cache en = cacheContains_loop model (cache (bitset_hash (fst en))) en"

record ('s, 'v) search =
  s_heap :: "'v heap"
  s_entry :: "nat option"
  s_linearized :: bitset
  s_cache :: "'s cache"
  s_calls :: "(nat \<times> 's) list"
  s_longest :: longest
  s_state :: 's
  s_iter :: nat

text \<open>The update of \<^verbatim>\<open>longest\<close> before backtracking; \<open>sq\<close> is the new slice.\<close>

fun longest_loop :: "'v heap \<Rightarrow> nat \<times> int list \<Rightarrow> (nat \<times> 's) list \<Rightarrow> longest \<Rightarrow> longest option" where
  "longest_loop h sq [] longest = Some longest"
| "longest_loop h sq (v # vs) longest = do {
     old \<leftarrow> slice_get longest (h_id h (fst v));
     longest' \<leftarrow> (if (case old of None \<Rightarrow> True | Some (_, l) \<Rightarrow> length (snd sq) > length l)
                 then slice_set longest (h_id h (fst v)) (Some sq) else Some longest);
     longest_loop h sq vs longest'
   }"

definition call_ids :: "'v heap \<Rightarrow> (nat \<times> 's) list \<Rightarrow> int list" where
  "call_ids h calls = map (\<lambda>v. h_id h (fst v)) calls"

datatype ('s, 'v) outcome = Again "('s, 'v) search" | Ret bool longest

definition push_call :: "nat \<Rightarrow> nat \<Rightarrow> bitset \<Rightarrow> 's \<Rightarrow> ('s, 'v) search \<Rightarrow> ('s, 'v) search option" where
  "push_call head e newLinearized newState cs = do {
     let hash = bitset_hash newLinearized;
     lin \<leftarrow> bitset_set (s_linearized cs) (uint_of (h_id (s_heap cs) e));
     h \<leftarrow> lift e (s_heap cs);
     Some (cs\<lparr>s_cache := (s_cache cs)(hash := s_cache cs hash @ [(newLinearized, newState)]),
              s_calls := s_calls cs @ [(e, s_state cs)], s_state := newState,
              s_linearized := lin, s_heap := h, s_entry := h_next h head\<rparr>)
   }"

definition pop_call :: "bool \<Rightarrow> ('s, 'v) search \<Rightarrow> ('s, 'v) search option" where
  "pop_call computePartial cs = do {
     let h = s_heap cs;
     longest \<leftarrow> (if computePartial
                then longest_loop h (s_iter cs, call_ids h (s_calls cs)) (s_calls cs) (s_longest cs)
                else Some (s_longest cs));
     let callsTop = last (s_calls cs);
     let e = fst callsTop;
     lin \<leftarrow> bitset_clear (s_linearized cs) (uint_of (h_id h e));
     h' \<leftarrow> unlift e h;
     Some (cs\<lparr>s_longest := longest, s_state := snd callsTop, s_linearized := lin,
              s_calls := butlast (s_calls cs), s_heap := h', s_entry := h_next h' e\<rparr>)
   }"

definition tick :: "('s, 'v) search \<Rightarrow> ('s, 'v) outcome" where
  "tick cs = Again (cs\<lparr>s_iter := s_iter cs + 1\<rparr>)"

definition check_step :: "('s, 'v) Model \<Rightarrow> bool \<Rightarrow> bool \<Rightarrow> nat \<Rightarrow> ('s, 'v) search \<Rightarrow> ('s, 'v) outcome option" where
  "check_step model computePartial killed head cs =
     (if killed then Some (Ret False (s_longest cs))
      else do {
        e \<leftarrow> s_entry cs;
        let h = s_heap cs;
        case h_match h e of
          Some matching \<Rightarrow> do {
            v \<leftarrow> h_value h e;
            w \<leftarrow> h_value h matching;
            (ok, newState) \<leftarrow> Step model (s_state cs) v w;
            if ok then do {
              newLinearized \<leftarrow> bitset_set (clone (s_linearized cs)) (uint_of (h_id h e));
              found \<leftarrow> cacheContains model (s_cache cs) (newLinearized, newState);
              if \<not> found then map_option tick (push_call head e newLinearized newState cs)
              else Some (tick (cs\<lparr>s_entry := h_next h e\<rparr>))
            }
            else Some (tick (cs\<lparr>s_entry := h_next h e\<rparr>))
          }
        | None \<Rightarrow>
            if s_calls cs = [] then Some (Ret False (s_longest cs))
            else map_option tick (pop_call computePartial cs)
      })"

partial_function (option) check_loop ::
  "('s, 'v) Model \<Rightarrow> bool \<Rightarrow> (nat \<Rightarrow> bool) \<Rightarrow> nat \<Rightarrow> ('s, 'v) search \<Rightarrow> (bool \<times> longest) option" where
  "check_loop model computePartial kill head cs =
     (if h_next (s_heap cs) head = None
      then (let sq = (s_iter cs, call_ids (s_heap cs) (s_calls cs))
            in Some (True, map (\<lambda>_. Some sq) (s_longest cs)))
      else do {
        r \<leftarrow> check_step model computePartial (kill (s_iter cs)) head cs;
        case r of Ret b l \<Rightarrow> Some (b, l) | Again cs' \<Rightarrow> check_loop model computePartial kill head cs'
      })"

definition start_search :: "('s, 'v) Model \<Rightarrow> 'v entry list \<Rightarrow> (nat \<times> ('s, 'v) search) option" where
  "start_search model history = do {
     let (en, h) = makeLinkedEntries history empty_heap;
     len \<leftarrow> node_length h en;
     let n = len div 2;
     let (headEntry, h1) = new_node None None (- 1) h;
     Some (headEntry, \<lparr>s_heap = insertBefore headEntry en h1, s_entry = en, s_linearized = newBitset n,
        s_cache = (\<lambda>_. []), s_calls = [], s_longest = replicate n None, s_state = Init model, s_iter = 0\<rparr>)
   }"

definition checkSingle ::
  "('s, 'v) Model \<Rightarrow> 'v entry list \<Rightarrow> bool \<Rightarrow> (nat \<Rightarrow> bool) \<Rightarrow> (bool \<times> longest) option" where
  "checkSingle model history computePartial kill = do {
     (headEntry, cs) \<leftarrow> start_search model history;
     check_loop model computePartial kill headEntry cs
   }"

subsection \<open>Histories by address\<close>

abbreviation ent :: "'v entry list \<Rightarrow> nat \<Rightarrow> 'v entry" where
  "ent es a \<equiv> rev es ! a"

lemma wf_ent_id: "wf_entries es \<Longrightarrow> a < length es \<Longrightarrow> 0 \<le> en_id (ent es a) \<and> en_id (ent es a) < int (length es div 2)"
  by (auto simp: wf_entries_def rev_nth)

lemma wf_ent_unique:
  assumes "wf_entries es" "a < length es" "b < length es" "en_id (ent es a) = en_id (ent es b)"
    "en_kind (ent es a) = en_kind (ent es b)"
  shows "a = b"
proof -
  have "length es - Suc a = length es - Suc b"
    using assms unfolding wf_entries_def by (auto simp: rev_nth)
  with assms(2,3) show ?thesis by simp
qed

lemma wf_ent_return:
  assumes "wf_entries es" "a < length es" "en_kind (ent es a) = callEntry"
  shows "\<exists>b < a. en_kind (ent es b) = returnEntry \<and> en_id (ent es b) = en_id (ent es a)"
proof -
  have "length es - Suc a < length es" using assms(2) by simp
  then obtain j where "length es - Suc a < j" "j < length es" "en_kind (es ! j) = returnEntry"
    "en_id (es ! j) = en_id (es ! (length es - Suc a))"
    using wf_entries_return [OF assms(1), of "length es - Suc a"] assms(2,3) by (auto simp: rev_nth)
  with assms(2) show ?thesis by (intro exI [of _ "length es - Suc j"]) (auto simp: rev_nth)
qed

lemma wf_one_return: "wf_entries es \<Longrightarrow> one_return (rev es)"
  unfolding one_return_def using wf_ent_unique by (metis length_rev)

definition remaining :: "'v entry list \<Rightarrow> nat set \<Rightarrow> nat list" where
  "remaining es S = filter (\<lambda>a. nat (en_id (ent es a)) \<notin> S) (rev [0..<length es])"

definition rest_of :: "'v entry list \<Rightarrow> nat set \<Rightarrow> 'v entry list" where
  "rest_of es S = filter (\<lambda>e. nat (en_id e) \<notin> S) es"

lemma map_ent_all: "map (ent es) (rev [0..<length es]) = es"
  by (rule nth_equalityI) (auto simp: rev_nth)

lemma map_ent_remaining: "map (ent es) (remaining es S) = rest_of es S"
proof -
  have "filter (\<lambda>e. nat (en_id e) \<notin> S) (map (ent es) (rev [0..<length es])) = map (ent es) (remaining es S)"
    by (simp only: remaining_def filter_map comp_def)
  then show ?thesis by (simp only: map_ent_all rest_of_def)
qed

lemma remaining_sorted: "sorted_wrt (>) (remaining es S)"
  unfolding remaining_def by (intro sorted_wrt_filter) (simp add: sorted_wrt_rev)

lemma remaining_distinct: "distinct (remaining es S)"
  by (simp add: remaining_def)

lemma remaining_iff: "a \<in> set (remaining es S) \<longleftrightarrow> a < length es \<and> nat (en_id (ent es a)) \<notin> S"
  by (auto simp: remaining_def)

text \<open>A call that remains has its return later in the list; without the two, the rest remains.\<close>

lemma remaining_split:
  assumes wf: "wf_entries es" and L: "remaining es S = X @ a # Y" and call: "en_kind (ent es a) = callEntry"
  shows "\<exists>B r C. Y = B @ r # C \<and> r < a \<and> en_kind (ent es r) = returnEntry \<and> en_id (ent es r) = en_id (ent es a)
     \<and> remaining es (insert (nat (en_id (ent es a))) S) = X @ B @ C"
proof -
  have a: "a < length es" "nat (en_id (ent es a)) \<notin> S"
    using remaining_iff [of a es S] L by simp_all
  obtain r where r: "r < a" "en_kind (ent es r) = returnEntry" "en_id (ent es r) = en_id (ent es a)"
    using wf_ent_return [OF wf a(1) call] by blast
  have srt: "sorted_wrt (>) (X @ a # Y)" using remaining_sorted [of es S] L by simp
  have "r \<in> set (X @ a # Y)" using remaining_iff [of r es S] L r a by simp
  then have "r \<in> set Y" using srt r(1) by (auto simp: sorted_wrt_append)
  then obtain B C where Y: "Y = B @ r # C" by (meson split_list)
  have keep: "nat (en_id (ent es b)) \<noteq> nat (en_id (ent es a))" if "b \<in> set (X @ B @ C)" for b
  proof
    assume same: "nat (en_id (ent es b)) = nat (en_id (ent es a))"
    have b: "b < length es" using remaining_iff [of b es S] L that Y by auto
    with same a have idb: "en_id (ent es b) = en_id (ent es a)" using wf_ent_id [OF wf] by (metis eq_nat_nat_iff)
    have "b = a \<or> b = r"
      using wf_ent_unique [OF wf b a(1) idb] wf_ent_unique [OF wf b _ trans [OF idb r(3) [symmetric]]] r a call
      by (cases "en_kind (ent es b)") auto
    moreover have "a \<notin> set (X @ B @ C)" "r \<notin> set (X @ B @ C)" using srt Y by (auto simp: sorted_wrt_append)
    ultimately show False using that by auto
  qed
  have "remaining es (insert (nat (en_id (ent es a))) S)
      = filter (\<lambda>b. nat (en_id (ent es b)) \<noteq> nat (en_id (ent es a))) (remaining es S)"
    by (auto simp: remaining_def intro: filter_cong)
  also have "\<dots> = X @ B @ C"
    unfolding L Y using keep r(3) by (auto simp: filter_id_conv)
  finally show ?thesis using Y r by blast
qed

subsection \<open>The search on lists of entries\<close>

text \<open>
  \<open>lin_path m s es ks\<close>: from state \<open>s\<close>, the operations \<open>ks\<close> can be taken one after the other, each at a
  moment when no return is left before its call, until no entry is left.
\<close>

fun lin_path :: "('s, 'v) Model \<Rightarrow> 's \<Rightarrow> 'v entry list \<Rightarrow> int list \<Rightarrow> bool" where
  "lin_path m s es [] \<longleftrightarrow> es = []"
| "lin_path m s es (k # ks) \<longleftrightarrow>
     (\<exists>A e B r C s'. es = A @ e # B @ r # C \<and> (\<forall>a \<in> set A. en_kind a = callEntry)
        \<and> en_kind e = callEntry \<and> en_kind r = returnEntry \<and> en_id e = k \<and> en_id r = k
        \<and> Step m s (en_value e) (en_value r) = Some (True, s') \<and> lin_path m s' (A @ B @ C) ks)"

definition can :: "('s, 'v) Model \<Rightarrow> 's \<Rightarrow> 'v entry list \<Rightarrow> bool" where
  "can m s es \<longleftrightarrow> (\<exists>ks. lin_path m s es ks)"

definition no_panic :: "('s, 'v) Model \<Rightarrow> 'v entry list \<Rightarrow> bool" where
  "no_panic m es \<longleftrightarrow> (\<forall>e \<in> set es. \<forall>r \<in> set es. en_kind e = callEntry \<longrightarrow> en_kind r = returnEntry \<longrightarrow> en_id e = en_id r
     \<longrightarrow> (\<forall>s. Step m s (en_value e) (en_value r) \<noteq> None))"

text \<open>The state of the search when the calls \<open>s_linearized\<close> are taken and \<open>L\<close> is the list after the head.\<close>

definition good :: "'v entry list \<Rightarrow> ('s, 'v) search \<Rightarrow> nat list \<Rightarrow> bool" where
  "good es cs L \<longleftrightarrow> dll (s_heap cs) (length es # L) \<and> (\<forall>a < length es. node_of (rev es) (s_heap cs) a)
     \<and> length es div 2 \<le> 64 * length (s_linearized cs) \<and> remaining es (bits_of (s_linearized cs)) = L
     \<and> length (s_longest cs) = length es div 2 \<and> (\<forall>v \<in> set (s_calls cs). fst v < length es)"

text \<open>Every cached configuration with fewer than \<open>k\<close> entries left has been searched without success.\<close>

definition in_cache :: "'s cache \<Rightarrow> bitset \<times> 's \<Rightarrow> bool" where
  "in_cache cache en \<longleftrightarrow> (\<exists>hash. en \<in> set (cache hash))"

definition hopeless :: "('s, 'v) Model \<Rightarrow> 'v entry list \<Rightarrow> bitset \<times> 's \<Rightarrow> bool" where
  "hopeless m es en \<longleftrightarrow> \<not> can m (snd en) (rest_of es (bits_of (fst en)))"

definition cache_ok :: "('s, 'v) Model \<Rightarrow> 'v entry list \<Rightarrow> nat \<Rightarrow> 's cache \<Rightarrow> bool" where
  "cache_ok m es k cache \<longleftrightarrow>
     (\<forall>en. in_cache cache en \<longrightarrow> length (rest_of es (bits_of (fst en))) < k \<longrightarrow> hopeless m es en)"

text \<open>No call among the nodes \<open>Y\<close> can be taken first.\<close>

definition no_first :: "('s, 'v) Model \<Rightarrow> 'v entry list \<Rightarrow> 's \<Rightarrow> nat list \<Rightarrow> nat list \<Rightarrow> bool" where
  "no_first m es s L Y \<longleftrightarrow>
     (\<forall>A e B r C s'. L = A @ e # B @ r # C \<longrightarrow> e \<in> set Y \<longrightarrow> (\<forall>a \<in> set A. en_kind (ent es a) = callEntry) \<longrightarrow>
        en_kind (ent es e) = callEntry \<longrightarrow> en_kind (ent es r) = returnEntry \<longrightarrow> en_id (ent es e) = en_id (ent es r) \<longrightarrow>
        Step m s (en_value (ent es e)) (en_value (ent es r)) = Some (True, s') \<longrightarrow> \<not> can m s' (map (ent es) (A @ B @ C)))"

lemma no_first_all:
  assumes "no_first m es s L L" and "L \<noteq> []"
  shows "\<not> can m s (map (ent es) L)"
proof
  assume "can m s (map (ent es) L)"
  then obtain ks where ks: "lin_path m s (map (ent es) L) ks" by (auto simp: can_def)
  with assms(2) obtain k ks' where "ks = k # ks'" by (cases ks) auto
  with ks obtain A e B r C s' where split: "map (ent es) L = A @ e # B @ r # C" "\<forall>a \<in> set A. en_kind a = callEntry"
      "en_kind e = callEntry" "en_kind r = returnEntry" "en_id e = en_id r"
      "Step m s (en_value e) (en_value r) = Some (True, s')" "lin_path m s' (A @ B @ C) ks'"
    by auto
  from split(1) obtain A' e' B' r' C' where "L = A' @ e' # B' @ r' # C'" "A = map (ent es) A'" "e = ent es e'"
      "B = map (ent es) B'" "r = ent es r'" "C = map (ent es) C'"
    by (auto simp: map_eq_append_conv map_eq_Cons_conv append_eq_map_conv Cons_eq_map_conv)
  with split(2-7) assms(1) show False by (auto simp: no_first_def can_def)
qed

lemma no_first_return:
  assumes "distinct L" and "L = X @ a # Y" and "en_kind (ent es a) = returnEntry"
  shows "no_first m es s L (a # Y)"
  unfolding no_first_def
proof (intro allI impI)
  fix A e B r C s'
  assume L: "L = A @ e # B @ r # C" and e: "e \<in> set (a # Y)" "en_kind (ent es e) = callEntry"
    and A: "\<forall>b \<in> set A. en_kind (ent es b) = callEntry"
  then have "e \<in> set Y" using assms(3) by auto
  then have "a \<in> set A"
    using L assms(1,2) earlier_in_prefix [of X a Y A e "B @ r # C"] by simp
  with A assms(3) show "\<not> can m s' (map (ent es) (A @ B @ C))" by auto
qed

subsection \<open>One iteration\<close>

lemma uint_of_small: "0 \<le> k \<Longrightarrow> k < int n \<Longrightarrow> n < 2 ^ 63 \<Longrightarrow> uint_of k = nat k"
  by (simp add: uint_of_def)

lemma good_next_head: "good es cs L \<Longrightarrow> h_next (s_heap cs) (length es) = (case L of [] \<Rightarrow> None | b # _ \<Rightarrow> Some b)"
  using dll_unique_next [of "s_heap cs" "[]" "length es" L] by (auto simp: good_def)

lemma good_nodes: "good es cs L \<Longrightarrow> a < length es \<Longrightarrow> node_of (rev es) (s_heap cs) a"
  by (simp add: good_def)

lemma good_member: "good es cs L \<Longrightarrow> a \<in> set L \<Longrightarrow> a < length es"
  by (auto simp: good_def remaining_iff)

lemma good_distinct: "good es cs L \<Longrightarrow> distinct L"
  by (simp add: good_def dll_def)

lemma good_match_return:
  assumes "good es cs L" and "a \<in> set L" and "en_kind (ent es a) = returnEntry"
  shows "h_match (s_heap cs) a = None"
  using good_nodes [OF assms(1) good_member [OF assms(1,2)]] assms(3)
  by (cases "h_match (s_heap cs) a") (simp_all add: node_of_def)

lemma good_fields:
  assumes "good es cs L" and "s_heap cs' = s_heap cs" and "s_linearized cs' = s_linearized cs"
    and "length (s_longest cs') = length (s_longest cs)" and "s_calls cs' = s_calls cs"
  shows "good es cs' L"
  using assms by (simp add: good_def)

text \<open>What an iteration finds at a call.\<close>

definition at_call :: "'v entry list \<Rightarrow> ('s, 'v) search \<Rightarrow> nat list \<Rightarrow> nat \<Rightarrow> nat list \<Rightarrow> nat \<Rightarrow> nat list \<Rightarrow> bool" where
  "at_call es cs X a B r C \<longleftrightarrow> good es cs (X @ a # B @ r # C) \<and> s_entry cs = Some a
     \<and> en_kind (ent es a) = callEntry \<and> en_kind (ent es r) = returnEntry \<and> en_id (ent es r) = en_id (ent es a)
     \<and> a < length es \<and> r < a \<and> h_match (s_heap cs) a = Some r
     \<and> remaining es (insert (nat (en_id (ent es a))) (bits_of (s_linearized cs))) = X @ B @ C"

lemma at_call_ex:
  assumes "wf_entries es" and g: "good es cs (X @ a # Y)" and "s_entry cs = Some a" and call: "en_kind (ent es a) = callEntry"
  shows "\<exists>B r C. Y = B @ r # C \<and> at_call es cs X a B r C"
proof -
  have L: "remaining es (bits_of (s_linearized cs)) = X @ a # Y" using g by (simp add: good_def)
  obtain B r C where r: "Y = B @ r # C" "r < a" "en_kind (ent es r) = returnEntry" "en_id (ent es r) = en_id (ent es a)"
    "remaining es (insert (nat (en_id (ent es a))) (bits_of (s_linearized cs))) = X @ B @ C"
    using remaining_split [OF assms(1) L call] by blast
  have a: "a < length es" using good_member [OF g] by simp
  have "h_match (s_heap cs) a = Some r"
    using good_nodes [OF g a] r call unfolding node_of_def by simp
  with r a assms(2,3) call show ?thesis by (auto simp: at_call_def)
qed

lemma at_call_values:
  assumes "at_call es cs X a B r C"
  shows "h_value (s_heap cs) a = Some (en_value (ent es a))" "h_value (s_heap cs) r = Some (en_value (ent es r))"
    "h_id (s_heap cs) a = en_id (ent es a)" "h_next (s_heap cs) a = Some (hd (B @ r # C))"
proof -
  have g: "good es cs (X @ a # B @ r # C)" and lt: "a < length es" "r < length es"
    using assms by (auto simp: at_call_def)
  show "h_value (s_heap cs) a = Some (en_value (ent es a))" "h_id (s_heap cs) a = en_id (ent es a)"
    using good_nodes [OF g lt(1)] by (simp_all add: node_of_def)
  show "h_value (s_heap cs) r = Some (en_value (ent es r))"
    using good_nodes [OF g lt(2)] by (simp add: node_of_def)
  show "h_next (s_heap cs) a = Some (hd (B @ r # C))"
    using g dll_unique_next [of "s_heap cs" "length es # X" a "B @ r # C"]
    by (cases "B @ r # C") (simp_all add: good_def)
qed

text \<open>Setting the bit of a call, in the copy for the cache and in place.\<close>

lemma at_call_bit:
  assumes "wf_entries es" and "length es < 2 ^ 63" and "at_call es cs X a B r C"
  shows "\<exists>lin. bitset_set (s_linearized cs) (uint_of (h_id (s_heap cs) a)) = Some lin \<and> length lin = length (s_linearized cs)
     \<and> bits_of lin = insert (nat (en_id (ent es a))) (bits_of (s_linearized cs))
     \<and> bitset_clear lin (uint_of (h_id (s_heap cs) a)) = Some (s_linearized cs)"
proof -
  have a: "a < length es" and cap: "length es div 2 \<le> 64 * length (s_linearized cs)"
    and fresh: "a \<in> set (remaining es (bits_of (s_linearized cs)))"
    using assms(3) by (auto simp: at_call_def good_def)
  let ?p = "nat (en_id (ent es a))"
  have u: "uint_of (h_id (s_heap cs) a) = ?p" and p: "?p < 64 * length (s_linearized cs)"
    using wf_ent_id [OF assms(1) a] cap assms(2) at_call_values(3) [OF assms(3)]
      uint_of_small [of "en_id (ent es a)" "length es div 2"] by auto
  obtain lin where lin: "bitset_set (s_linearized cs) ?p = Some lin" "length lin = length (s_linearized cs)"
    "bits_of lin = insert ?p (bits_of (s_linearized cs))" using bitset_set_spec [OF p] by blast
  obtain lin' where lin': "bitset_clear lin ?p = Some lin'" "length lin' = length lin" "bits_of lin' = bits_of lin - {?p}"
    using bitset_clear_spec [of ?p lin] p lin(2) by auto
  have "lin' = s_linearized cs"
    using lin lin' fresh by (intro bits_of_inj) (auto simp: remaining_iff)
  with lin lin' u show ?thesis by auto
qed

lemma check_loop_iteration:
  assumes "good es cs L" and "L \<noteq> []"
  shows "check_loop m cp kill (length es) cs = do {
     r \<leftarrow> check_step m cp (kill (s_iter cs)) (length es) cs;
     case r of Ret b l \<Rightarrow> Some (b, l) | Again cs' \<Rightarrow> check_loop m cp kill (length es) cs' }"
  using good_next_head [OF assms(1)] assms(2) check_loop.simps [of m cp kill "length es" cs]
  by (simp split: list.splits)

lemma check_loop_killed:
  "good es cs L \<Longrightarrow> L \<noteq> [] \<Longrightarrow> kill (s_iter cs) \<Longrightarrow> check_loop m cp kill (length es) cs = Some (False, s_longest cs)"
  by (simp add: check_loop_iteration check_step_def)

lemma check_loop_end:
  assumes "good es cs []"
  shows "check_loop m cp kill (length es) cs
     = Some (True, replicate (length es div 2) (Some (s_iter cs, call_ids (s_heap cs) (s_calls cs))))"
proof -
  have "length (s_longest cs) = length es div 2" using assms by (simp add: good_def)
  with good_next_head [OF assms] show ?thesis
    by (simp add: check_loop.simps [of m cp kill "length es" cs] Let_def map_replicate_const)
qed

lemma longest_loop_total:
  assumes "\<forall>v \<in> set vs. 0 \<le> h_id h (fst v) \<and> h_id h (fst v) < int (length lg)"
  shows "\<exists>lg'. longest_loop h sq vs lg = Some lg' \<and> length lg' = length lg"
  using assms
proof (induction vs arbitrary: lg)
  case (Cons v vs)
  then have v: "0 \<le> h_id h (fst v)" "h_id h (fst v) < int (length lg)" by auto
  have IH: "\<exists>lg''. longest_loop h sq vs lg' = Some lg'' \<and> length lg'' = length lg" if "length lg' = length lg" for lg'
    using Cons.IH [of lg'] Cons.prems that by simp
  show ?case using v IH by (auto simp: slice_get_def slice_set_def)
qed simp

lemma good_call_ids:
  assumes "wf_entries es" and "good es cs L" and "v \<in> set (s_calls cs)"
  shows "0 \<le> h_id (s_heap cs) (fst v) \<and> h_id (s_heap cs) (fst v) < int (length (s_longest cs))"
proof -
  have "fst v < length es" and "length (s_longest cs) = length es div 2" using assms(2,3) by (auto simp: good_def)
  with good_nodes [OF assms(2), of "fst v"] wf_ent_id [OF assms(1), of "fst v"] show ?thesis by (simp add: node_of_def)
qed

lemma check_loop_skip:
  assumes c: "at_call es cs X a B r C" and "\<not> kill (s_iter cs)"
    and st: "Step m (s_state cs) (en_value (ent es a)) (en_value (ent es r)) = Some (ok, s')"
    and cached: "ok \<Longrightarrow> bitset_set (s_linearized cs) (uint_of (h_id (s_heap cs) a)) = Some lin
                 \<and> cacheContains m (s_cache cs) (lin, s') = Some True"
  shows "check_loop m cp kill (length es) cs
     = check_loop m cp kill (length es) (cs\<lparr>s_entry := Some (hd (B @ r # C)), s_iter := s_iter cs + 1\<rparr>)"
proof -
  have g: "good es cs (X @ a # B @ r # C)" and e: "s_entry cs = Some a" "h_match (s_heap cs) a = Some r"
    using c by (simp_all add: at_call_def)
  show ?thesis
    using assms(2) e st cached at_call_values [OF c]
    by (cases ok) (simp_all add: check_loop_iteration [OF g] check_step_def tick_def Let_def)
qed

lemma check_loop_push:
  assumes c: "at_call es cs X a B r C" and "\<not> kill (s_iter cs)"
    and st: "Step m (s_state cs) (en_value (ent es a)) (en_value (ent es r)) = Some (True, s')"
    and lin: "bitset_set (s_linearized cs) (uint_of (h_id (s_heap cs) a)) = Some lin" "length lin = length (s_linearized cs)"
      "bits_of lin = insert (nat (en_id (ent es a))) (bits_of (s_linearized cs))"
    and fresh: "cacheContains m (s_cache cs) (lin, s') = Some False"
  shows "\<exists>h' cs'. unlift a h' = Some (s_heap cs) \<and> h_id h' = h_id (s_heap cs)
     \<and> check_loop m cp kill (length es) cs = check_loop m cp kill (length es) cs' \<and> good es cs' (X @ B @ C)
     \<and> s_heap cs' = h' \<and> s_linearized cs' = lin \<and> s_calls cs' = s_calls cs @ [(a, s_state cs)] \<and> s_state cs' = s'
     \<and> s_entry cs' = h_next h' (length es)
     \<and> (\<forall>en. in_cache (s_cache cs') en \<longleftrightarrow> in_cache (s_cache cs) en \<or> en = (lin, s'))"
proof -
  have g: "good es cs (X @ a # B @ r # C)" and e: "s_entry cs = Some a" "h_match (s_heap cs) a = Some r"
    and a: "a < length es" and rem: "remaining es (bits_of lin) = X @ B @ C"
    using c lin(3) by (simp_all add: at_call_def)
  have d: "dll (s_heap cs) ((length es # X) @ a # B @ r # C)" using g by (simp add: good_def)
  obtain h' where h': "lift a (s_heap cs) = Some h'" "dll h' ((length es # X) @ B @ C)" "h_value h' = h_value (s_heap cs)"
    "h_match h' = h_match (s_heap cs)" "h_id h' = h_id (s_heap cs)" "unlift a h' = Some (s_heap cs)"
    using lift_dll [OF d _ e(2)] by blast
  define cs' where "cs' = cs\<lparr>s_cache := (s_cache cs)(bitset_hash lin := s_cache cs (bitset_hash lin) @ [(lin, s')]),
      s_calls := s_calls cs @ [(a, s_state cs)], s_state := s', s_linearized := lin, s_heap := h',
      s_entry := h_next h' (length es), s_iter := s_iter cs + 1\<rparr>"
  have "check_loop m cp kill (length es) cs = check_loop m cp kill (length es) cs'"
    using assms(2) e st fresh lin(1) h'(1) at_call_values [OF c]
    by (simp add: check_loop_iteration [OF g] check_step_def tick_def push_call_def Let_def cs'_def)
  moreover have "good es cs' (X @ B @ C)"
    using g h' lin(2) rem a node_of_cong [of h' _ "s_heap cs" "rev es"] by (auto simp: good_def cs'_def)
  moreover have "in_cache (s_cache cs') en \<longleftrightarrow> in_cache (s_cache cs) en \<or> en = (lin, s')" for en
    by (auto simp: in_cache_def cs'_def) metis
  ultimately show ?thesis using h'(5,6) by (intro exI [of _ h'] exI [of _ cs']) (simp add: cs'_def)
qed

lemma check_loop_pop:
  assumes wf: "wf_entries es" and g: "good es cs L" and "L \<noteq> []" and "\<not> kill (s_iter cs)"
    and "s_entry cs = Some b" and "h_match (s_heap cs) b = None"
    and calls: "s_calls cs = calls @ [(a, s)]"
    and "bitset_clear (s_linearized cs) (uint_of (h_id (s_heap cs) a)) = Some lin" and "unlift a (s_heap cs) = Some h"
  shows "\<exists>cs'. check_loop m cp kill (length es) cs = check_loop m cp kill (length es) cs' \<and> s_heap cs' = h
     \<and> s_linearized cs' = lin \<and> s_calls cs' = calls \<and> s_state cs' = s \<and> s_entry cs' = h_next h a
     \<and> s_cache cs' = s_cache cs \<and> length (s_longest cs') = length (s_longest cs)"
proof -
  have "\<forall>v \<in> set (s_calls cs). 0 \<le> h_id (s_heap cs) (fst v) \<and> h_id (s_heap cs) (fst v) < int (length (s_longest cs))"
    using good_call_ids [OF wf g] by blast
  note total = longest_loop_total [OF this]
  obtain lg where lg: "(if cp then longest_loop (s_heap cs) (s_iter cs, call_ids (s_heap cs) (s_calls cs)) (s_calls cs) (s_longest cs)
      else Some (s_longest cs)) = Some lg" "length lg = length (s_longest cs)"
    using total by (cases cp) auto
  define cs' where "cs' = cs\<lparr>s_longest := lg, s_state := s, s_linearized := lin, s_calls := calls, s_heap := h,
     s_entry := h_next h a, s_iter := s_iter cs + 1\<rparr>"
  have "pop_call cp cs = Some (cs'\<lparr>s_iter := s_iter cs\<rparr>)"
    using lg(1) assms(8,9) calls by (simp add: pop_call_def Let_def cs'_def)
  then have "check_loop m cp kill (length es) cs = check_loop m cp kill (length es) cs'"
    using assms(4-6) calls by (simp add: check_loop_iteration [OF g assms(3)] check_step_def tick_def cs'_def)
  with lg(2) show ?thesis by (intro exI [of _ cs']) (simp add: cs'_def)
qed

lemma cacheContains_lawful:
  assumes "Equal m = Some eq"
  shows "\<exists>b. cacheContains m cache en = Some b \<and>
     (b \<longrightarrow> (\<exists>elem. in_cache cache elem \<and> fst elem = fst en \<and> eq (snd en) (snd elem)))"
proof -
  have "cacheContains_loop m xs en = Some (list_ex (\<lambda>elem. fst en = fst elem \<and> eq (snd en) (snd elem)) xs)" for xs
    using assms by (induction xs) (auto simp: bitset_equals_iff)
  then show ?thesis by (auto simp: cacheContains_def in_cache_def list_ex_iff) blast
qed

subsection \<open>The search of a configuration\<close>

text \<open>
  The search from a state of the loop ends with the kill flag read as set, ends with a linearization, or
  comes back to the same configuration with the calls \<open>Y\<close> tried and \<^verbatim>\<open>entry\<close> at a return.
\<close>

definition explored ::
  "('s, 'v) Model \<Rightarrow> 'v entry list \<Rightarrow> bool \<Rightarrow> (nat \<Rightarrow> bool) \<Rightarrow> ('s, 'v) search \<Rightarrow> nat list \<Rightarrow> nat list \<Rightarrow> bool" where
  "explored m es cp kill cs L Y \<longleftrightarrow>
     (\<exists>l i. check_loop m cp kill (length es) cs = Some (False, l) \<and> kill i)
   \<or> (\<exists>p ks. check_loop m cp kill (length es) cs
        = Some (True, replicate (length es div 2) (Some (p, call_ids (s_heap cs) (s_calls cs) @ ks)))
        \<and> lin_path m (s_state cs) (map (ent es) L) ks)
   \<or> (\<exists>cs' b. check_loop m cp kill (length es) cs = check_loop m cp kill (length es) cs' \<and> good es cs' L
        \<and> s_heap cs' = s_heap cs \<and> s_linearized cs' = s_linearized cs \<and> s_calls cs' = s_calls cs \<and> s_state cs' = s_state cs
        \<and> s_entry cs' = Some b \<and> h_match (s_heap cs') b = None
        \<and> (\<forall>en. in_cache (s_cache cs') en \<longrightarrow> in_cache (s_cache cs) en \<or> hopeless m es en)
        \<and> no_first m es (s_state cs) L Y)"

lemma no_first_Cons: "no_first m es s L [a] \<Longrightarrow> no_first m es s L Y \<Longrightarrow> no_first m es s L (a # Y)"
  unfolding no_first_def by (metis list.set_intros(1) set_ConsD)

lemma explored_next:
  assumes "explored m es cp kill cs1 L Y"
    and "check_loop m cp kill (length es) cs = check_loop m cp kill (length es) cs1"
    and "s_heap cs1 = s_heap cs" "s_linearized cs1 = s_linearized cs" "s_calls cs1 = s_calls cs" "s_state cs1 = s_state cs"
    and "\<And>en. in_cache (s_cache cs1) en \<Longrightarrow> in_cache (s_cache cs) en \<or> hopeless m es en"
    and "no_first m es (s_state cs) L [a]"
  shows "explored m es cp kill cs L (a # Y)"
  using assms(1) unfolding explored_def assms(2-6)
  using assms(7) no_first_Cons [OF assms(8)] by (elim disjE) (blast, blast, metis)

lemma at_call_first:
  assumes wf: "wf_entries es" and c: "at_call es cs X a B r C"
    and st: "Step m (s_state cs) (en_value (ent es a)) (en_value (ent es r)) = Some (ok, s')"
    and fails: "ok \<Longrightarrow> \<not> can m s' (map (ent es) (X @ B @ C))"
  shows "no_first m es (s_state cs) (X @ a # B @ r # C) [a]"
  unfolding no_first_def
proof (intro allI impI)
  fix A e B' r' C' t
  assume L: "X @ a # B @ r # C = A @ e # B' @ r' # C'" and e: "e \<in> set [a]" and rr: "en_kind (ent es r') = returnEntry"
    "en_id (ent es e) = en_id (ent es r')"
    and t: "Step m (s_state cs) (en_value (ent es e)) (en_value (ent es r')) = Some (True, t)"
  have g: "good es cs (X @ a # B @ r # C)" and d: "distinct (X @ a # B @ r # C)"
    using c good_distinct unfolding at_call_def by blast+
  have a: "e = a" using e by simp
  have XA: "A = X" and BC: "B' @ r' # C' = B @ r # C"
    using L d unfolding a by (auto simp: append_eq_append_conv2 append_eq_Cons_conv Cons_eq_append_conv)
  have "r \<in> set (X @ a # B @ r # C)" "r' \<in> set (X @ a # B' @ r' # C')" by simp_all
  then have "r' < length es" "r < length es" unfolding BC by (simp_all only: good_member [OF g])
  moreover have "en_kind (ent es r) = returnEntry" "en_id (ent es r) = en_id (ent es a)" using c by (simp_all add: at_call_def)
  ultimately have "r' = r" using wf_ent_unique [OF wf] rr a by simp
  with BC d have "B' = B" "C' = C"
    by (auto simp: append_eq_append_conv2 append_eq_Cons_conv Cons_eq_append_conv)
  with XA a \<open>r' = r\<close> st t fails show "\<not> can m t (map (ent es) (A @ B' @ C'))" by simp
qed

text \<open>Trying one call: afterwards it is known not to come first, or the search is over.\<close>

definition tried ::
  "('s, 'v) Model \<Rightarrow> 'v entry list \<Rightarrow> bool \<Rightarrow> (nat \<Rightarrow> bool) \<Rightarrow> ('s, 'v) search \<Rightarrow> nat list \<Rightarrow> nat \<Rightarrow> nat list \<Rightarrow> bool" where
  "tried m es cp kill cs X a Y \<longleftrightarrow>
     explored m es cp kill cs (X @ a # Y) (a # Y)
   \<or> (\<exists>cs1. check_loop m cp kill (length es) cs = check_loop m cp kill (length es) cs1 \<and> good es cs1 (X @ a # Y)
        \<and> s_heap cs1 = s_heap cs \<and> s_linearized cs1 = s_linearized cs \<and> s_calls cs1 = s_calls cs \<and> s_state cs1 = s_state cs
        \<and> s_entry cs1 = Some (hd Y)
        \<and> (\<forall>en. in_cache (s_cache cs1) en \<longrightarrow> in_cache (s_cache cs) en \<or> hopeless m es en)
        \<and> no_first m es (s_state cs) (X @ a # Y) [a])"

lemma cache_ok_extend:
  "cache_ok m es k c \<Longrightarrow> (\<And>en. in_cache c' en \<Longrightarrow> in_cache c en \<or> hopeless m es en) \<Longrightarrow> cache_ok m es k c'"
  unfolding cache_ok_def by blast

lemma at_call_rest:
  assumes "at_call es cs X a B r C" and "bits_of lin = insert (nat (en_id (ent es a))) (bits_of (s_linearized cs))"
  shows "rest_of es (bits_of lin) = map (ent es) (X @ B @ C)"
  using assms map_ent_remaining [of es "bits_of lin"] by (simp add: at_call_def)

text \<open>The state in which the loop starts.\<close>

lemma start_search_good:
  assumes "wf_entries es"
  shows "\<exists>cs. start_search m es = Some (length es, cs) \<and> good es cs (rev [0..<length es]) \<and> s_calls cs = []
     \<and> s_cache cs = (\<lambda>_. []) \<and> s_state cs = Init m \<and> s_entry cs = (if es = [] then None else Some (length es - 1))"
proof -
  obtain root h where l: "makeLinkedEntries es empty_heap = (root, h)" and ch: "chain h root (length es)"
    and nodes: "\<forall>j < length es. node_of (rev es) h j"
    using makeLinkedEntries_chain [OF wf_one_return [OF assms]] by blast
  obtain hd h1 where new: "new_node None None (- 1) h = (hd, h1)" by fastforce
  note ins = insert_chain [OF ch new]
  let ?h = "insertBefore hd root h1" and ?n = "length es div 2"
  define cs where "cs = \<lparr>s_heap = ?h, s_entry = root, s_linearized = newBitset ?n, s_cache = (\<lambda>_. []), s_calls = [],
     s_longest = replicate ?n None, s_state = Init m, s_iter = 0\<rparr>"
  have "start_search m es = Some (length es, cs)"
    using l node_length_chain [OF ch] new ins(1) by (simp add: start_search_def cs_def Let_def)
  moreover have "node_of (rev es) ?h j" if "j < length es" for j
    using nodes that node_of_cong [of ?h j h "rev es"] by (simp add: ins(3-5))
  moreover have "dll ?h (length es # rev [0..<length es])"
    using ins(2) by (auto simp: chain_def dll_def last_rev)
  moreover have "remaining es (bits_of (newBitset ?n)) = rev [0..<length es]"
    by (simp add: remaining_def bits_of_newBitset)
  moreover have "?n \<le> 64 * length (newBitset ?n)" using length_newBitset [of ?n] by blast
  ultimately show ?thesis using ch by (intro exI [of _ cs]) (simp add: cs_def good_def chain_def)
qed

context lawful_model
begin

lemma lin_path_eq: "eq s t \<Longrightarrow> lin_path m s es ks \<Longrightarrow> lin_path m t es ks"
proof (induction ks arbitrary: s t es)
  case (Cons k ks)
  then obtain A e B r C s' where split: "es = A @ e # B @ r # C" "\<forall>a \<in> set A. en_kind a = callEntry"
      "en_kind e = callEntry" "en_kind r = returnEntry" "en_id e = k" "en_id r = k"
      "Step m s (en_value e) (en_value r) = Some (True, s')" "lin_path m s' (A @ B @ C) ks"
    by auto
  obtain t' where "Step m t (en_value e) (en_value r) = Some (True, t')" "eq s' t'"
    using eq_step [OF Cons.prems(1) split(7)] by blast
  with split Cons.IH show ?case by fastforce
qed simp

text \<open>A configuration found in the cache need not be searched again.\<close>

lemma cached_hopeless:
  assumes "cacheContains m cache en = Some True" and "cache_ok m es k cache" and "length (rest_of es (bits_of (fst en))) < k"
  shows "hopeless m es en"
proof -
  obtain elem where "in_cache cache elem" "fst elem = fst en" "eq (snd en) (snd elem)"
    using cacheContains_lawful [OF Equal_is, of cache en] assms(1) by auto
  moreover from this have "hopeless m es elem" using assms(2,3) unfolding cache_ok_def by metis
  ultimately show ?thesis using lin_path_eq unfolding hopeless_def can_def by metis
qed

lemma try_push:
  assumes wf: "wf_entries es" and X: "\<forall>x \<in> set X. en_kind (ent es x) = callEntry" and alive: "\<not> kill (s_iter cs)"
    and c: "at_call es cs X a B r C" and ok: "cache_ok m es (length (X @ a # B @ r # C)) (s_cache cs)"
    and child: "\<And>cs' L'. length L' < length (X @ a # B @ r # C) \<Longrightarrow> good es cs' L' \<Longrightarrow> L' \<noteq> [] \<Longrightarrow> s_entry cs' = Some (hd L')
      \<Longrightarrow> cache_ok m es (length L') (s_cache cs') \<Longrightarrow> explored m es cp kill cs' L' L'"
    and st: "Step m (s_state cs) (en_value (ent es a)) (en_value (ent es r)) = Some (True, s')"
    and lin: "bitset_set (s_linearized cs) (uint_of (h_id (s_heap cs) a)) = Some lin"
      "length lin = length (s_linearized cs)" "bits_of lin = insert (nat (en_id (ent es a))) (bits_of (s_linearized cs))"
      "bitset_clear lin (uint_of (h_id (s_heap cs) a)) = Some (s_linearized cs)"
    and fresh: "cacheContains m (s_cache cs) (lin, s') = Some False"
  shows "tried m es cp kill cs X a (B @ r # C)"
proof -
  let ?run = "check_loop m cp kill (length es)" and ?L = "X @ B @ C"
  have g: "good es cs (X @ a # B @ r # C)" using c by (simp add: at_call_def)
  obtain h' cs' where p: "unlift a h' = Some (s_heap cs)" "h_id h' = h_id (s_heap cs)" "?run cs = ?run cs'" "good es cs' ?L"
    "s_heap cs' = h'" "s_linearized cs' = lin" "s_calls cs' = s_calls cs @ [(a, s_state cs)]" "s_state cs' = s'"
    "s_entry cs' = h_next h' (length es)"
    and cache': "\<And>en. in_cache (s_cache cs') en \<longleftrightarrow> in_cache (s_cache cs) en \<or> en = (lin, s')"
    using check_loop_push [where kill = kill, OF c alive st lin(1-3) fresh, of cp] by blast
  note rest = at_call_rest [OF c lin(3)]
  have ids: "call_ids h' (s_calls cs') = call_ids (s_heap cs) (s_calls cs) @ [en_id (ent es a)]"
    using at_call_values(3) [OF c] p(2,7) by (simp add: call_ids_def)
  have step: "lin_path m (s_state cs) (map (ent es) (X @ a # B @ r # C)) (en_id (ent es a) # ks)"
    if "lin_path m s' (map (ent es) ?L) ks" for ks
    using that X c st unfolding lin_path.simps at_call_def
    by (intro exI [of _ "map (ent es) X"] exI [of _ "ent es a"] exI [of _ "map (ent es) B"] exI [of _ "ent es r"]
        exI [of _ "map (ent es) C"] exI [of _ s']) auto
  have found: "tried m es cp kill cs X a (B @ r # C)"
    if "?run cs = Some (True, replicate (length es div 2) (Some (q, call_ids h' (s_calls cs') @ ks)))"
      and "lin_path m s' (map (ent es) ?L) ks" for q ks
    using that(1) step [OF that(2)] ids unfolding tried_def explored_def by fastforce
  have killed: "tried m es cp kill cs X a (B @ r # C)" if "?run cs = Some (False, l)" "kill i" for l i
    using that unfolding tried_def explored_def by blast
  show ?thesis
  proof (cases "?L = []")
    case True
    then show ?thesis using found [of "s_iter cs'" "[]"] check_loop_end [of es cs' m cp kill] p(3-5) by simp
  next
    case False
    have "s_entry cs' = Some (hd ?L)" using good_next_head [OF p(4)] False p(5,9) by (simp split: list.splits)
    moreover have "cache_ok m es (length ?L) (s_cache cs')"
      using ok rest unfolding cache_ok_def cache' by auto
    ultimately have "explored m es cp kill cs' ?L ?L" using child [OF _ p(4) False] by simp
    then show ?thesis unfolding explored_def [of m es cp kill cs']
    proof (elim disjE exE conjE)
      fix l i assume "?run cs' = Some (False, l)" "kill i"
      then show ?thesis using killed p(3) by simp
    next
      fix q ks assume "?run cs' = Some (True, replicate (length es div 2) (Some (q, call_ids (s_heap cs') (s_calls cs') @ ks)))"
        "lin_path m (s_state cs') (map (ent es) ?L) ks"
      then show ?thesis using found [of q ks] p by simp
    next
      fix cs2 b
      assume r2: "?run cs' = ?run cs2" and g2: "good es cs2 ?L"
        and same: "s_heap cs2 = s_heap cs'" "s_linearized cs2 = s_linearized cs'" "s_calls cs2 = s_calls cs'"
        and b: "s_entry cs2 = Some b" "h_match (s_heap cs2) b = None"
        and cache2: "\<forall>en. in_cache (s_cache cs2) en \<longrightarrow> in_cache (s_cache cs') en \<or> hopeless m es en"
        and nf: "no_first m es (s_state cs') ?L ?L"
      have bad: "\<not> can m s' (map (ent es) ?L)" using no_first_all [OF nf False] p(8) by simp
      show ?thesis
      proof (cases "kill (s_iter cs2)")
        case True
        then show ?thesis using killed check_loop_killed [where kill = kill, OF g2 False True, of m cp] p(3) r2 by simp
      next
        case alive2: False
        obtain cs3 where r3: "?run cs2 = ?run cs3" and s3: "s_heap cs3 = s_heap cs" "s_linearized cs3 = s_linearized cs"
          "s_calls cs3 = s_calls cs" "s_state cs3 = s_state cs" "s_entry cs3 = h_next (s_heap cs) a"
          "s_cache cs3 = s_cache cs2" "length (s_longest cs3) = length (s_longest cs2)"
          using check_loop_pop [where kill = kill, OF wf g2 False alive2 b, of "s_calls cs" a "s_state cs" "s_linearized cs" "s_heap cs" m cp] p same lin(4)
          by auto
        have "good es cs3 (X @ a # B @ r # C)"
          using g g2 s3 by (intro good_fields [OF g]) (simp_all add: good_def)
        moreover have "in_cache (s_cache cs) en \<or> hopeless m es en" if "in_cache (s_cache cs3) en" for en
          using that cache2 s3(6) bad rest unfolding cache' hopeless_def by (metis fst_conv snd_conv)
        moreover have "no_first m es (s_state cs) (X @ a # B @ r # C) [a]"
          by (rule at_call_first [OF wf c st]) (rule bad)
        moreover have "?run cs = ?run cs3" using p(3) r2 r3 by simp
        ultimately show ?thesis using s3 at_call_values(4) [OF c] unfolding tried_def by metis
      qed
    qed
  qed
qed

lemma try_call:
  assumes wf: "wf_entries es" and small: "length es < 2 ^ 63" and np: "no_panic m es"
    and X: "\<forall>x \<in> set X. en_kind (ent es x) = callEntry"
    and c: "at_call es cs X a B r C" and ok: "cache_ok m es (length (X @ a # B @ r # C)) (s_cache cs)"
    and child: "\<And>cs' L'. length L' < length (X @ a # B @ r # C) \<Longrightarrow> good es cs' L' \<Longrightarrow> L' \<noteq> [] \<Longrightarrow> s_entry cs' = Some (hd L')
      \<Longrightarrow> cache_ok m es (length L') (s_cache cs') \<Longrightarrow> explored m es cp kill cs' L' L'"
  shows "tried m es cp kill cs X a (B @ r # C)"
proof (cases "kill (s_iter cs)")
  case True
  have g: "good es cs (X @ a # B @ r # C)" using c by (simp add: at_call_def)
  then show ?thesis using check_loop_killed [of es cs "X @ a # B @ r # C" kill m cp] True by (auto simp: tried_def explored_def)
next
  case alive: False
  have g: "good es cs (X @ a # B @ r # C)" and lt: "a < length es" "r < length es"
    and kinds: "en_kind (ent es a) = callEntry" "en_kind (ent es r) = returnEntry" "en_id (ent es r) = en_id (ent es a)"
    using c by (auto simp: at_call_def)
  have "ent es a \<in> set es" "ent es r \<in> set es" using lt by (metis length_rev nth_mem set_rev)+
  then obtain acc s' where st: "Step m (s_state cs) (en_value (ent es a)) (en_value (ent es r)) = Some (acc, s')"
    using np kinds unfolding no_panic_def by (metis not_None_eq surj_pair)
  obtain lin where lin: "bitset_set (s_linearized cs) (uint_of (h_id (s_heap cs) a)) = Some lin"
    "length lin = length (s_linearized cs)" "bits_of lin = insert (nat (en_id (ent es a))) (bits_of (s_linearized cs))"
    "bitset_clear lin (uint_of (h_id (s_heap cs) a)) = Some (s_linearized cs)"
    using at_call_bit [OF wf small c] by blast
  note rest = at_call_rest [OF c lin(3)]
  obtain found where found: "cacheContains m (s_cache cs) (lin, s') = Some found"
    using cacheContains_lawful [OF Equal_is] by blast
  show ?thesis
  proof (cases "acc \<and> \<not> found")
    case False
    have "\<not> can m s' (map (ent es) (X @ B @ C))" if acc
      using cached_hopeless [of "s_cache cs" "(lin, s')", OF _ ok] False that found rest by (simp add: hopeless_def)
    then have nf: "no_first m es (s_state cs) (X @ a # B @ r # C) [a]" by (rule at_call_first [OF wf c st])
    have "check_loop m cp kill (length es) cs
        = check_loop m cp kill (length es) (cs\<lparr>s_entry := Some (hd (B @ r # C)), s_iter := s_iter cs + 1\<rparr>)"
      using False found lin(1) by (intro check_loop_skip [where kill = kill, OF c alive st]) auto
    moreover have "good es (cs\<lparr>s_entry := Some (hd (B @ r # C)), s_iter := s_iter cs + 1\<rparr>) (X @ a # B @ r # C)"
      by (rule good_fields [OF g]) simp_all
    ultimately show ?thesis using nf unfolding tried_def by fastforce
  next
    case True
    then have st': "Step m (s_state cs) (en_value (ent es a)) (en_value (ent es r)) = Some (True, s')"
      and fresh: "cacheContains m (s_cache cs) (lin, s') = Some False" using st found by simp_all
    show ?thesis by (rule try_push [where kill = kill, OF wf X alive c ok child st' lin fresh])
  qed
qed

lemma explore_level:
  assumes wf: "wf_entries es" and small: "length es < 2 ^ 63" and np: "no_panic m es"
    and child: "\<And>cs' L'. length L' < k \<Longrightarrow> good es cs' L' \<Longrightarrow> L' \<noteq> [] \<Longrightarrow> s_entry cs' = Some (hd L')
      \<Longrightarrow> cache_ok m es (length L') (s_cache cs') \<Longrightarrow> explored m es cp kill cs' L' L'"
    and "good es cs (X @ Y)" and "k = length (X @ Y)" and "\<forall>x \<in> set X. en_kind (ent es x) = callEntry"
    and "s_entry cs = Some (hd Y)" and "Y \<noteq> []" and "cache_ok m es k (s_cache cs)"
  shows "explored m es cp kill cs (X @ Y) Y"
  using assms(5-)
proof (induction Y arbitrary: cs X)
  case (Cons a Y)
  have g: "good es cs (X @ a # Y)" and e: "s_entry cs = Some a" using Cons.prems by simp_all
  show ?case
  proof (cases "en_kind (ent es a)")
    case returnEntry
    have "h_match (s_heap cs) a = None" by (rule good_match_return [OF g _ returnEntry]) simp
    moreover have "no_first m es (s_state cs) (X @ a # Y) (a # Y)"
      by (rule no_first_return [OF good_distinct [OF g] refl returnEntry])
    ultimately show ?thesis unfolding explored_def using g e by blast
  next
    case callEntry
    obtain B r C where Y: "Y = B @ r # C" and c: "at_call es cs X a B r C"
      using at_call_ex [OF wf g e callEntry] by blast
    have "tried m es cp kill cs X a Y"
      using try_call [OF wf small np Cons.prems(3) c, of cp kill] child Cons.prems(2,6) unfolding Y by blast
    then show ?thesis unfolding tried_def
    proof (elim disjE exE conjE)
      fix cs1
      assume c1: "check_loop m cp kill (length es) cs = check_loop m cp kill (length es) cs1" "good es cs1 (X @ a # Y)"
        "s_heap cs1 = s_heap cs" "s_linearized cs1 = s_linearized cs" "s_calls cs1 = s_calls cs" "s_state cs1 = s_state cs"
        "s_entry cs1 = Some (hd Y)" "no_first m es (s_state cs) (X @ a # Y) [a]"
        and cache: "\<forall>en. in_cache (s_cache cs1) en \<longrightarrow> in_cache (s_cache cs) en \<or> hopeless m es en"
      have "cache_ok m es k (s_cache cs1)" using cache_ok_extend [OF Cons.prems(6)] cache by blast
      then have "explored m es cp kill cs1 ((X @ [a]) @ Y) Y"
        using c1 Y callEntry Cons.prems(2,3) by (intro Cons.IH) auto
      then show ?thesis using explored_next [OF _ c1(1,3-6) _ c1(8)] cache by simp
    qed simp
  qed
qed simp

lemma explore:
  assumes wf: "wf_entries es" and small: "length es < 2 ^ 63" and np: "no_panic m es"
  shows "good es cs L \<Longrightarrow> L \<noteq> [] \<Longrightarrow> s_entry cs = Some (hd L) \<Longrightarrow> cache_ok m es (length L) (s_cache cs) \<Longrightarrow>
    explored m es cp kill cs L L"
proof (induction "length L" arbitrary: cs L rule: less_induct)
  case less
  have "explored m es cp kill cs ([] @ L) L"
  proof (rule explore_level [OF wf small np, where k = "length L"])
    show "explored m es cp kill cs' L' L'" if "length L' < length L" "good es cs' L'" "L' \<noteq> []" "s_entry cs' = Some (hd L')"
      "cache_ok m es (length L') (s_cache cs')" for cs' L' using that by (rule less.hyps)
  qed (use less.prems in simp_all)
  then show ?case by simp
qed

lemma checkSingle_cases:
  assumes wf: "wf_entries es" and small: "length es < 2 ^ 63" and np: "no_panic m es"
  shows "(\<exists>l i. checkSingle m es cp kill = Some (False, l) \<and> kill i)
    \<or> (\<exists>p ks. checkSingle m es cp kill = Some (True, replicate (length es div 2) (Some (p, ks))) \<and> lin_path m (Init m) es ks)
    \<or> (\<exists>l. checkSingle m es cp kill = Some (False, l) \<and> \<not> can m (Init m) es)"
proof -
  let ?L = "rev [0..<length es]"
  obtain cs where st: "start_search m es = Some (length es, cs)" and g: "good es cs ?L"
    and cs: "s_calls cs = []" "s_cache cs = (\<lambda>_. [])" "s_state cs = Init m"
      "s_entry cs = (if es = [] then None else Some (length es - 1))"
    using start_search_good [OF wf] by blast
  have run: "checkSingle m es cp kill = check_loop m cp kill (length es) cs" by (simp add: checkSingle_def st)
  show ?thesis
  proof (cases "es = []")
    case True
    then have "checkSingle m es cp kill = Some (True, replicate (length es div 2) (Some (s_iter cs, [])))"
      unfolding run using check_loop_end [of es cs m cp kill] g cs by (simp add: call_ids_def)
    moreover have "lin_path m (Init m) es []" using True by simp
    ultimately show ?thesis by blast
  next
    case False
    then have hd: "?L \<noteq> []" "s_entry cs = Some (hd ?L)" using cs(4) by (simp_all add: hd_rev)
    have ok: "cache_ok m es (length ?L) (s_cache cs)" by (simp add: cache_ok_def in_cache_def cs(2))
    have whole: "map (ent es) ?L = es" by (rule map_ent_all)
    from explore [OF wf small np g hd ok, of cp kill] show ?thesis unfolding explored_def whole run cs(3)
    proof (elim disjE exE conjE)
      fix cs' b
      assume r: "check_loop m cp kill (length es) cs = check_loop m cp kill (length es) cs'" and g': "good es cs' ?L"
        and c': "s_calls cs' = s_calls cs" and b: "s_entry cs' = Some b" "h_match (s_heap cs') b = None"
        and nf: "no_first m es (Init m) ?L ?L"
      have "\<not> can m (Init m) es" using no_first_all [OF nf hd(1)] whole by simp
      moreover have "check_loop m cp kill (length es) cs' = Some (False, s_longest cs')"
        using b c' cs(1) by (simp add: check_loop_iteration [OF g' hd(1)] check_step_def)
      ultimately show "(\<exists>l i. check_loop m cp kill (length es) cs = Some (False, l) \<and> kill i)
        \<or> (\<exists>p ks. check_loop m cp kill (length es) cs = Some (True, replicate (length es div 2) (Some (p, ks)))
             \<and> lin_path m (Init m) es ks)
        \<or> (\<exists>l. check_loop m cp kill (length es) cs = Some (False, l) \<and> \<not> can m (Init m) es)"
        using r by simp
    qed (auto simp: cs(1) call_ids_def)
  qed
qed

end

end
