(* ===== verification/Linearizability.thy ===== *)
theory Linearizability
  imports Check_Single
begin

text \<open>
  Linearizability as a total order of the operations, and its equivalence with the paths of the
  search.  \<open>linearization\<close> is stated on the entries of a history, \<open>linearizes\<close> on the operations
  with their times, as the documentation of the checker has it: every operation takes effect at
  one moment between its call and its return.
\<close>

subsection \<open>Specification\<close>

definition returns_before :: "'v entry list \<Rightarrow> int \<Rightarrow> int \<Rightarrow> bool" where
  "returns_before es i j \<longleftrightarrow> (\<exists>q < length es. \<exists>p < q. en_kind (es ! p) = returnEntry \<and> en_id (es ! p) = i
     \<and> en_kind (es ! q) = callEntry \<and> en_id (es ! q) = j)"

fun legal :: "('s, 'v) Model \<Rightarrow> 'v entry list \<Rightarrow> 's \<Rightarrow> int list \<Rightarrow> bool" where
  "legal m es s [] \<longleftrightarrow> True"
| "legal m es s (k # ks) \<longleftrightarrow> (\<exists>e \<in> set es. \<exists>r \<in> set es. en_kind e = callEntry \<and> en_kind r = returnEntry
     \<and> en_id e = k \<and> en_id r = k
     \<and> (case Step m s (en_value e) (en_value r) of Some (ok, s') \<Rightarrow> ok \<and> legal m es s' ks | None \<Rightarrow> False))"

text \<open>The operations outside \<open>S\<close> in an order that respects real time and that the model accepts.\<close>

definition linearization :: "('s, 'v) Model \<Rightarrow> 'v entry list \<Rightarrow> nat set \<Rightarrow> 's \<Rightarrow> int list \<Rightarrow> bool" where
  "linearization m es S s ks \<longleftrightarrow> distinct ks \<and> set ks = en_id ` set (rest_of es S)
     \<and> sorted_wrt (\<lambda>i j. \<not> returns_before es j i) ks \<and> legal m es s ks"

definition linearizable :: "('s, 'v) Model \<Rightarrow> 'v entry list \<Rightarrow> bool" where
  "linearizable m es \<longleftrightarrow> (\<exists>ks. linearization m es {} (Init m) ks)"

subsection \<open>Paths of the search are linearizations\<close>

lemma returns_before_addr:
  "returns_before es i j \<longleftrightarrow> (\<exists>x < length es. \<exists>a < x. en_kind (ent es x) = returnEntry \<and> en_id (ent es x) = i
     \<and> en_kind (ent es a) = callEntry \<and> en_id (ent es a) = j)"
proof
  assume "returns_before es i j"
  then obtain p q where "q < length es" "p < q" "en_kind (es ! p) = returnEntry" "en_id (es ! p) = i"
    "en_kind (es ! q) = callEntry" "en_id (es ! q) = j" by (auto simp: returns_before_def)
  then show "\<exists>x < length es. \<exists>a < x. en_kind (ent es x) = returnEntry \<and> en_id (ent es x) = i
     \<and> en_kind (ent es a) = callEntry \<and> en_id (ent es a) = j"
    by (intro exI [of _ "length es - Suc p"] conjI exI [of _ "length es - Suc q"]) (auto simp: rev_nth)
next
  assume "\<exists>x < length es. \<exists>a < x. en_kind (ent es x) = returnEntry \<and> en_id (ent es x) = i
     \<and> en_kind (ent es a) = callEntry \<and> en_id (ent es a) = j"
  then obtain x a where "x < length es" "a < x" "en_kind (ent es x) = returnEntry" "en_id (ent es x) = i"
    "en_kind (ent es a) = callEntry" "en_id (ent es a) = j" by blast
  then show "returns_before es i j" unfolding returns_before_def
    by (intro exI [of _ "length es - Suc a"] conjI exI [of _ "length es - Suc x"]) (auto simp: rev_nth)
qed

lemma rest_ids: "en_id ` set (rest_of es S) = (\<lambda>a. en_id (ent es a)) ` set (remaining es S)"
  using arg_cong [OF map_ent_remaining [of es S, symmetric], of set] by (simp add: image_image)

text \<open>Taking the call at address \<open>a\<close> first.\<close>

lemma prefix_calls_iff:
  assumes wf: "wf_entries es" and L: "remaining es S = X @ a # Y" and call: "en_kind (ent es a) = callEntry"
  shows "(\<forall>x \<in> set X. en_kind (ent es x) = callEntry) \<longleftrightarrow>
     (\<forall>j \<in> en_id ` set (rest_of es S). \<not> returns_before es j (en_id (ent es a)))"
proof -
  have mem: "x \<in> set (X @ a # Y) \<longleftrightarrow> x < length es \<and> nat (en_id (ent es x)) \<notin> S" for x
    using remaining_iff [of x es S] by (simp only: L)
  have srt: "sorted_wrt (>) (X @ a # Y)" using remaining_sorted [of es S] by (simp only: L)
  have later: "x \<in> set X \<longleftrightarrow> x \<in> set (X @ a # Y) \<and> a < x" for x using srt by (auto simp: sorted_wrt_append)
  show ?thesis
  proof (intro iffI ballI notI)
    fix j assume X: "\<forall>x \<in> set X. en_kind (ent es x) = callEntry" and j: "j \<in> en_id ` set (rest_of es S)"
      and rb: "returns_before es j (en_id (ent es a))"
    obtain y where y: "y \<in> set (X @ a # Y)" "j = en_id (ent es y)" using j unfolding rest_ids L by blast
    obtain x b where x: "x < length es" "b < x"
        "en_kind (ent es x) = returnEntry" "en_id (ent es x) = j" "en_kind (ent es b) = callEntry" "en_id (ent es b) = en_id (ent es a)"
      using rb unfolding returns_before_addr by (elim exE conjE)
    have "b = a" using wf_ent_unique [OF wf, of b a] x call mem [of a] by simp
    moreover have "x \<in> set (X @ a # Y)" unfolding mem using x y mem [of y] by simp
    ultimately have "x \<in> set X" using later [of x] x(2) by blast
    with X x(3) show False by simp
  next
    fix x assume R: "\<forall>j \<in> en_id ` set (rest_of es S). \<not> returns_before es j (en_id (ent es a))" and x: "x \<in> set X"
    then have "en_id (ent es x) \<in> en_id ` set (rest_of es S)" by (auto simp: rest_ids L)
    with R have "\<not> returns_before es (en_id (ent es x)) (en_id (ent es a))" by blast
    moreover have "x < length es" "a < x" using later mem x by blast+
    ultimately show "en_kind (ent es x) = callEntry"
      using call unfolding returns_before_addr by (cases "en_kind (ent es x)") auto
  qed
qed

lemma lin_path_Cons_addr:
  assumes wf: "wf_entries es"
  shows "lin_path m s (rest_of es S) (k # ks) \<longleftrightarrow>
    (\<exists>a r s'. a \<in> set (remaining es S) \<and> r < length es \<and> en_kind (ent es a) = callEntry \<and> en_kind (ent es r) = returnEntry
       \<and> en_id (ent es a) = k \<and> en_id (ent es r) = k \<and> (\<forall>j \<in> en_id ` set (rest_of es S). \<not> returns_before es j k)
       \<and> Step m s (en_value (ent es a)) (en_value (ent es r)) = Some (True, s')
       \<and> lin_path m s' (rest_of es (insert (nat k) S)) ks)" (is "_ \<longleftrightarrow> ?R")
proof
  assume "lin_path m s (rest_of es S) (k # ks)"
  then obtain A e B r C s' where split: "map (ent es) (remaining es S) = A @ e # B @ r # C" "\<forall>a \<in> set A. en_kind a = callEntry"
      "en_kind e = callEntry" "en_kind r = returnEntry" "en_id e = k" "en_id r = k"
      "Step m s (en_value e) (en_value r) = Some (True, s')" "lin_path m s' (A @ B @ C) ks"
    by (auto simp: map_ent_remaining)
  from split(1) obtain A' e' B' r' C' where L: "remaining es S = A' @ e' # B' @ r' # C'" "A = map (ent es) A'" "e = ent es e'"
      "B = map (ent es) B'" "r = ent es r'" "C = map (ent es) C'"
    by (auto simp: map_eq_append_conv map_eq_Cons_conv append_eq_map_conv Cons_eq_map_conv)
  have call: "en_kind (ent es e') = callEntry" using split(3) L(3) by simp
  obtain B1 r1 C1 where r1: "B' @ r' # C' = B1 @ r1 # C1" "r1 < e'" "en_kind (ent es r1) = returnEntry"
      "en_id (ent es r1) = en_id (ent es e')" "remaining es (insert (nat (en_id (ent es e'))) S) = A' @ B1 @ C1"
    using remaining_split [OF wf L(1) call] by blast
  have lt: "e' < length es" "r' < length es" using remaining_iff [of _ es S] L(1) by auto
  then have "r1 = r'" using wf_ent_unique [OF wf, of r1 r'] r1(2-4) split(4-6) L(3,5) by simp
  moreover have "distinct (B' @ r' # C')" using remaining_distinct [of es S] unfolding L(1) by simp
  ultimately have "B1 = B'" "C1 = C'"
    using r1(1) by (auto simp: append_eq_append_conv2 append_eq_Cons_conv Cons_eq_append_conv)
  with r1(5) have "rest_of es (insert (nat k) S) = A @ B @ C"
    using map_ent_remaining [of es "insert (nat k) S"] L(2-6) split(5) by simp
  moreover have "\<forall>j \<in> en_id ` set (rest_of es S). \<not> returns_before es j k"
    using prefix_calls_iff [OF wf L(1) call] split(2,5) L(2,3) by simp
  ultimately show ?R using split(3-8) L(1,3,5) lt by (intro exI [of _ e'] exI [of _ r'] exI [of _ s']) simp
next
  assume ?R
  then obtain a r s' where a: "a \<in> set (remaining es S)" "r < length es" "en_kind (ent es a) = callEntry"
      "en_kind (ent es r) = returnEntry" "en_id (ent es a) = k" "en_id (ent es r) = k"
      "\<forall>j \<in> en_id ` set (rest_of es S). \<not> returns_before es j k"
      "Step m s (en_value (ent es a)) (en_value (ent es r)) = Some (True, s')"
      "lin_path m s' (rest_of es (insert (nat k) S)) ks" by blast
  obtain X Y where L: "remaining es S = X @ a # Y" using a(1) by (meson split_list)
  obtain B r1 C where r1: "Y = B @ r1 # C" "r1 < a" "en_kind (ent es r1) = returnEntry"
      "en_id (ent es r1) = en_id (ent es a)" "remaining es (insert (nat k) S) = X @ B @ C"
    using remaining_split [OF wf L a(3)] a(5) by blast
  have "a < length es" using a(1) remaining_iff by blast
  then have "r1 = r" using wf_ent_unique [OF wf, of r1 r] a r1 by simp
  moreover have "\<forall>x \<in> set X. en_kind (ent es x) = callEntry"
    using prefix_calls_iff [OF wf L a(3)] a(5,7) by simp
  ultimately show "lin_path m s (rest_of es S) (k # ks)"
    using a L r1 map_ent_remaining [of es S] map_ent_remaining [of es "insert (nat k) S"] unfolding lin_path.simps
    by (intro exI [of _ "map (ent es) X"] exI [of _ "ent es a"] exI [of _ "map (ent es) B"] exI [of _ "ent es r"]
        exI [of _ "map (ent es) C"] exI [of _ s']) auto
qed

lemma wf_entries_id: "wf_entries es \<Longrightarrow> e \<in> set es \<Longrightarrow> 0 \<le> en_id e"
  by (auto simp: wf_entries_def in_set_conv_nth)

lemma rest_of_insert_ids:
  assumes "wf_entries es" and "0 \<le> k"
  shows "en_id ` set (rest_of es (insert (nat k) S)) = en_id ` set (rest_of es S) - {k}"
proof -
  have "0 \<le> en_id e" if "e \<in> set es" for e using wf_entries_id [OF assms(1) that] .
  with assms(2) show ?thesis by (auto simp: rest_of_def eq_nat_nat_iff)
qed

lemma not_returns_before_self: "wf_entries es \<Longrightarrow> \<not> returns_before es k k"
  unfolding returns_before_def using wf_entries_return wf_entries_unique by (metis less_trans order_less_asym)

lemma entry_at_addr: "e \<in> set es \<longleftrightarrow> (\<exists>a < length es. e = ent es a)"
  by (metis in_set_conv_nth length_rev set_rev)

lemma legal_Cons_addr:
  "legal m es s (k # ks) \<longleftrightarrow> (\<exists>a < length es. \<exists>r < length es. en_kind (ent es a) = callEntry \<and> en_kind (ent es r) = returnEntry
     \<and> en_id (ent es a) = k \<and> en_id (ent es r) = k
     \<and> (\<exists>s'. Step m s (en_value (ent es a)) (en_value (ent es r)) = Some (True, s') \<and> legal m es s' ks))" (is "_ \<longleftrightarrow> ?R")
proof
  assume "legal m es s (k # ks)"
  then show ?R unfolding legal.simps entry_at_addr Bex_def by (fastforce split: option.splits)
next
  assume ?R
  then obtain a r s' where "a < length es" "r < length es" "en_kind (ent es a) = callEntry" "en_kind (ent es r) = returnEntry"
    "en_id (ent es a) = k" "en_id (ent es r) = k"
    "Step m s (en_value (ent es a)) (en_value (ent es r)) = Some (True, s')" "legal m es s' ks" by blast
  then show "legal m es s (k # ks)" unfolding legal.simps
    by (intro bexI [of _ "ent es a"] bexI [of _ "ent es r"]) (auto simp: entry_at_addr)
qed

lemma lin_path_iff:
  assumes wf: "wf_entries es"
  shows "lin_path m s (rest_of es S) ks \<longleftrightarrow> linearization m es S s ks"
proof (induction ks arbitrary: S s)
  case Nil
  show ?case by (auto simp: linearization_def)
next
  case (Cons k ks)
  let ?ids = "en_id ` set (rest_of es S)"
  have ids': "en_id ` set (rest_of es (insert (nat k) S)) = ?ids - {k}" if "k \<in> ?ids"
  proof (rule rest_of_insert_ids [OF wf])
    show "0 \<le> k" using that wf_entries_id [OF wf] by (auto simp: rest_of_def)
  qed
  have IH: "lin_path m s' (rest_of es (insert (nat k) S)) ks \<longleftrightarrow>
      distinct ks \<and> set ks = ?ids - {k} \<and> sorted_wrt (\<lambda>i j. \<not> returns_before es j i) ks \<and> legal m es s' ks" if "k \<in> ?ids" for s'
    unfolding Cons.IH linearization_def ids' [OF that] ..
  have mem: "en_id (ent es a) \<in> ?ids \<longleftrightarrow> a \<in> set (remaining es S)" if "a < length es" "en_id (ent es a) = k" for a
    using that by (auto simp: rest_ids remaining_iff)
  show ?case
  proof
    assume "lin_path m s (rest_of es S) (k # ks)"
    then obtain a r s' where a: "a \<in> set (remaining es S)" "r < length es" "en_kind (ent es a) = callEntry"
        "en_kind (ent es r) = returnEntry" "en_id (ent es a) = k" "en_id (ent es r) = k"
        "\<forall>j \<in> ?ids. \<not> returns_before es j k" "Step m s (en_value (ent es a)) (en_value (ent es r)) = Some (True, s')"
        "lin_path m s' (rest_of es (insert (nat k) S)) ks" unfolding lin_path_Cons_addr [OF wf] by blast
    have lt: "a < length es" and k: "k \<in> ?ids" using a(1,5) mem remaining_iff by blast+
    have ks: "distinct ks" "set ks = ?ids - {k}" "sorted_wrt (\<lambda>i j. \<not> returns_before es j i) ks" "legal m es s' ks"
      using a(9) unfolding IH [OF k] by blast+
    have "legal m es s (k # ks)" unfolding legal_Cons_addr using a lt ks(4) by blast
    then show "linearization m es S s (k # ks)" using ks(1-3) k a(7) by (auto simp: linearization_def)
  next
    assume lin: "linearization m es S s (k # ks)"
    then have k: "k \<in> ?ids" and ks: "set (k # ks) = ?ids" "distinct (k # ks)"
      "\<forall>j \<in> set ks. \<not> returns_before es j k" "sorted_wrt (\<lambda>i j. \<not> returns_before es j i) ks" "legal m es s (k # ks)"
      by (auto simp: linearization_def)
    obtain a r s' where a: "a < length es" "r < length es" "en_kind (ent es a) = callEntry" "en_kind (ent es r) = returnEntry"
      "en_id (ent es a) = k" "en_id (ent es r) = k"
      "Step m s (en_value (ent es a)) (en_value (ent es r)) = Some (True, s')" "legal m es s' ks"
      using ks(5) unfolding legal_Cons_addr by blast
    have "lin_path m s' (rest_of es (insert (nat k) S)) ks" unfolding IH [OF k] using ks a(8) by auto
    moreover have "\<forall>j \<in> ?ids. \<not> returns_before es j k"
      using ks(3) not_returns_before_self [OF wf] unfolding ks(1) [symmetric] by simp
    moreover have "a \<in> set (remaining es S)" using mem a(1,5) k by blast
    ultimately show "lin_path m s (rest_of es S) (k # ks)" unfolding lin_path_Cons_addr [OF wf] using a(2-7) by blast
  qed
qed

lemma can_iff_linearizable: "wf_entries es \<Longrightarrow> can m (Init m) es \<longleftrightarrow> linearizable m es"
  using lin_path_iff [of es m "Init m" "{}"] by (simp add: can_def linearizable_def rest_of_def)

subsection \<open>Operations with call and return times\<close>

fun run_ops :: "('s, 'v) Model \<Rightarrow> 's \<Rightarrow> 'v Operation list \<Rightarrow> bool" where
  "run_ops m s [] \<longleftrightarrow> True"
| "run_ops m s (p # ps) \<longleftrightarrow>
     (case Step m s (op_Input p) (op_Output p) of Some (ok, s') \<Rightarrow> ok \<and> run_ops m s' ps | None \<Rightarrow> False)"

definition linearizes :: "('s, 'v) Model \<Rightarrow> 'v Operation list \<Rightarrow> nat list \<Rightarrow> bool" where
  "linearizes m ops p \<longleftrightarrow> distinct p \<and> set p = {..<length ops}
     \<and> sorted_wrt (\<lambda>i j. \<not> op_Return (ops ! j) < op_Call (ops ! i)) p \<and> run_ops m (Init m) (map ((!) ops) p)"

definition ops_linearizable :: "('s, 'v) Model \<Rightarrow> 'v Operation list \<Rightarrow> bool" where
  "ops_linearizable m ops \<longleftrightarrow> (\<exists>p. linearizes m ops p)"

context time_sort
begin

lemma makeEntries_call_iff:
  assumes "e \<in> set (makeEntries srt ops)" and "k < length ops" and "en_id e = int k"
  shows "en_kind e = callEntry \<longleftrightarrow> e = call_of (int k) (ops ! k)"
    and "en_kind e = returnEntry \<longleftrightarrow> e = return_of (int k) (ops ! k)"
  using assms by (auto simp: makeEntries_set)

lemma returns_before_times:
  assumes "i < length ops" and "j < length ops"
  shows "returns_before (makeEntries srt ops) (int i) (int j) \<longleftrightarrow> op_Return (ops ! i) < op_Call (ops ! j)"
proof -
  let ?es = "makeEntries srt ops"
  have "(en_kind (?es ! p) = returnEntry \<and> en_id (?es ! p) = int i \<and> en_kind (?es ! q) = callEntry \<and> en_id (?es ! q) = int j)
      \<longleftrightarrow> (?es ! p = return_of (int i) (ops ! i) \<and> ?es ! q = call_of (int j) (ops ! j))" if "q < length ?es" "p < q" for p q
    using makeEntries_call_iff [of "?es ! p" ops i] makeEntries_call_iff [of "?es ! q" ops j] assms that by auto
  then have "returns_before ?es (int i) (int j) \<longleftrightarrow> (\<exists>q < length ?es. \<exists>p < q. ?es ! p = return_of (int i) (ops ! i)
      \<and> ?es ! q = call_of (int j) (ops ! j))" unfolding returns_before_def by blast
  then show ?thesis by (simp only: makeEntries_order [OF assms])
qed

lemma legal_run_ops:
  "set p \<subseteq> {..<length ops} \<Longrightarrow> legal m (makeEntries srt ops) s (map int p) \<longleftrightarrow> run_ops m s (map ((!) ops) p)"
proof (induction p arbitrary: s)
  case (Cons k p)
  then have k: "k < length ops" by simp
  let ?es = "makeEntries srt ops"
  have in_es: "call_of (int k) (ops ! k) \<in> set ?es" "return_of (int k) (ops ! k) \<in> set ?es"
    using k unfolding makeEntries_set by blast+
  have "legal m ?es s (int k # map int p) \<longleftrightarrow> (\<exists>e \<in> set ?es. \<exists>r \<in> set ?es. e = call_of (int k) (ops ! k) \<and> r = return_of (int k) (ops ! k)
     \<and> (case Step m s (en_value e) (en_value r) of Some (ok, s') \<Rightarrow> ok \<and> legal m ?es s' (map int p) | None \<Rightarrow> False))"
    unfolding legal.simps using makeEntries_call_iff [OF _ k] by (metis call_return_sel(2,6))
  also have "\<dots> \<longleftrightarrow> run_ops m s (map ((!) ops) (k # p))"
    using in_es Cons by (auto split: option.splits)
  finally show ?case by simp
qed simp

lemma makeEntries_ids: "en_id ` set (makeEntries srt ops) = int ` {..<length ops}"
  unfolding makeEntries_set by (auto simp: image_iff)

lemma linearization_of_ops:
  "linearization m (makeEntries srt ops) {} (Init m) (map int p) \<longleftrightarrow> linearizes m ops p"
proof -
  have "int ` set p = int ` {..<length ops} \<longleftrightarrow> set p = {..<length ops}" by (rule inj_image_eq_iff) simp
  moreover have "sorted_wrt (\<lambda>i j. \<not> returns_before (makeEntries srt ops) (int j) (int i)) p
      \<longleftrightarrow> sorted_wrt (\<lambda>i j. \<not> op_Return (ops ! j) < op_Call (ops ! i)) p" if "set p = {..<length ops}"
    using that returns_before_times by (intro iffI; elim sorted_wrt_mono_rel [rotated]) auto
  ultimately show ?thesis
    using legal_run_ops [of p ops m "Init m"]
    by (auto simp: linearization_def linearizes_def rest_of_def makeEntries_ids distinct_map sorted_wrt_map)
qed

lemma linearizable_ops: "linearizable m (makeEntries srt ops) \<longleftrightarrow> ops_linearizable m ops"
proof
  assume "linearizable m (makeEntries srt ops)"
  then obtain ks where ks: "linearization m (makeEntries srt ops) {} (Init m) ks" by (auto simp: linearizable_def)
  then have "set ks = int ` {..<length ops}" by (simp add: linearization_def rest_of_def makeEntries_ids)
  then have "ks = map int (map nat ks)" by (intro nth_equalityI) (auto simp: set_eq_iff image_iff, metis nth_mem of_nat_0_le_iff)
  with ks show "ops_linearizable m ops" unfolding ops_linearizable_def using linearization_of_ops by metis
next
  assume "ops_linearizable m ops"
  then show "linearizable m (makeEntries srt ops)"
    unfolding ops_linearizable_def linearizable_def using linearization_of_ops by blast
qed

end

end
