(* ===== verification/Check_Parallel.thy ===== *)
theory Check_Parallel
  imports Linearizability
begin

text \<open>
  The rest of \<^verbatim>\<open>src/porcupine/checker.go\<close> and \<^verbatim>\<open>src/porcupine/porcupine.go\<close>: one goroutine per
  partition, the loop that collects the results, and the functions a test calls.

  The order in which the main goroutine's \<^verbatim>\<open>select\<close> sees the results and the timer is a schedule,
  an argument of the model; a schedule that ends before the loop is left is a wait that never
  ends (\<open>None\<close>).  The kill flag is only set when the loop is left, so that a result received in
  the loop was computed with the flag unset, while what the other goroutines read of it is the
  oracle \<open>kill\<close>.
\<close>

subsection \<open>The program\<close>

record 'v linearizationInfo =
  li_history :: "'v entry list list"
  li_partialLinearizations :: "int list multiset list"

datatype sel = Recv nat | TimerFired

fun select_loop :: "(nat \<Rightarrow> bool option) \<Rightarrow> nat \<Rightarrow> bool \<Rightarrow> bool \<Rightarrow> sel list \<Rightarrow> nat list \<Rightarrow> bool \<Rightarrow> (nat list \<times> bool \<times> bool) option" where
  "select_loop res n computeInfo timer [] got ok = None"
| "select_loop res n computeInfo timer (Recv i # sched) got ok =
     (if i < n \<and> i \<notin> set got
      then do {
        result \<leftarrow> res i;
        let ok' = (ok \<and> result);
        let got' = got @ [i];
        if \<not> ok' \<and> \<not> computeInfo then Some (got', ok', False)
        else if length got' \<ge> n then Some (got', ok', False)
        else select_loop res n computeInfo timer sched got' ok'
      }
      else select_loop res n computeInfo timer sched got ok)"
| "select_loop res n computeInfo timer (TimerFired # sched) got ok =
     (if timer then Some (got, ok, True) else select_loop res n computeInfo timer sched got ok)"

text \<open>The distinct slices that \<^verbatim>\<open>longest\<close> points to; the order of a map's range is not specified.\<close>

definition partials :: "longest \<Rightarrow> int list multiset" where
  "partials longest = mset (map snd (remdups (concat (map (\<lambda>v. case v of None \<Rightarrow> [] | Some x \<Rightarrow> [x]) longest))))"

definition checkParallel ::
  "('s, 'v) Model \<Rightarrow> 'v entry list list \<Rightarrow> bool \<Rightarrow> int \<Rightarrow> sel list \<Rightarrow> (nat \<Rightarrow> nat \<Rightarrow> bool) \<Rightarrow> (CheckResult \<times> 'v linearizationInfo) option" where
  "checkParallel model history computeInfo timeout sched kill = do {
     let n = length history;
     (got, ok, timedOut) \<leftarrow> select_loop (\<lambda>i. map_option fst (checkSingle model (history ! i) computeInfo (\<lambda>_. False)))
                             n computeInfo (timeout > 0) sched [] True;
     info \<leftarrow> (if computeInfo
              then do {
                longest \<leftarrow> those (map (\<lambda>i. map_option snd
                   (checkSingle model (history ! i) computeInfo (if i \<in> set got then (\<lambda>_. False) else kill i))) [0..<n]);
                Some \<lparr>li_history = history, li_partialLinearizations = map partials longest\<rparr>
              }
              else Some \<lparr>li_history = [], li_partialLinearizations = []\<rparr>);
     Some (if \<not> ok then Illegal else if timedOut then Unknown else Ok, info)
   }"

definition checkEvents ::
  "('s, 'v) Model \<Rightarrow> 'v Event list \<Rightarrow> bool \<Rightarrow> int \<Rightarrow> sel list \<Rightarrow> (nat \<Rightarrow> nat \<Rightarrow> bool) \<Rightarrow> (CheckResult \<times> 'v linearizationInfo) option" where
  "checkEvents model0 history verbose timeout sched kill = do {
     let model = fillDefault model0;
     part \<leftarrow> PartitionEvent model;
     partitions \<leftarrow> part history;
     checkParallel model (map (\<lambda>sub. convertEntries (renumber sub)) partitions) verbose timeout sched kill
   }"

definition checkOperations ::
  "('v entry list \<Rightarrow> 'v entry list) \<Rightarrow> ('s, 'v) Model \<Rightarrow> 'v Operation list \<Rightarrow> bool \<Rightarrow> int \<Rightarrow> sel list \<Rightarrow> (nat \<Rightarrow> nat \<Rightarrow> bool)
    \<Rightarrow> (CheckResult \<times> 'v linearizationInfo) option" where
  "checkOperations srt model0 history verbose timeout sched kill = do {
     let model = fillDefault model0;
     part \<leftarrow> Partition model;
     partitions \<leftarrow> part history;
     checkParallel model (map (makeEntries srt) partitions) verbose timeout sched kill
   }"

definition CheckOperations ::
  "('v entry list \<Rightarrow> 'v entry list) \<Rightarrow> ('s, 'v) Model \<Rightarrow> 'v Operation list \<Rightarrow> sel list \<Rightarrow> (nat \<Rightarrow> nat \<Rightarrow> bool) \<Rightarrow> bool option" where
  "CheckOperations srt model history sched kill =
     map_option (\<lambda>(res, _). res = Ok) (checkOperations srt model history False 0 sched kill)"

definition CheckOperationsTimeout ::
  "('v entry list \<Rightarrow> 'v entry list) \<Rightarrow> ('s, 'v) Model \<Rightarrow> 'v Operation list \<Rightarrow> int \<Rightarrow> sel list \<Rightarrow> (nat \<Rightarrow> nat \<Rightarrow> bool) \<Rightarrow> CheckResult option" where
  "CheckOperationsTimeout srt model history timeout sched kill =
     map_option fst (checkOperations srt model history False timeout sched kill)"

definition CheckOperationsVerbose ::
  "('v entry list \<Rightarrow> 'v entry list) \<Rightarrow> ('s, 'v) Model \<Rightarrow> 'v Operation list \<Rightarrow> int \<Rightarrow> sel list \<Rightarrow> (nat \<Rightarrow> nat \<Rightarrow> bool)
    \<Rightarrow> (CheckResult \<times> 'v linearizationInfo) option" where
  "CheckOperationsVerbose srt model history timeout sched kill = checkOperations srt model history True timeout sched kill"

definition CheckEvents :: "('s, 'v) Model \<Rightarrow> 'v Event list \<Rightarrow> sel list \<Rightarrow> (nat \<Rightarrow> nat \<Rightarrow> bool) \<Rightarrow> bool option" where
  "CheckEvents model history sched kill = map_option (\<lambda>(res, _). res = Ok) (checkEvents model history False 0 sched kill)"

definition CheckEventsTimeout :: "('s, 'v) Model \<Rightarrow> 'v Event list \<Rightarrow> int \<Rightarrow> sel list \<Rightarrow> (nat \<Rightarrow> nat \<Rightarrow> bool) \<Rightarrow> CheckResult option" where
  "CheckEventsTimeout model history timeout sched kill = map_option fst (checkEvents model history False timeout sched kill)"

definition CheckEventsVerbose ::
  "('s, 'v) Model \<Rightarrow> 'v Event list \<Rightarrow> int \<Rightarrow> sel list \<Rightarrow> (nat \<Rightarrow> nat \<Rightarrow> bool) \<Rightarrow> (CheckResult \<times> 'v linearizationInfo) option" where
  "CheckEventsVerbose model history timeout sched kill = checkEvents model history True timeout sched kill"

subsection \<open>Collecting the results\<close>

text \<open>The schedule lets every goroutine's result be received.\<close>

definition covers :: "nat \<Rightarrow> sel list \<Rightarrow> bool" where
  "covers n sched \<longleftrightarrow> (\<forall>i < n. Recv i \<in> set sched)"

definition collected :: "(nat \<Rightarrow> bool) \<Rightarrow> nat \<Rightarrow> nat list \<Rightarrow> bool \<Rightarrow> bool" where
  "collected L n got ok \<longleftrightarrow> distinct got \<and> set got \<subseteq> {..<n} \<and> (ok \<longleftrightarrow> (\<forall>i \<in> set got. L i))"

lemma collected_snoc:
  "collected L n got ok \<Longrightarrow> i < n \<Longrightarrow> i \<notin> set got \<Longrightarrow> collected L n (got @ [i]) (ok \<and> L i)"
  by (auto simp: collected_def)

lemma select_loop_sound:
  assumes res: "\<And>i. i < n \<Longrightarrow> res i = Some (L i)" and "collected L n got ok"
    and "select_loop res n ci tm sched got ok = Some (got', ok', t)"
  shows "collected L n got' ok' \<and> (t \<longrightarrow> tm) \<and> (\<not> t \<longrightarrow> ok' \<longrightarrow> n \<le> length got')"
  using assms(2,3)
proof (induction sched arbitrary: got ok)
  case (Cons x sched)
  show ?case
  proof (cases x)
    case (Recv i)
    show ?thesis
    proof (cases "i < n \<and> i \<notin> set got")
      case True
      note c = collected_snoc [OF Cons.prems(1), of i]
      show ?thesis using Cons.prems(2) Cons.IH [OF c] c True res [of i] by (auto simp: Recv Let_def split: if_splits)
    next
      case False
      then show ?thesis using Cons.IH [OF Cons.prems(1)] Cons.prems(2) by (auto simp: Recv)
    qed
  next
    case TimerFired
    then show ?thesis using Cons.IH [OF Cons.prems(1)] Cons.prems by (cases tm) auto
  qed
qed simp

lemma select_loop_returns:
  assumes res: "\<And>i. i < n \<Longrightarrow> res i = Some (L i)"
    and "length got < n" and "set got \<subseteq> {..<n}" and "distinct got" and "\<forall>i < n. i \<in> set got \<or> Recv i \<in> set sched"
  shows "\<exists>r. select_loop res n ci tm sched got ok = Some r"
  using assms(2-)
proof (induction sched arbitrary: got ok)
  case Nil
  then have "{..<n} \<subseteq> set got" by auto
  then have "n \<le> length got" using card_mono [of "set got" "{..<n}"] card_length [of got] by simp
  with Nil show ?case by simp
next
  case (Cons x sched)
  show ?case
  proof (cases x)
    case (Recv i)
    show ?thesis
    proof (cases "i < n \<and> i \<notin> set got")
      case True
      have "\<forall>j < n. j \<in> set (got @ [i]) \<or> Recv j \<in> set sched" using Cons.prems(4) Recv by auto
      then have "\<exists>r. select_loop res n ci tm sched (got @ [i]) ok' = Some r" if "Suc (length got) < n" for ok'
        using Cons.IH [of "got @ [i]" ok'] Cons.prems(2,3) True that by simp
      then show ?thesis using True res [of i] by (auto simp: Recv Let_def not_le simp del: split_paired_Ex)
    next
      case False
      have "\<forall>j < n. j \<in> set got \<or> Recv j \<in> set sched" using Cons.prems(4) Recv False by auto
      then show ?thesis using Cons.IH [of got ok] Cons.prems(1-3) False by (simp only: Recv select_loop.simps if_False)
    qed
  next
    case TimerFired
    then show ?thesis using Cons.IH [of got ok] Cons.prems by auto
  qed
qed

lemma collected_all:
  assumes "collected L n got ok" and "n \<le> length got"
  shows "set got = {..<n}"
  using assms card_subset_eq [of "{..<n}" "set got"] distinct_card [of got] card_mono [of "{..<n}" "set got"]
  by (auto simp: collected_def)

subsection \<open>The verdicts\<close>

definition checkable :: "('s, 'v) Model \<Rightarrow> 'v entry list \<Rightarrow> bool" where
  "checkable m es \<longleftrightarrow> wf_entries es \<and> length es < 2 ^ 63 \<and> no_panic m es"

lemma checkSingle_result:
  assumes "lawful m" and "checkable m es"
  shows "\<exists>l. checkSingle m es cp (\<lambda>_. False) = Some (linearizable m es, l)"
    and "\<exists>b l. checkSingle m es cp kill = Some (b, l)"
proof -
  obtain eq where "lawful_model m eq" using assms(1) by (auto simp: lawful_def)
  note cases = lawful_model.checkSingle_cases [OF this, of es cp]
  show "\<exists>l. checkSingle m es cp (\<lambda>_. False) = Some (linearizable m es, l)"
    using cases [of "\<lambda>_. False"] assms(2) can_iff_linearizable [of es m]
    by (auto simp: checkable_def can_def)
  show "\<exists>b l. checkSingle m es cp kill = Some (b, l)"
    using cases [of kill] assms(2) by (auto simp: checkable_def)
qed

text \<open>No verdict of the checker is wrong, whatever the order of the results and the timer.\<close>

lemma checkParallel_sound:
  assumes law: "lawful m" and ok: "\<forall>es \<in> set hs. checkable m es"
    and run: "checkParallel m hs ci timeout sched kill = Some (res, info)"
  shows "res = Ok \<Longrightarrow> \<forall>es \<in> set hs. linearizable m es" and "res = Illegal \<Longrightarrow> \<exists>es \<in> set hs. \<not> linearizable m es"
    and "res = Unknown \<Longrightarrow> 0 < timeout"
proof -
  let ?res = "\<lambda>i. map_option fst (checkSingle m (hs ! i) ci (\<lambda>_. False))" and ?L = "\<lambda>i. linearizable m (hs ! i)"
  have res: "?res i = Some (?L i)" if "i < length hs" for i
    using checkSingle_result(1) [OF law, of "hs ! i" ci] ok that by auto
  obtain got okk t where sl: "select_loop ?res (length hs) ci (timeout > 0) sched [] True = Some (got, okk, t)"
    and r: "res = (if \<not> okk then Illegal else if t then Unknown else Ok)"
    using run by (auto simp: checkParallel_def Let_def option_bind_simps)
  have "collected ?L (length hs) [] True" by (simp add: collected_def)
  from select_loop_sound [OF res this sl]
  have c: "collected ?L (length hs) got okk" "t \<Longrightarrow> timeout > 0" "\<not> t \<Longrightarrow> okk \<Longrightarrow> length hs \<le> length got" by auto
  show "\<forall>es \<in> set hs. linearizable m es" if "res = Ok"
  proof -
    have "okk" "\<not> t" using that r by (auto split: if_splits)
    then have "set got = {..<length hs}" using collected_all [OF c(1) c(3)] by simp
    with c(1) \<open>okk\<close> show ?thesis by (auto simp: collected_def all_set_conv_all_nth)
  qed
  show "\<exists>es \<in> set hs. \<not> linearizable m es" if "res = Illegal"
    using c(1) that r by (auto simp: collected_def split: if_splits intro: bexI [rotated, OF nth_mem])
  show "0 < timeout" if "res = Unknown" using c(2) that r by (auto split: if_splits)
qed

lemma checkParallel_returns:
  assumes law: "lawful m" and ok: "\<forall>es \<in> set hs. checkable m es" and "hs \<noteq> []" and "covers (length hs) sched"
  shows "\<exists>res info. checkParallel m hs ci timeout sched kill = Some (res, info)"
proof -
  let ?res = "\<lambda>i. map_option fst (checkSingle m (hs ! i) ci (\<lambda>_. False))" and ?L = "\<lambda>i. linearizable m (hs ! i)"
  have res: "?res i = Some (?L i)" if "i < length hs" for i
    using checkSingle_result(1) [OF law, of "hs ! i" ci] ok that by auto
  obtain got okk t where sl: "select_loop ?res (length hs) ci (timeout > 0) sched [] True = Some (got, okk, t)"
    using select_loop_returns [of "length hs" ?res ?L "[]" sched ci "timeout > 0" True] res assms(3,4)
    by (auto simp: covers_def)
  define long where "long i = map_option snd (checkSingle m (hs ! i) ci (if i \<in> set got then (\<lambda>_. False) else kill i))" for i
  have "long i \<noteq> None" if "i < length hs" for i
    unfolding long_def using checkSingle_result(2) [OF law, of "hs ! i" ci "if i \<in> set got then (\<lambda>_. False) else kill i"] ok that
    by auto
  then have "None \<notin> set (map long [0..<length hs])" by (auto simp: image_iff) (metis option.distinct(1))
  then have "those (map long [0..<length hs]) \<noteq> None" unfolding those_None_iff by simp
  then show ?thesis using sl unfolding long_def by (auto simp: checkParallel_def Let_def)
qed

end
