(* ===== verification/Kv_Model.thy ===== *)
theory Kv_Model
  imports Check_Parallel Go_Strings "HOL-Library.Word"
begin

text \<open>
  \<^verbatim>\<open>src/models/kv.go\<close>: the key/value store as a model for the checker, with its partition by key.  An
  \<^verbatim>\<open>interface{}\<close> holds a \<^verbatim>\<open>KvInput\<close> or a \<^verbatim>\<open>KvOutput\<close>, and a type assertion on the other one panics.
\<close>

record KvInput =
  kv_Op :: "8 word"
  kv_Key :: string
  kv_Value :: string

record KvOutput =
  out_Value :: string

datatype kv_iface = AKvInput KvInput | AKvOutput KvOutput

definition assert_KvInput :: "kv_iface \<Rightarrow> KvInput option" where
  "assert_KvInput v = (case v of AKvInput i \<Rightarrow> Some i | AKvOutput _ \<Rightarrow> None)"

definition assert_KvOutput :: "kv_iface \<Rightarrow> KvOutput option" where
  "assert_KvOutput v = (case v of AKvOutput w \<Rightarrow> Some w | AKvInput _ \<Rightarrow> None)"

text \<open>
  The map from keys to operations; \<open>ks\<close> are its keys in the order of insertion.  The order in which
  \<^verbatim>\<open>range m\<close> visits them does not matter, since they are sorted.
\<close>

fun kv_group :: "kv_iface Operation list \<Rightarrow> (string \<rightharpoonup> kv_iface Operation list) \<Rightarrow> string list
    \<Rightarrow> ((string \<rightharpoonup> kv_iface Operation list) \<times> string list) option" where
  "kv_group [] m ks = Some (m, ks)"
| "kv_group (v # history) m ks = do {
     inp \<leftarrow> assert_KvInput (op_Input v);
     let key = kv_Key inp;
     (case m key of
        None \<Rightarrow> kv_group history (m(key \<mapsto> [v])) (ks @ [key])
      | Some vs \<Rightarrow> kv_group history (m(key \<mapsto> vs @ [v])) ks)
   }"

definition kv_Partition :: "kv_iface Operation list \<Rightarrow> kv_iface Operation list list option" where
  "kv_Partition history = do {
     (m, ks) \<leftarrow> kv_group history Map.empty [];
     Some (map (\<lambda>k. case m k of None \<Rightarrow> [] | Some vs \<Rightarrow> vs) (sort ks))
   }"

definition kv_Init :: string where
  "kv_Init = ''''"

definition kv_Step :: "string \<Rightarrow> kv_iface \<Rightarrow> kv_iface \<Rightarrow> (bool \<times> string) option" where
  "kv_Step st input output = do {
     inp \<leftarrow> assert_KvInput input;
     out \<leftarrow> assert_KvOutput output;
     (if kv_Op inp = 0 then Some (out_Value out = st, st)
      else if kv_Op inp = 1 then Some (True, kv_Value inp)
      else Some (True, st @ kv_Value inp))
   }"

definition KvModel :: "(string, kv_iface) Model" where
  "KvModel = \<lparr>Partition = Some kv_Partition, PartitionEvent = None, Init = kv_Init, Step = kv_Step, Equal = None\<rparr>"

definition kv_DescribeOperation :: "kv_iface \<Rightarrow> kv_iface \<Rightarrow> string option" where
  "kv_DescribeOperation input output = do {
     inp \<leftarrow> assert_KvInput input;
     out \<leftarrow> assert_KvOutput output;
     Some (if kv_Op inp = 0 then ''get('' @ [CHR 0x27] @ kv_Key inp @ [CHR 0x27] @ '') -> '' @ [CHR 0x27] @ out_Value out @ [CHR 0x27]
      else if kv_Op inp = 1 then ''put('' @ [CHR 0x27] @ kv_Key inp @ [CHR 0x27] @ '', '' @ [CHR 0x27] @ kv_Value inp @ [CHR 0x27] @ '')''
      else if kv_Op inp = 2 then ''append('' @ [CHR 0x27] @ kv_Key inp @ [CHR 0x27] @ '', '' @ [CHR 0x27] @ kv_Value inp @ [CHR 0x27] @ '')''
      else ''<invalid>'')
   }"

interpretation kv: lawful_model "fillDefault KvModel" ShallowEqual
  by (rule shallow_lawful) (simp add: KvModel_def)

lemma kv_lawful: "lawful (fillDefault KvModel)"
  using kv.lawful_model_axioms by (auto simp: lawful_def)

subsection \<open>The partition by key\<close>

definition key_of :: "kv_iface Operation \<Rightarrow> string" where
  "key_of v = (case op_Input v of AKvInput i \<Rightarrow> kv_Key i | AKvOutput _ \<Rightarrow> '''')"

definition grouped :: "kv_iface Operation list \<Rightarrow> (string \<rightharpoonup> kv_iface Operation list) \<Rightarrow> string list \<Rightarrow> bool" where
  "grouped h m ks \<longleftrightarrow> distinct ks \<and> set ks = key_of ` set h \<and>
     (\<forall>k. m k = (if k \<in> set ks then Some (filter (\<lambda>v. key_of v = k) h) else None))"

lemma grouped_snoc:
  assumes "grouped h m ks"
  shows "m (key_of v) = None \<Longrightarrow> grouped (h @ [v]) (m(key_of v \<mapsto> [v])) (ks @ [key_of v])"
    and "m (key_of v) = Some vs \<Longrightarrow> grouped (h @ [v]) (m(key_of v \<mapsto> vs @ [v])) ks"
  using assms by (auto simp: grouped_def filter_empty_conv image_iff split: if_splits)

lemma kv_group_grouped:
  assumes "\<forall>v \<in> set h'. assert_KvInput (op_Input v) \<noteq> None" and "grouped h m ks"
  shows "\<exists>m' ks'. kv_group h' m ks = Some (m', ks') \<and> grouped (h @ h') m' ks'"
  using assms
proof (induction h' arbitrary: h m ks)
  case (Cons v h')
  obtain i where i: "op_Input v = AKvInput i" using Cons.prems(1) by (cases "op_Input v") (auto simp: assert_KvInput_def)
  then have key: "kv_Key i = key_of v" by (simp add: key_of_def)
  show ?case
  proof (cases "m (key_of v)")
    case None
    then show ?thesis
      using Cons.IH [OF _ grouped_snoc(1) [OF Cons.prems(2) None]] Cons.prems(1) by (simp add: i assert_KvInput_def key Let_def fun_upd_def)
  next
    case (Some vs)
    then show ?thesis
      using Cons.IH [OF _ grouped_snoc(2) [OF Cons.prems(2) Some]] Cons.prems(1) by (simp add: i assert_KvInput_def key Let_def fun_upd_def)
  qed
qed simp

text \<open>
  The partition has one sub-history per key, in the order of the keys, and each holds the operations
  on its key in their order; the type assertion does not panic on histories of key/value operations.
\<close>

lemma kv_Partition_by_key:
  assumes "\<forall>v \<in> set history. assert_KvInput (op_Input v) \<noteq> None"
  shows "\<exists>ks. sorted ks \<and> distinct ks \<and> set ks = key_of ` set history \<and>
     kv_Partition history = Some (map (\<lambda>k. filter (\<lambda>v. key_of v = k) history) ks)"
proof -
  have "grouped [] Map.empty []" by (simp add: grouped_def)
  from kv_group_grouped [OF assms this] obtain m ks where g: "kv_group history Map.empty [] = Some (m, ks)" "grouped history m ks"
    by auto
  then have "kv_Partition history = Some (map (\<lambda>k. filter (\<lambda>v. key_of v = k) history) (sort ks))"
    by (auto simp: kv_Partition_def grouped_def)
  with g(2) show ?thesis by (intro exI [of _ "sort ks"]) (auto simp: grouped_def)
qed

subsection \<open>A sample history\<close>

text \<open>A put, a get that reads it and overlaps it, and a get that reads the old value.\<close>

definition kv_op :: "8 word \<Rightarrow> string \<Rightarrow> string \<Rightarrow> string \<Rightarrow> int \<Rightarrow> int \<Rightarrow> kv_iface Operation" where
  "kv_op opr k v out t1 t2 = \<lparr>op_ClientId = 0, op_Input = AKvInput \<lparr>kv_Op = opr, kv_Key = k, kv_Value = v\<rparr>, op_Call = t1,
     op_Output = AKvOutput \<lparr>out_Value = out\<rparr>, op_Return = t2\<rparr>"

definition sample_ops :: "kv_iface Operation list" where
  "sample_ops = [kv_op 1 ''x'' ''1'' '''' 0 10, kv_op 0 ''x'' '''' ''1'' 5 20, kv_op 0 ''x'' '''' '''' 2 8]"

lemma sample_linearizes: "linearizes KvModel sample_ops [2, 0, 1]"
  by (simp add: linearizes_def sample_ops_def kv_op_def KvModel_def kv_Step_def kv_Init_def assert_KvInput_def assert_KvOutput_def
      lessThan_Suc insert_commute numeral_2_eq_2)

end
