(* ===== verification/Porcupine.thy ===== *)
theory Porcupine
  imports Kv_Model
begin

text \<open>
  The properties of the linearizability checker: the list of entries under \<^verbatim>\<open>lift\<close> and \<^verbatim>\<open>unlift\<close>,
  the search, the functions of \<^verbatim>\<open>porcupine.go\<close> and the key/value model of \<^verbatim>\<open>models/kv.go\<close>.
\<close>

subsection \<open>Models with default fields\<close>

lemma legal_fillDefault [simp]: "legal (fillDefault m) es s ks = legal m es s ks"
  by (induction ks arbitrary: s) (auto split: option.splits)

lemma linearizable_fillDefault [simp]: "linearizable (fillDefault m) es = linearizable m es"
  by (simp add: linearizable_def linearization_def)

text \<open>Operations that a history of the checker may consist of.\<close>

definition proper_ops :: "('s, 'v) Model \<Rightarrow> 'v Operation list \<Rightarrow> bool" where
  "proper_ops m ops \<longleftrightarrow> length ops < 2 ^ 62 \<and>
     (\<forall>p \<in> set ops. op_Call p \<le> op_Return p \<and> (\<forall>s. Step m s (op_Input p) (op_Output p) \<noteq> None))"

definition proper_events :: "('s, 'v) Model \<Rightarrow> 'v Event list \<Rightarrow> bool" where
  "proper_events m evs \<longleftrightarrow> length evs < 2 ^ 63 \<and> wf_events evs \<and>
     (\<forall>c \<in> set evs. \<forall>r \<in> set evs. ev_Kind c = CallEvent \<longrightarrow> ev_Kind r = ReturnEvent \<longrightarrow> ev_Id c = ev_Id r
        \<longrightarrow> (\<forall>s. Step m s (ev_Value c) (ev_Value r) \<noteq> None))"

context time_sort
begin

lemma makeEntries_checkable:
  assumes "proper_ops m ops"
  shows "checkable (fillDefault m) (makeEntries srt ops)"
proof -
  have "no_panic (fillDefault m) (makeEntries srt ops)"
    unfolding no_panic_def makeEntries_set using assms by (auto simp: proper_ops_def)
  moreover have "wf_entries (makeEntries srt ops)" using assms by (intro makeEntries_wf) (simp add: proper_ops_def)
  moreover have "length (makeEntries srt ops) < 2 ^ 63" using assms by (simp add: makeEntries_length proper_ops_def)
  ultimately show ?thesis by (simp add: checkable_def)
qed

lemma checkOperations_run:
  assumes "Partition (fillDefault m) = Some part" and "part history = Some parts"
  shows "checkOperations srt m history v timeout sched kill = checkParallel (fillDefault m) (map (makeEntries srt) parts) v timeout sched kill"
  using assms by (simp add: checkOperations_def Let_def del: fillDefault_fields)

end

lemma convertEntries_checkable:
  assumes p: "proper_events m evs"
  shows "checkable (fillDefault m) (convertEntries (renumber evs))"
proof -
  obtain f where f: "bij_betw f (ev_Id ` set evs) {0..<int (card (ev_Id ` set evs))}"
    and r: "renumber evs = map (\<lambda>v. v\<lparr>ev_Id := f (ev_Id v)\<rparr>) evs" using renumber_renames by blast
  let ?es = "convertEntries (renumber evs)"
  have len: "length ?es = length evs" by (simp add: convertEntries_def r)
  have ex: "\<exists>v \<in> set evs. en_value e = ev_Value v \<and> en_id e = f (ev_Id v) \<and> en_kind e = (if ev_Kind v = ReturnEvent then returnEntry else callEntry)"
    if "e \<in> set ?es" for e
  proof -
    obtain i where i: "i < length evs" "e = ?es ! i" using \<open>e \<in> set ?es\<close> len by (auto simp: in_set_conv_nth)
    then show ?thesis by (intro bexI [of _ "evs ! i"]) (simp_all add: convertEntries_def r convertEntries_loop_nth)
  qed
  have "no_panic (fillDefault m) ?es" unfolding no_panic_def
  proof (intro ballI impI allI)
    fix e r' s assume e: "e \<in> set ?es" "r' \<in> set ?es" "en_kind e = callEntry" "en_kind r' = returnEntry" "en_id e = en_id r'"
    obtain v where v: "v \<in> set evs" "en_value e = ev_Value v" "en_id e = f (ev_Id v)" "ev_Kind v = CallEvent"
      using ex [OF e(1)] e(3) by (metis EventKind.exhaust entryKind.distinct(1))
    obtain w where w: "w \<in> set evs" "en_value r' = ev_Value w" "en_id r' = f (ev_Id w)" "ev_Kind w = ReturnEvent"
      using ex [OF e(2)] e(4) by (metis entryKind.distinct(1))
    have "ev_Id v = ev_Id w" using f e(5) v w by (auto simp: bij_betw_def inj_on_def)
    then show "Step (fillDefault m) s (en_value e) (en_value r') \<noteq> None"
      using p v w by (auto simp: proper_events_def)
  qed
  with p len show ?thesis by (simp add: checkable_def proper_events_def convertEntries_renumber_wf)
qed

subsection \<open>Samples\<close>

definition sample_events :: "kv_iface Event list" where
  "sample_events =
     [\<lparr>ev_ClientId = 0, ev_Kind = CallEvent, ev_Value = AKvInput \<lparr>kv_Op = 1, kv_Key = ''x'', kv_Value = ''1''\<rparr>, ev_Id = 7\<rparr>,
      \<lparr>ev_ClientId = 0, ev_Kind = ReturnEvent, ev_Value = AKvOutput \<lparr>out_Value = ''''\<rparr>, ev_Id = 7\<rparr>]"

lemma sample_proper: "proper_ops KvModel sample_ops"
  by (auto simp: proper_ops_def sample_ops_def kv_op_def KvModel_def kv_Step_def assert_KvInput_def assert_KvOutput_def)

lemma sample_linearizable: "ops_linearizable KvModel sample_ops" "linearizable KvModel (makeEntries (sort_key time_key) sample_ops)"
  using sample_linearizes by (auto simp: ops_linearizable_def by_time.linearizable_ops)

lemma sample_partition: "Partition (fillDefault KvModel) = Some kv_Partition" "kv_Partition sample_ops = Some [sample_ops]"
proof -
  show "Partition (fillDefault KvModel) = Some kv_Partition" by (simp add: KvModel_def)
  show "kv_Partition sample_ops = Some [sample_ops]"
    by (simp add: kv_Partition_def sample_ops_def kv_op_def assert_KvInput_def Let_def)
qed

lemma sample_events_proper: "proper_events KvModel sample_events"
  by (auto simp: proper_events_def wf_events_def sample_events_def KvModel_def kv_Step_def assert_KvInput_def assert_KvOutput_def
      less_Suc_eq)

lemma CheckOperations_verdict:
  assumes "time_sort srt" and "lawful (fillDefault m)"
    and "Partition (fillDefault m) = Some part" and "part history = Some parts" and "parts \<noteq> []"
    and "\<forall>ops \<in> set parts. proper_ops m ops" and "covers (length parts) sched"
  shows "CheckOperations srt m history sched kill = Some (\<forall>ops \<in> set parts. ops_linearizable m ops)"
proof -
  have ok: "\<forall>es \<in> set (map (makeEntries srt) parts). checkable (fillDefault m) es"
    using time_sort.makeEntries_checkable [OF assms(1)] assms(6) by auto
  obtain res info where r: "checkParallel (fillDefault m) (map (makeEntries srt) parts) False 0 sched kill = Some (res, info)"
    using checkParallel_returns [OF assms(2) ok, of sched False 0 kill] assms(5,7) by auto
  note v = checkParallel_sound [OF assms(2) ok r]
  have "(res = Ok) = (\<forall>ops \<in> set parts. ops_linearizable m ops)"
    using v time_sort.linearizable_ops [OF assms(1), of m] by (cases res) auto
  then show ?thesis
    using r by (simp add: CheckOperations_def time_sort.checkOperations_run [OF assms(1,3,4)])
qed

subsection \<open>Properties\<close>

text \<open>Undo in the list of entries: on a list that holds a call and, after it, its return, \<^verbatim>\<open>lift\<close> does not
  panic and leaves the list without the two, and \<^verbatim>\<open>unlift\<close> of the same call restores the heap exactly as
  it was, in every field of every node.\<close>

lemma lift_unlift:
  assumes "dll h (xs @ e # ys @ m # zs)" and "xs \<noteq> []" and "h_match h e = Some m"
  shows "\<exists>h'. lift e h = Some h' \<and> dll h' (xs @ ys @ zs) \<and> unlift e h' = Some h"
  using lift_dll [OF assms] by blast

text \<open>C17: The search returns on every well-formed history, whatever the other goroutines do to the kill flag:
  it answers true only with a linearization of the history, which every element of the partial
  linearizations then points to, and when it never reads the flag as set it answers true exactly when
  the history is linearizable.\<close>

theorem checkSingle_decides:
  assumes "lawful m" and "wf_entries es" and "length es < 2 ^ 63" and "no_panic m es"
  shows "\<exists>b l. checkSingle m es computePartial kill = Some (b, l)
     \<and> (b \<longrightarrow> (\<exists>p ks. l = replicate (length es div 2) (Some (p, ks)) \<and> linearization m es {} (Init m) ks))
     \<and> ((\<forall>i. \<not> kill i) \<longrightarrow> (b \<longleftrightarrow> linearizable m es))"
proof -
  obtain eq where "lawful_model m eq" using assms(1) by (auto simp: lawful_def)
  note cases = lawful_model.checkSingle_cases [OF this assms(2-4), of computePartial kill]
  have path: "lin_path m (Init m) es ks \<longleftrightarrow> linearization m es {} (Init m) ks" for ks
    using lin_path_iff [OF assms(2), of m "Init m" "{}" ks] by (simp add: rest_of_def)
  from cases show ?thesis
    unfolding path can_iff_linearizable [OF assms(2)] by (elim disjE exE conjE) (auto simp: linearizable_def)
qed

theorem checkSingle_decides_witness:
  "\<exists>l. checkSingle (fillDefault KvModel) (makeEntries (sort_key time_key) sample_ops) False (\<lambda>_. False) = Some (True, l)"
  using checkSingle_decides [OF kv_lawful, of "makeEntries (sort_key time_key) sample_ops" False "\<lambda>_. False"]
    by_time.makeEntries_checkable [OF sample_proper] sample_linearizable by (auto simp: checkable_def)

text \<open>C16: The answer of \<^verbatim>\<open>CheckOperations\<close>, for every order in which the results of the partitions arrive:
  it returns, and it returns true exactly when the operations of every partition can be put in one
  order that respects real time and that the model accepts.\<close>

theorem CheckOperations_correct:
  assumes "time_sort srt" and "lawful (fillDefault m)"
    and "Partition (fillDefault m) = Some part" and "part history = Some parts" and "parts \<noteq> []"
    and "\<forall>ops \<in> set parts. proper_ops m ops" and "covers (length parts) sched"
  shows "CheckOperations srt m history sched kill = Some (\<forall>ops \<in> set parts. ops_linearizable m ops)"
  using assms by (rule CheckOperations_verdict)

theorem CheckOperations_correct_witness:
  "CheckOperations (sort_key time_key) KvModel sample_ops [Recv 0] (\<lambda>_ _. False) = Some True"
  using CheckOperations_correct [OF by_time.time_sort_axioms kv_lawful sample_partition, of "[Recv 0]" "\<lambda>_ _. False"]
    sample_proper sample_linearizable by (auto simp: covers_def)





text \<open>C22: \<^verbatim>\<open>CheckOperations\<close> with the key/value model never returns on the empty history, in any schedule:
  there is no partition, so no result arrives, and without a timeout nothing ends the wait.\<close>

theorem CheckOperations_empty_blocks: "CheckOperations srt KvModel [] sched kill = None"
proof -
  have "select_loop res 0 ci False sched got ok = None" for res ci got ok
  proof (induction sched)
    case (Cons x sched)
    then show ?case by (cases x) auto
  qed simp
  then show ?thesis
    by (simp add: CheckOperations_def checkOperations_def KvModel_def kv_Partition_def checkParallel_def Let_def)
qed

end
