(* ===== verification/Kv_Locality.thy ===== *)
theory Kv_Locality
  imports Porcupine "HOL-Library.Multiset"
begin

text \<open>
  Locality of the key/value model.  \<^verbatim>\<open>model.go\<close> asks of \<^verbatim>\<open>Partition\<close> that a history be linearizable
  exactly when every part is.  The model of \<^verbatim>\<open>kv.go\<close> has the state of one key only; here the store is
  the whole map from keys to values, and the partition by key meets the contract with respect to it.
  The points at which the operations on one key take effect are the running maxima of their call
  times, and the orders of the keys are merged by a stable sort of the points.
\<close>

subsection \<open>The store as one object\<close>

definition StoreModel :: "(string \<Rightarrow> string, kv_iface) Model" where
  "StoreModel = \<lparr>Partition = None, PartitionEvent = None, Init = (\<lambda>_. kv_Init),
     Step = (\<lambda>st input output. do {
       inp \<leftarrow> assert_KvInput input;
       (ok, v) \<leftarrow> kv_Step (st (kv_Key inp)) input output;
       Some (ok, st(kv_Key inp := v))
     }), Equal = None\<rparr>"

subsection \<open>Linearizations as arrangements of the operations\<close>

abbreviation realtime :: "'v Operation list \<Rightarrow> bool" where
  "realtime \<equiv> sorted_wrt (\<lambda>a b. \<not> op_Return b < op_Call a)"

lemma mset_image_list:
  "mset qs = image_mset f M \<Longrightarrow> \<exists>p. mset p = M \<and> map f p = qs"
proof (induction qs arbitrary: M)
  case (Cons q qs)
  then have "q \<in># image_mset f M" by (metis list.set_intros(1) set_mset_mset)
  then obtain i where i: "i \<in># M" "q = f i" by auto
  then obtain N where N: "M = add_mset i N" by (meson mset_add)
  with Cons i obtain p where "mset p = N" "map f p = qs" by fastforce
  with i N show ?case by (intro exI [of _ "i # p"]) simp
qed simp

lemma mset_index_list: "distinct p \<and> set p = {..<n} \<longleftrightarrow> mset p = mset [0..<n]"
  by (metis atLeast_upt distinct_upt mset_eq_imp_distinct_iff set_eq_iff_mset_eq_distinct)

lemma ops_linearizable_iff:
  "ops_linearizable m ops \<longleftrightarrow> (\<exists>qs. mset qs = mset ops \<and> realtime qs \<and> run_ops m (Init m) qs)"
proof -
  have img: "image_mset ((!) ops) (mset [0..<length ops]) = mset ops" by (metis map_nth mset_map)
  have "(\<exists>p. mset p = mset [0..<length ops] \<and> map ((!) ops) p = qs) \<longleftrightarrow> mset qs = mset ops" for qs
    using mset_image_list [of qs "(!) ops" "mset [0..<length ops]"] img by (metis mset_map)
  moreover have "linearizes m ops p \<longleftrightarrow> mset p = mset [0..<length ops]
      \<and> realtime (map ((!) ops) p) \<and> run_ops m (Init m) (map ((!) ops) p)" for p
    unfolding linearizes_def mset_index_list [symmetric] sorted_wrt_map by blast
  ultimately show ?thesis unfolding ops_linearizable_def by metis
qed

subsection \<open>Runs of the store and of its keys\<close>

abbreviation on_key :: "string \<Rightarrow> kv_iface Operation list \<Rightarrow> kv_iface Operation list" where
  "on_key k \<equiv> filter (\<lambda>v. key_of v = k)"

lemma store_step:
  assumes "assert_KvInput (op_Input v) \<noteq> None"
  shows "Step StoreModel st (op_Input v) w =
    (case Step KvModel (st (key_of v)) (op_Input v) w of None \<Rightarrow> None | Some (ok, x) \<Rightarrow> Some (ok, st(key_of v := x)))"
  using assms by (cases "op_Input v") (auto simp: StoreModel_def KvModel_def key_of_def assert_KvInput_def split: option.splits Option.bind_splits)

lemma store_init: "Init StoreModel = (\<lambda>_. Init KvModel)"
  by (simp add: StoreModel_def KvModel_def)

lemma run_store_iff:
  assumes "\<forall>v \<in> set qs. assert_KvInput (op_Input v) \<noteq> None"
  shows "run_ops StoreModel st qs \<longleftrightarrow> (\<forall>k. run_ops KvModel (st k) (on_key k qs))"
  using assms
proof (induction qs arbitrary: st)
  case (Cons v qs)
  let ?k = "key_of v"
  show ?case
  proof (cases "Step KvModel (st ?k) (op_Input v) (op_Output v)")
    case None
    then show ?thesis using Cons.prems by (auto simp: store_step intro: exI [of _ ?k])
  next
    case (Some r)
    obtain ok x where r: "r = (ok, x)" by force
    have "run_ops StoreModel st (v # qs) \<longleftrightarrow> ok \<and> (\<forall>k. run_ops KvModel ((st(?k := x)) k) (on_key k qs))"
      using Cons Some by (simp add: store_step r del: fun_upd_apply)
    also have "\<dots> \<longleftrightarrow> (\<forall>k. run_ops KvModel (st k) (on_key k (v # qs)))"
      using Some by (auto simp: r)
    finally show ?thesis .
  qed
qed simp

subsection \<open>Points of linearization\<close>

fun points :: "int \<Rightarrow> 'v Operation list \<Rightarrow> (int \<times> 'v Operation) list" where
  "points c [] = []"
| "points c (v # vs) = (max c (op_Call v), v) # points (max c (op_Call v)) vs"

lemma points_snd [simp]: "map snd (points c vs) = vs"
  by (induction c vs rule: points.induct) auto

lemma points_sorted: "sorted (map fst (points c vs)) \<and> (\<forall>x \<in> set (points c vs). c \<le> fst x)"
  by (induction c vs rule: points.induct) auto

lemma points_between:
  assumes "\<forall>v \<in> set vs. c \<le> op_Return v \<and> op_Call v \<le> op_Return v" and "realtime vs" and "(t, v) \<in> set (points c vs)"
  shows "op_Call v \<le> t \<and> t \<le> op_Return v"
  using assms by (induction c vs rule: points.induct) (auto simp: not_less)

lemma points_mem: "x \<in> set (points c vs) \<Longrightarrow> snd x \<in> set vs"
  by (metis image_eqI list.set_map points_snd)

text \<open>The orders of the keys, merged by the points.\<close>

definition merged :: "int \<Rightarrow> (string \<Rightarrow> kv_iface Operation list) \<Rightarrow> string list \<Rightarrow> (int \<times> kv_iface Operation) list" where
  "merged c Q ks = sort_key fst (concat (map (\<lambda>k. points c (Q k)) ks))"

lemma filter_concat_points:
  assumes "distinct ks" and "\<And>k v. v \<in> set (Q k) \<Longrightarrow> key_of v = k"
  shows "filter (\<lambda>x. key_of (snd x) = k) (concat (map (\<lambda>k. points c (Q k)) ks)) = (if k \<in> set ks then points c (Q k) else [])"
proof -
  have "filter (\<lambda>x. key_of (snd x) = k) (points c (Q j)) = (if j = k then points c (Q j) else [])" for j
  proof -
    have "key_of (snd x) = j" if "x \<in> set (points c (Q j))" for x using assms(2) points_mem [OF that] by blast
    then show ?thesis by (auto simp: filter_empty_conv filter_id_conv)
  qed
  with assms(1) show ?thesis by (induction ks) auto
qed

lemma merged_on_key:
  assumes "distinct ks" and "\<And>k v. v \<in> set (Q k) \<Longrightarrow> key_of v = k"
  shows "on_key k (map snd (merged c Q ks)) = (if k \<in> set ks then Q k else [])"
proof -
  have "sort_key fst (points c (Q k)) = points c (Q k)" by (simp add: points_sorted sort_key_id_if_sorted)
  then show ?thesis
    unfolding merged_def filter_map filter_sort comp_def using filter_concat_points [OF assms, where k = k and c = c] by simp
qed

lemma merged_realtime:
  assumes "\<And>k v. v \<in> set (Q k) \<Longrightarrow> c \<le> op_Return v \<and> op_Call v \<le> op_Return v" and "\<And>k. realtime (Q k)"
  shows "realtime (map snd (merged c Q ks))"
proof -
  have "sorted_wrt (\<lambda>x y. fst x \<le> fst y) (merged c Q ks)" by (simp add: merged_def flip: sorted_wrt_map)
  moreover have "op_Call (snd x) \<le> fst x \<and> fst x \<le> op_Return (snd x)" if "x \<in> set (merged c Q ks)" for x
    using that points_between [of _ c "fst x" "snd x"] assms by (auto simp: merged_def)
  ultimately show ?thesis unfolding sorted_wrt_map by (elim sorted_wrt_mono_rel [rotated]) (meson leD order_trans)
qed

subsection \<open>Locality\<close>

lemma store_local:
  assumes inp: "\<forall>v \<in> set h. assert_KvInput (op_Input v) \<noteq> None" and times: "\<forall>v \<in> set h. op_Call v \<le> op_Return v"
  shows "ops_linearizable StoreModel h \<longleftrightarrow> (\<forall>k \<in> key_of ` set h. ops_linearizable KvModel (on_key k h))"
proof
  assume "ops_linearizable StoreModel h"
  then obtain qs where qs: "mset qs = mset h" "realtime qs" "run_ops StoreModel (Init StoreModel) qs"
    by (auto simp: ops_linearizable_iff)
  have "run_ops KvModel (Init KvModel) (on_key k qs)" for k
    using qs(3) unfolding run_store_iff [of qs "Init StoreModel", OF inp [folded mset_eq_setD [OF qs(1)]]] by (simp add: store_init)
  then have "ops_linearizable KvModel (on_key k h)" for k
    unfolding ops_linearizable_iff using qs(1,2) by (intro exI [of _ "on_key k qs"]) (simp add: sorted_wrt_filter)
  then show "\<forall>k \<in> key_of ` set h. ops_linearizable KvModel (on_key k h)" by blast
next
  assume "\<forall>k \<in> key_of ` set h. ops_linearizable KvModel (on_key k h)"
  moreover have "ops_linearizable KvModel []" by (simp add: ops_linearizable_iff)
  ultimately have "ops_linearizable KvModel (on_key k h)" for k
    by (cases "on_key k h = []") (auto simp: filter_empty_conv)
  then obtain Q where Q: "\<And>k. mset (Q k) = mset (on_key k h)" "\<And>k. realtime (Q k)" "\<And>k. run_ops KvModel (Init KvModel) (Q k)"
    unfolding ops_linearizable_iff by metis
  have mem: "v \<in> set (Q k) \<longleftrightarrow> v \<in> set h \<and> key_of v = k" for k v using mset_eq_setD [OF Q(1)] by simp
  obtain ks where ks: "set ks = key_of ` set h" "distinct ks" using finite_distinct_list [of "key_of ` set h"] by auto
  define c where "c = Min (insert 0 (op_Return ` set h))"
  let ?qs = "map snd (merged c Q ks)"
  have part: "on_key k ?qs = Q k" for k
  proof (cases "k \<in> set ks")
    case False
    then have "v \<notin> set (Q k)" for v using mem [of v k] ks(1) by auto
    then have "Q k = []" by (metis hd_in_set)
    with merged_on_key [OF ks(2), of Q k c] mem False show ?thesis by simp
  qed (use merged_on_key [OF ks(2), of Q k c] mem in simp)
  have "filter_mset (\<lambda>v. key_of v = k) (mset ?qs) = filter_mset (\<lambda>v. key_of v = k) (mset h)" for k
    using Q(1) [of k] part [of k] by (metis mset_filter)
  then have ms: "mset ?qs = mset h" by (metis (mono_tags, lifting) count_filter_mset multiset_eqI)
  moreover have "realtime ?qs" using mem times Q(2) by (intro merged_realtime) (auto simp: c_def)
  moreover have "run_ops StoreModel (Init StoreModel) ?qs"
    unfolding run_store_iff [of ?qs "Init StoreModel", OF inp [folded mset_eq_setD [OF ms]]] part using Q(3) by (simp add: store_init)
  ultimately show "ops_linearizable StoreModel h" unfolding ops_linearizable_iff by blast
qed

text \<open>C20: The contract of \<^verbatim>\<open>Partition\<close>, and with it the answer of \<^verbatim>\<open>CheckOperations\<close> with the key/value model, for
  the store as a whole: although the checker searches the history of each key alone, it answers true
  exactly when all the operations together can be put in one order that respects real time and in
  which every get returns what the puts and appends before it left under its key.\<close>

theorem CheckOperations_kv_store:
  assumes "time_sort srt" and "history \<noteq> []" and "proper_ops KvModel history"
    and "covers (card (key_of ` set history)) sched"
  shows "CheckOperations srt KvModel history sched kill = Some (ops_linearizable StoreModel history)"
proof -
  have inp: "\<forall>v \<in> set history. assert_KvInput (op_Input v) \<noteq> None" and times: "\<forall>v \<in> set history. op_Call v \<le> op_Return v"
    using assms(3) by (auto simp: proper_ops_def KvModel_def kv_Step_def split: Option.bind_splits)
  obtain ks where ks: "distinct ks" "set ks = key_of ` set history" "kv_Partition history = Some (map (\<lambda>k. on_key k history) ks)"
    using kv_Partition_by_key [OF inp] by blast
  let ?parts = "map (\<lambda>k. on_key k history) ks"
  have proper: "\<forall>ops \<in> set ?parts. proper_ops KvModel ops"
    using assms(3) by (auto simp: proper_ops_def intro: le_less_trans [OF length_filter_le])
  have "length ?parts = card (key_of ` set history)" using ks(1,2) distinct_card by fastforce
  with assms(2,4) ks(2) have ok: "?parts \<noteq> []" "covers (length ?parts) sched" by auto
  have "CheckOperations srt KvModel history sched kill = Some (\<forall>ops \<in> set ?parts. ops_linearizable KvModel ops)"
    using CheckOperations_verdict [OF assms(1) kv_lawful sample_partition(1) ks(3) ok(1) proper ok(2)] .
  also have "(\<forall>ops \<in> set ?parts. ops_linearizable KvModel ops) = ops_linearizable StoreModel history"
    using store_local [OF inp times] by (simp add: ks(2))
  finally show ?thesis .
qed

theorem CheckOperations_kv_store_witness:
  "CheckOperations (sort_key time_key) KvModel sample_ops [Recv 0] (\<lambda>_ _. False) = Some (ops_linearizable StoreModel sample_ops)"
  by (rule CheckOperations_kv_store [OF by_time.time_sort_axioms _ sample_proper])
    (simp_all add: sample_ops_def kv_op_def key_of_def covers_def)

end
