(* ===== verification/Partial_Lin.thy ===== *)
theory Partial_Lin
  imports Check_Parallel
begin

text \<open>
  The partial linearizations that the search leaves in \<^verbatim>\<open>longest\<close> and that the visualization replays.
  An invariant of the loop, kept by every iteration whether the search succeeds, fails or is killed:
  the stack of calls is a run of the model from its initial state, and so is every slice in
  \<^verbatim>\<open>longest\<close>.
\<close>

subsection \<open>Runs on the nodes of the heap\<close>

text \<open>The calls, each with the state before it, are accepted by the model one after the other.\<close>

fun trace :: "('s, 'v) Model \<Rightarrow> 'v heap \<Rightarrow> 's \<Rightarrow> (nat \<times> 's) list \<Rightarrow> 's \<Rightarrow> bool" where
  "trace m h s [] s' \<longleftrightarrow> s' = s"
| "trace m h s ((a, t) # calls) s' \<longleftrightarrow> t = s \<and> (\<exists>r v w s1. h_match h a = Some r \<and> h_value h a = Some v \<and> h_value h r = Some w
     \<and> Step m s v w = Some (True, s1) \<and> trace m h s1 calls s')"

definition same_nodes :: "'v heap \<Rightarrow> 'v heap \<Rightarrow> bool" where
  "same_nodes h h' \<longleftrightarrow> h_match h' = h_match h \<and> h_value h' = h_value h \<and> h_id h' = h_id h"

definition traced :: "('s, 'v) Model \<Rightarrow> 'v heap \<Rightarrow> int list \<Rightarrow> bool" where
  "traced m h ks \<longleftrightarrow> (\<exists>calls s. trace m h (Init m) calls s \<and> ks = call_ids h calls)"

definition tracing :: "('s, 'v) Model \<Rightarrow> 'v heap \<Rightarrow> ('s, 'v) search \<Rightarrow> bool" where
  "tracing m h cs \<longleftrightarrow> same_nodes h (s_heap cs) \<and> trace m h (Init m) (s_calls cs) (s_state cs)
     \<and> (\<forall>p ks. Some (p, ks) \<in> set (s_longest cs) \<longrightarrow> traced m h ks)"

lemma trace_append: "trace m h s (xs @ ys) s' \<longleftrightarrow> (\<exists>t. trace m h s xs t \<and> trace m h t ys s')"
  by (induction m h s xs s' arbitrary: s rule: trace.induct) auto

lemma lift_same_nodes: "lift e h = Some h' \<Longrightarrow> same_nodes h h'"
  by (auto simp: lift_def same_nodes_def option_bind_simps Let_def split: option.splits)

lemma unlift_same_nodes: "unlift e h = Some h' \<Longrightarrow> same_nodes h h'"
  by (auto simp: unlift_def same_nodes_def option_bind_simps Let_def split: option.splits)

lemma same_nodes_trans: "same_nodes h h' \<Longrightarrow> same_nodes h' h'' \<Longrightarrow> same_nodes h h''"
  by (simp add: same_nodes_def)

lemma longest_loop_members:
  "longest_loop h sq vs lg = Some lg' \<Longrightarrow> set lg' \<subseteq> insert (Some sq) (set lg)"
proof (induction vs arbitrary: lg)
  case (Cons v vs)
  from Cons.prems obtain lg1 where lg1: "lg1 = lg \<or> slice_set lg (h_id h (fst v)) (Some sq) = Some lg1"
    "longest_loop h sq vs lg1 = Some lg'" by (auto simp: option_bind_simps split: if_splits)
  then have "set lg1 \<subseteq> insert (Some sq) (set lg)" using set_update_subset_insert by (fastforce simp: slice_set_Some_iff)
  with Cons.IH [OF lg1(2)] show ?case by blast
qed auto

subsection \<open>The invariant of the loop\<close>

lemma push_call_tracing:
  assumes "push_call head e lin s1 cs = Some cs'" and "tracing m h cs"
    and "h_match (s_heap cs) e = Some r" and "h_value (s_heap cs) e = Some v" and "h_value (s_heap cs) r = Some w"
    and "Step m (s_state cs) v w = Some (True, s1)"
  shows "tracing m h cs'"
proof -
  obtain h' where h': "lift e (s_heap cs) = Some h'" "s_heap cs' = h'" "s_calls cs' = s_calls cs @ [(e, s_state cs)]"
    "s_state cs' = s1" "s_longest cs' = s_longest cs"
    using assms(1) by (auto simp: push_call_def Let_def option_bind_simps)
  moreover have "trace m h (Init m) (s_calls cs @ [(e, s_state cs)]) s1"
    using assms(2-6) by (auto simp: trace_append tracing_def same_nodes_def)
  ultimately show ?thesis
    using assms(2) same_nodes_trans [OF _ lift_same_nodes [OF h'(1)]] by (simp add: tracing_def)
qed

lemma pop_call_tracing:
  assumes "pop_call cp cs = Some cs'" and "s_calls cs \<noteq> []" and t: "tracing m h cs"
  shows "tracing m h cs'"
proof -
  obtain calls a s where calls: "s_calls cs = calls @ [(a, s)]" using assms(2) by (metis rev_exhaust surj_pair)
  obtain h' lg where h': "unlift a (s_heap cs) = Some h'" "s_heap cs' = h'" "s_calls cs' = calls" "s_state cs' = s"
      "s_longest cs' = lg"
    and lg: "(if cp then longest_loop (s_heap cs) (s_iter cs, call_ids (s_heap cs) (s_calls cs)) (s_calls cs) (s_longest cs)
        else Some (s_longest cs)) = Some lg"
    using assms(1) calls by (auto simp: pop_call_def Let_def option_bind_simps)
  have "call_ids (s_heap cs) (s_calls cs) = call_ids h (s_calls cs)" using t by (simp add: tracing_def same_nodes_def call_ids_def)
  then have "traced m h (call_ids (s_heap cs) (s_calls cs))" using t by (auto simp: tracing_def traced_def)
  moreover have "set lg \<subseteq> insert (Some (s_iter cs, call_ids (s_heap cs) (s_calls cs))) (set (s_longest cs))"
    using lg longest_loop_members by (fastforce split: if_splits)
  ultimately have "\<forall>p ks. Some (p, ks) \<in> set lg \<longrightarrow> traced m h ks" using t by (auto simp: tracing_def)
  moreover have "trace m h (Init m) calls s" using t by (auto simp: tracing_def calls trace_append)
  ultimately show ?thesis
    using h' t same_nodes_trans [OF _ unlift_same_nodes [OF h'(1)]] by (simp add: tracing_def)
qed

lemma check_step_tracing:
  assumes "check_step m cp killed head cs = Some r" and t: "tracing m h cs"
  shows "case r of Again cs' \<Rightarrow> tracing m h cs' | Ret b l \<Rightarrow> \<forall>p ks. Some (p, ks) \<in> set l \<longrightarrow> traced m h ks"
proof -
  have upd: "tracing m h (cs'\<lparr>s_iter := i\<rparr>) = tracing m h cs'" "tracing m h (cs'\<lparr>s_entry := x\<rparr>) = tracing m h cs'" for cs' i x
    by (simp_all add: tracing_def)
  show ?thesis
  proof (cases "killed")
    case True
    then show ?thesis using assms by (auto simp: check_step_def tracing_def)
  next
    case False
    then obtain e where e: "s_entry cs = Some e" using assms(1) by (auto simp: check_step_def option_bind_simps)
    show ?thesis
    proof (cases "h_match (s_heap cs) e")
      case None
      then show ?thesis
        using assms False e pop_call_tracing [OF _ _ t, of cp]
        by (cases "s_calls cs = []") (auto simp: check_step_def tick_def upd tracing_def [of m h cs])
    next
      case (Some mt)
      obtain v w ok s1 where step: "h_value (s_heap cs) e = Some v" "h_value (s_heap cs) mt = Some w"
        "Step m (s_state cs) v w = Some (ok, s1)"
        using assms(1) False e Some by (auto simp: check_step_def Let_def option_bind_simps)
      have "r = tick (cs\<lparr>s_entry := h_next (s_heap cs) e\<rparr>) \<or>
          (ok \<and> (\<exists>lin cs'. push_call (head) e lin s1 cs = Some cs' \<and> r = tick cs'))"
        using assms(1) False e Some step by (auto simp: check_step_def Let_def option_bind_simps split: if_splits)
      then show ?thesis
      proof (elim disjE conjE exE)
        fix lin cs' assume "ok" "push_call head e lin s1 cs = Some cs'" "r = tick cs'"
        with push_call_tracing [of head e lin s1 cs cs' m h] t Some step show ?thesis by (simp add: tick_def upd)
      qed (simp add: tick_def upd t)
    qed
  qed
qed

lemma check_loop_traced:
  assumes run: "check_loop m cp kill head cs = Some (b, l)" and "tracing m h cs"
  shows "Some (p, ks) \<in> set l \<Longrightarrow> traced m h ks"
proof -
  have step: "\<forall>p ks. Some (p, ks) \<in> set (snd y) \<longrightarrow> traced m h ks"
    if IH: "\<And>m cp kill head cs y. f m cp kill head cs = Some y \<Longrightarrow> tracing m h cs \<Longrightarrow> \<forall>p ks. Some (p, ks) \<in> set (snd y) \<longrightarrow> traced m h ks"
      and r: "(if h_next (s_heap cs) head = None
          then (let sq = (s_iter cs, call_ids (s_heap cs) (s_calls cs)) in Some (True, map (\<lambda>_. Some sq) (s_longest cs)))
          else do { r \<leftarrow> check_step m cp (kill (s_iter cs)) head cs;
            case r of Ret b l \<Rightarrow> Some (b, l) | Again cs' \<Rightarrow> f m cp kill head cs' }) = Some y"
      and t: "tracing m h cs"
    for f m cp kill head cs y
  proof (cases "h_next (s_heap cs) head = None")
    case True
    have "call_ids (s_heap cs) (s_calls cs) = call_ids h (s_calls cs)" using t by (simp add: tracing_def same_nodes_def call_ids_def)
    then show ?thesis using True r t by (auto simp: Let_def traced_def tracing_def)
  next
    case False
    with r obtain o' where o': "check_step m cp (kill (s_iter cs)) head cs = Some o'"
      "(case o' of Ret b l \<Rightarrow> Some (b, l) | Again cs' \<Rightarrow> f m cp kill head cs') = Some y"
      by (auto simp: option_bind_simps)
    then show ?thesis using check_step_tracing [OF o'(1) t] IH by (cases o') auto
  qed
  have "tracing m h cs \<longrightarrow> (\<forall>p ks. Some (p, ks) \<in> set (snd (b, l)) \<longrightarrow> traced m h ks)"
    by (rule check_loop.raw_induct [of "\<lambda>m cp kill head cs y. tracing m h cs \<longrightarrow> (\<forall>p ks. Some (p, ks) \<in> set (snd y) \<longrightarrow> traced m h ks)",
          OF _ run]) (use step in blast)
  with assms(2) show "Some (p, ks) \<in> set l \<Longrightarrow> traced m h ks" by simp
qed

subsection \<open>Partial linearizations are accepted by the model\<close>

lemma makeLinked_loop_fresh:
  "makeLinked_loop es root match h = (root', h') \<Longrightarrow> \<forall>a \<ge> h_size h. h_match h a = None
   \<Longrightarrow> (\<forall>a \<ge> h_size h'. h_match h' a = None)"
proof (induction es arbitrary: root match h)
  case (Cons e es)
  have ins: "h_size (insertBefore n mk g) = h_size g" "h_match (insertBefore n mk g) = h_match g" for n mk and g :: "'a heap"
    by (auto simp: insertBefore_def Let_def split: option.splits)
  obtain root1 match1 h1 where h1: "makeLinked_loop es root1 match1 h1 = (root', h')" "\<forall>a \<ge> h_size h1. h_match h1 a = None"
    using Cons.prems by (auto simp: new_node_def Let_def ins split: if_splits)
  show ?case by (rule Cons.IH [OF h1])
qed auto

lemma start_search_nodes:
  assumes "wf_entries es" and "start_search m es = Some (hn, cs)"
  shows "tracing m (s_heap cs) cs" and "a < length es \<Longrightarrow> node_of (rev es) (s_heap cs) a"
    and "length es \<le> a \<Longrightarrow> h_match (s_heap cs) a = None"
proof -
  obtain cs' where cs': "start_search m es = Some (length es, cs')" "good es cs' (rev [0..<length es])" "s_calls cs' = []"
    "s_state cs' = Init m" using start_search_good [OF assms(1)] by blast
  then have [simp]: "cs' = cs" "hn = length es" using assms(2) by auto
  show "node_of (rev es) (s_heap cs) a" if "a < length es" using good_nodes [OF cs'(2) that] by simp
  obtain root h where l: "makeLinkedEntries es empty_heap = (root, h)" "chain h root (length es)"
    using makeLinkedEntries_chain [OF wf_one_return [OF assms(1)]] by blast
  obtain hd' h1 where new: "new_node None None (- 1) h = (hd', h1)" by fastforce
  have cs: "s_heap cs = insertBefore hd' root h1" "s_longest cs = replicate (length es div 2) None"
    using assms(2) l node_length_chain [OF l(2)] new by (auto simp: start_search_def Let_def)
  show "tracing m (s_heap cs) cs" using cs'(3,4) cs(2) by (simp add: tracing_def same_nodes_def)
  have "\<forall>a \<ge> length es. h_match h a = None"
    using makeLinked_loop_fresh [of "rev es" None Map.empty empty_heap root h] l
    by (auto simp: makeLinkedEntries_def chain_def empty_heap_def)
  then show "h_match (s_heap cs) a = None" if "length es \<le> a"
    using insert_chain(4) [OF l(2) new] that unfolding cs(1) by simp
qed

lemma trace_legal:
  assumes "\<And>a. a < length es \<Longrightarrow> node_of (rev es) h a" and "\<And>a. length es \<le> a \<Longrightarrow> h_match h a = None"
    and "trace m h s calls s'"
  shows "legal m es s (call_ids h calls)"
  using assms(3)
proof (induction calls arbitrary: s)
  case (Cons c calls)
  obtain a where c: "c = (a, s)" using Cons.prems by (cases c) auto
  from Cons.prems obtain r v w s1 where r: "h_match h a = Some r" "h_value h a = Some v" "h_value h r = Some w"
    "Step m s v w = Some (True, s1)" "trace m h s1 calls s'" by (auto simp: c)
  have a: "a < length es" using assms(2) [of a] r(1) by (cases "a < length es") auto
  then have n: "en_kind (ent es a) = callEntry" "r < a" "en_kind (ent es r) = returnEntry" "en_id (ent es r) = en_id (ent es a)"
    "h_id h a = en_id (ent es a)" "v = en_value (ent es a)"
    using assms(1) [OF a] r by (auto simp: node_of_def)
  then have w: "w = en_value (ent es r)" "r < length es" using assms(1) [of r] r(3) a by (auto simp: node_of_def)
  from Cons.IH [OF r(5)] have "legal m es s1 (call_ids h calls)" .
  with n a r w have "legal m es s (en_id (ent es a) # call_ids h calls)" unfolding legal_Cons_addr by blast
  with n(5) show ?case by (simp add: c call_ids_def)
qed (simp add: call_ids_def)

lemma checkSingle_partial_legal:
  assumes "wf_entries es" and "checkSingle m es cp kill = Some (b, l)" and "Some (p, ks) \<in> set l"
  shows "legal m es (Init m) ks"
proof -
  obtain hn cs where cs: "start_search m es = Some (hn, cs)" "check_loop m cp kill hn cs = Some (b, l)"
    using assms(2) by (auto simp: checkSingle_def option_bind_simps)
  note st = start_search_nodes [OF assms(1) cs(1)]
  have "traced m (s_heap cs) ks" using check_loop_traced [OF cs(2) st(1) assms(3)] .
  then show ?thesis using trace_legal [OF st(2,3)] by (auto simp: traced_def)
qed

text \<open>What \<^verbatim>\<open>checkParallel\<close> hands to the visualization.\<close>

definition info_ok :: "('s, 'v) Model \<Rightarrow> 'v linearizationInfo \<Rightarrow> bool" where
  "info_ok m info \<longleftrightarrow> length (li_partialLinearizations info) = length (li_history info)
     \<and> (\<forall>i < length (li_history info). \<forall>ks \<in># li_partialLinearizations info ! i. legal m (li_history info ! i) (Init m) ks)"

lemma partials_mem: "ks \<in># partials lg \<Longrightarrow> \<exists>p. Some (p, ks) \<in> set lg"
  by (auto simp: partials_def split: option.splits)

lemma those_nth: "those xs = Some ys \<Longrightarrow> length ys = length xs \<and> (\<forall>i < length xs. xs ! i = Some (ys ! i))"
  by (induction xs arbitrary: ys) (auto simp: less_Suc_eq_0_disj split: option.splits)

lemma checkParallel_info:
  assumes "\<forall>es \<in> set hs. wf_entries es" and "checkParallel m hs True timeout sched kill = Some (res, info)"
  shows "li_history info = hs" and "info_ok m info"
proof -
  obtain got lg where lg: "those (map (\<lambda>i. map_option snd
      (checkSingle m (hs ! i) True (if i \<in> set got then (\<lambda>_. False) else kill i))) [0..<length hs]) = Some lg"
    "info = \<lparr>li_history = hs, li_partialLinearizations = map partials lg\<rparr>"
    using assms(2) by (auto simp: checkParallel_def Let_def option_bind_simps)
  note n = those_nth [OF lg(1)]
  show "li_history info = hs" by (simp add: lg(2))
  have "legal m (hs ! i) (Init m) ks" if i: "i < length hs" and ks: "ks \<in># partials (lg ! i)" for i ks
  proof -
    obtain b where "checkSingle m (hs ! i) True (if i \<in> set got then (\<lambda>_. False) else kill i) = Some (b, lg ! i)"
      using n [THEN conjunct2, rule_format, of i] i by (auto cong: if_cong)
    moreover obtain p where "Some (p, ks) \<in> set (lg ! i)" using partials_mem [OF ks] by blast
    ultimately show ?thesis using checkSingle_partial_legal assms(1) i nth_mem by metis
  qed
  with n show "info_ok m info" by (simp add: info_ok_def lg(2))
qed

end

