(* ===== verification/Visualization.thy ===== *)
theory Visualization
  imports Partial_Lin Porcupine "HOL-Library.List_Lexorder"
begin

text \<open>
  \<^verbatim>\<open>src/porcupine/visualization.go\<close>: the data that the visualization of a history shows, computed from
  what the verbose functions of the checker return.  The program panics when a partial linearization
  is not accepted by the model.  The page itself, a constant string with a script, is an argument.

  \<open>arrange\<close> stands for the order in which the range over the map in \<^verbatim>\<open>checkParallel\<close> gives the
  partial linearizations, followed by \<^verbatim>\<open>sort.Slice\<close> by decreasing length, which is not stable.
\<close>

subsection \<open>The program\<close>

record historyElement =
  he_ClientId :: int
  he_Start :: int
  he_End :: int
  he_Description :: string

record linearizationStep =
  ls_Index :: int
  ls_StateDescription :: string

type_synonym partialLinearization = "linearizationStep list"

record partitionVisualizationData =
  pv_History :: "historyElement list"
  pv_PartialLinearizations :: "partialLinearization list"
  pv_Largest :: "int \<rightharpoonup> int"

type_synonym visualizationData = "partitionVisualizationData list"

text \<open>The two fields of \<^verbatim>\<open>Model\<close> that only the visualization uses; \<open>fmtv\<close> and \<open>fmts\<close> print a value by \<^verbatim>\<open>%v\<close>.\<close>

record ('s, 'v) describer =
  DescribeOperation :: "('v \<Rightarrow> 'v \<Rightarrow> string option) option"
  DescribeState :: "('s \<Rightarrow> string option) option"

definition DefaultDescribeOperation :: "('v \<Rightarrow> string) \<Rightarrow> 'v \<Rightarrow> 'v \<Rightarrow> string option" where
  "DefaultDescribeOperation fmtv input output = Some (fmtv input @ '' -> '' @ fmtv output)"

definition DefaultDescribeState :: "('s \<Rightarrow> string) \<Rightarrow> 's \<Rightarrow> string option" where
  "DefaultDescribeState fmts state = Some (fmts state)"

definition fillDescribe :: "('v \<Rightarrow> string) \<Rightarrow> ('s \<Rightarrow> string) \<Rightarrow> ('s, 'v) describer \<Rightarrow> ('s, 'v) describer" where
  "fillDescribe fmtv fmts d =
     (let d1 = (if DescribeOperation d = None then d\<lparr>DescribeOperation := Some (DefaultDescribeOperation fmtv)\<rparr> else d)
      in if DescribeState d1 = None then d1\<lparr>DescribeState := Some (DefaultDescribeState fmts)\<rparr> else d1)"

text \<open>Reading a map of values at a missing key gives the nil interface, the argument \<open>nil\<close>.\<close>

definition value_at :: "'v \<Rightarrow> (int \<rightharpoonup> 'v) \<Rightarrow> int \<Rightarrow> 'v" where
  "value_at nil mp k = (case mp k of None \<Rightarrow> nil | Some v \<Rightarrow> v)"

type_synonym 'v vis = "historyElement list \<times> (int \<rightharpoonup> 'v) \<times> (int \<rightharpoonup> 'v)"

definition vis_entry :: "('v \<Rightarrow> 'v \<Rightarrow> string option) \<Rightarrow> 'v \<Rightarrow> 'v entry \<Rightarrow> 'v vis \<Rightarrow> 'v vis option" where
  "vis_entry descr nil elem = (\<lambda>(history, callValue, returnValue).
     case en_kind elem of
       callEntry \<Rightarrow> do {
         he \<leftarrow> slice_get history (en_id elem);
         history' \<leftarrow> slice_set history (en_id elem) (he\<lparr>he_ClientId := en_clientId elem, he_Start := en_time elem\<rparr>);
         Some (history', callValue(en_id elem \<mapsto> en_value elem), returnValue)
       }
     | returnEntry \<Rightarrow> do {
         he \<leftarrow> slice_get history (en_id elem);
         desc \<leftarrow> descr (value_at nil callValue (en_id elem)) (en_value elem);
         history' \<leftarrow> slice_set history (en_id elem) (he\<lparr>he_End := en_time elem, he_Description := desc\<rparr>);
         Some (history', callValue, returnValue(en_id elem \<mapsto> en_value elem))
       })"

fun vis_history :: "('v \<Rightarrow> 'v \<Rightarrow> string option) \<Rightarrow> 'v \<Rightarrow> 'v entry list \<Rightarrow> 'v vis \<Rightarrow> 'v vis option" where
  "vis_history descr nil [] st = Some st"
| "vis_history descr nil (elem # es) st = do { st' \<leftarrow> vis_entry descr nil elem st; vis_history descr nil es st' }"

text \<open>The loop over one partial linearization: its steps and the maps \<^verbatim>\<open>largestSize\<close> and \<^verbatim>\<open>largestIndex\<close>.\<close>

fun vis_partial :: "('s, 'v) Model \<Rightarrow> ('s \<Rightarrow> string option) \<Rightarrow> (int \<Rightarrow> 'v) \<Rightarrow> (int \<Rightarrow> 'v) \<Rightarrow> int \<Rightarrow> nat \<Rightarrow> 's \<Rightarrow> int list
    \<Rightarrow> (int \<Rightarrow> nat) \<times> (int \<rightharpoonup> int) \<Rightarrow> (partialLinearization \<times> (int \<Rightarrow> nat) \<times> (int \<rightharpoonup> int)) option" where
  "vis_partial model descr cv rv i len state [] lg = Some ([], lg)"
| "vis_partial model descr cv rv i len state (histId # ids) (largestSize, largestIndex) = do {
     (ok, state') \<leftarrow> Step model state (cv histId) (rv histId);
     (if ok \<noteq> True then None
      else do {
        stateDesc \<leftarrow> descr state';
        let lg' = (if largestSize histId < len then (largestSize(histId := len), largestIndex(histId \<mapsto> i))
                   else (largestSize, largestIndex));
        (steps, lg'') \<leftarrow> vis_partial model descr cv rv i len state' ids lg';
        Some (\<lparr>ls_Index = histId, ls_StateDescription = stateDesc\<rparr> # steps, lg'')
      })
   }"

fun vis_partials :: "('s, 'v) Model \<Rightarrow> ('s \<Rightarrow> string option) \<Rightarrow> (int \<Rightarrow> 'v) \<Rightarrow> (int \<Rightarrow> 'v) \<Rightarrow> int \<Rightarrow> int list list
    \<Rightarrow> (int \<Rightarrow> nat) \<times> (int \<rightharpoonup> int) \<Rightarrow> (partialLinearization list \<times> (int \<Rightarrow> nat) \<times> (int \<rightharpoonup> int)) option" where
  "vis_partials model descr cv rv i [] lg = Some ([], lg)"
| "vis_partials model descr cv rv i (partial # rest) lg = do {
     (linearization, lg') \<leftarrow> vis_partial model descr cv rv i (length partial) (Init model) partial lg;
     (linearizations, lg'') \<leftarrow> vis_partials model descr cv rv (i + 1) rest lg';
     Some (linearization # linearizations, lg'')
   }"

definition vis_partition :: "(int list multiset \<Rightarrow> int list list) \<Rightarrow> 'v \<Rightarrow> ('s, 'v) Model \<Rightarrow> ('s, 'v) describer
    \<Rightarrow> 'v entry list \<Rightarrow> int list multiset \<Rightarrow> partitionVisualizationData option" where
  "vis_partition arrange nil model d es pls = do {
     descrOp \<leftarrow> DescribeOperation d;
     descrState \<leftarrow> DescribeState d;
     let n = length es div 2;
     (history, callValue, returnValue) \<leftarrow> vis_history descrOp nil es
        (replicate n \<lparr>he_ClientId = 0, he_Start = 0, he_End = 0, he_Description = []\<rparr>, Map.empty, Map.empty);
     (linearizations, _, largestIndex) \<leftarrow>
        vis_partials model descrState (value_at nil callValue) (value_at nil returnValue) 0 (arrange pls) ((\<lambda>_. 0), Map.empty);
     Some \<lparr>pv_History = history, pv_PartialLinearizations = linearizations, pv_Largest = largestIndex\<rparr>
   }"

definition computeVisualizationData :: "(int list multiset \<Rightarrow> int list list) \<Rightarrow> ('v \<Rightarrow> string) \<Rightarrow> ('s \<Rightarrow> string) \<Rightarrow> 'v
    \<Rightarrow> ('s, 'v) Model \<Rightarrow> ('s, 'v) describer \<Rightarrow> 'v linearizationInfo \<Rightarrow> visualizationData option" where
  "computeVisualizationData arrange fmtv fmts nil model0 d0 info =
     (let model = fillDefault model0; d = fillDescribe fmtv fmts d0 in
      those (map (\<lambda>partition. do {
          pls \<leftarrow> slice_get (li_partialLinearizations info) (int partition);
          vis_partition arrange nil model d (li_history info ! partition) pls
        }) [0..<length (li_history info)]))"

text \<open>
  \<^verbatim>\<open>Visualize\<close> and \<^verbatim>\<open>VisualizePath\<close>: the JSON encoder, the page with its hole for the data, the output and the
  creation of a file are arguments; an error of one of them is returned.
\<close>

definition Visualize :: "(int list multiset \<Rightarrow> int list list) \<Rightarrow> ('v \<Rightarrow> string) \<Rightarrow> ('s \<Rightarrow> string) \<Rightarrow> 'v
    \<Rightarrow> (visualizationData \<Rightarrow> 'err + string) \<Rightarrow> (string \<Rightarrow> string) \<Rightarrow> (string \<Rightarrow> 'w \<Rightarrow> 'err option \<times> 'w)
    \<Rightarrow> ('s, 'v) Model \<Rightarrow> ('s, 'v) describer \<Rightarrow> 'v linearizationInfo \<Rightarrow> 'w \<Rightarrow> ('err option \<times> 'w) option" where
  "Visualize arrange fmtv fmts nil marshal html write model d info output = do {
     dat \<leftarrow> computeVisualizationData arrange fmtv fmts nil model d info;
     Some (case marshal dat of
        Inl err \<Rightarrow> (Some err, output)
      | Inr jsonData \<Rightarrow>
          (case write (html jsonData) output of
             (Some err, output') \<Rightarrow> (Some err, output')
           | (None, output') \<Rightarrow> (None, output')))
   }"

definition VisualizePath :: "(int list multiset \<Rightarrow> int list list) \<Rightarrow> ('v \<Rightarrow> string) \<Rightarrow> ('s \<Rightarrow> string) \<Rightarrow> 'v
    \<Rightarrow> (visualizationData \<Rightarrow> 'err + string) \<Rightarrow> (string \<Rightarrow> string) \<Rightarrow> (string \<Rightarrow> 'w \<Rightarrow> 'err option \<times> 'w)
    \<Rightarrow> (string \<Rightarrow> 'err + 'w) \<Rightarrow> ('s, 'v) Model \<Rightarrow> ('s, 'v) describer \<Rightarrow> 'v linearizationInfo \<Rightarrow> string
    \<Rightarrow> ('err option \<times> 'w option) option" where
  "VisualizePath arrange fmtv fmts nil marshal html write create model d info path =
     (case create path of
        Inl err \<Rightarrow> Some (Some err, None)
      | Inr f \<Rightarrow> map_option (\<lambda>(err, f'). (err, Some f'))
          (Visualize arrange fmtv fmts nil marshal html write model d info f))"

subsection \<open>The table of operations\<close>

text \<open>What the table and the two maps hold after the entries \<open>pre\<close>.\<close>

definition vis_inv :: "('v \<Rightarrow> 'v \<Rightarrow> string option) \<Rightarrow> 'v \<Rightarrow> nat \<Rightarrow> 'v entry list \<Rightarrow> 'v vis \<Rightarrow> bool" where
  "vis_inv descr nil n pre st \<longleftrightarrow> length (fst st) = n
     \<and> (\<forall>e \<in> set pre. en_kind e = callEntry \<longrightarrow> fst (snd st) (en_id e) = Some (en_value e)
          \<and> he_ClientId (fst st ! nat (en_id e)) = en_clientId e \<and> he_Start (fst st ! nat (en_id e)) = en_time e)
     \<and> (\<forall>e \<in> set pre. en_kind e = returnEntry \<longrightarrow> snd (snd st) (en_id e) = Some (en_value e)
          \<and> he_End (fst st ! nat (en_id e)) = en_time e
          \<and> descr (value_at nil (fst (snd st)) (en_id e)) (en_value e) = Some (he_Description (fst st ! nat (en_id e))))"

definition describes :: "('v \<Rightarrow> 'v \<Rightarrow> string option) \<Rightarrow> 'v entry list \<Rightarrow> bool" where
  "describes descr es \<longleftrightarrow> (\<forall>c \<in> set es. \<forall>r \<in> set es. en_kind c = callEntry \<longrightarrow> en_kind r = returnEntry \<longrightarrow> en_id c = en_id r
     \<longrightarrow> descr (en_value c) (en_value r) \<noteq> None)"

lemma wf_split:
  assumes wf: "wf_entries (pre @ e # rest)"
  shows "0 \<le> en_id e" "en_id e < int (length (pre @ e # rest) div 2)" "x \<in> set pre \<Longrightarrow> 0 \<le> en_id x"
    and "x \<in> set pre \<Longrightarrow> en_id x = en_id e \<Longrightarrow> en_kind x = callEntry \<and> en_kind e = returnEntry"
    and "en_kind e = returnEntry \<Longrightarrow> \<exists>c \<in> set pre. en_kind c = callEntry \<and> en_id c = en_id e"
proof -
  let ?es = "pre @ e # rest" and ?i = "length pre"
  have i: "?i < length ?es" "?es ! ?i = e" by simp_all
  show "0 \<le> en_id e" "en_id e < int (length ?es div 2)" using wf i unfolding wf_entries_def by metis+
  have pos: "\<exists>j < ?i. ?es ! j = x" if "x \<in> set pre" for x
    using that by (metis in_set_conv_nth nth_append)
  show "0 \<le> en_id x" if "x \<in> set pre" using wf_entries_id [OF wf] that by simp
  show "\<exists>c \<in> set pre. en_kind c = callEntry \<and> en_id c = en_id e" if "en_kind e = returnEntry"
    using wf_entries_call [OF wf i(1)] that i(2) by (metis nth_append nth_mem)
  show "en_kind x = callEntry \<and> en_kind e = returnEntry" if x: "x \<in> set pre" "en_id x = en_id e"
  proof -
    obtain j where j: "j < ?i" "?es ! j = x" using pos [OF x(1)] by blast
    have ne: "en_kind x \<noteq> en_kind e" using wf_entries_unique [OF wf, of j ?i] j i x(2) by auto
    moreover have "en_kind x \<noteq> returnEntry"
    proof
      assume r: "en_kind x = returnEntry"
      then obtain k where k: "k < j" "en_kind (?es ! k) = callEntry" "en_id (?es ! k) = en_id x"
        using wf_entries_call [OF wf, of j] j i by auto
      moreover have "en_kind e = callEntry" using ne r by (cases "en_kind e") auto
      ultimately show False using wf_entries_unique [OF wf, of k ?i] i x(2) j(1) by auto
    qed
    ultimately show ?thesis by (cases "en_kind x"; cases "en_kind e") auto
  qed
qed

lemma vis_entry_inv:
  assumes wf: "wf_entries (pre @ e # rest)" and inv: "vis_inv descr nil (length (pre @ e # rest) div 2) pre st"
    and d: "describes descr (pre @ e # rest)"
  shows "\<exists>st'. vis_entry descr nil e st = Some st' \<and> vis_inv descr nil (length (pre @ e # rest) div 2) (pre @ [e]) st'"
proof -
  obtain hs cv rv where st: "st = (hs, cv, rv)" by (cases st)
  note sp = wf_split [OF wf]
  have len: "length hs = length (pre @ e # rest) div 2" using inv by (simp add: vis_inv_def st)
  have get: "slice_get hs (en_id e) = Some (hs ! nat (en_id e))" "slice_set hs (en_id e) y = Some (hs[nat (en_id e) := y])" for y
    using sp(1,2) len by (simp_all add: slice_get_def slice_set_def)
  have lt: "nat (en_id e) < length hs" using sp(1,2) len by linarith
  have ne: "nat (en_id x) \<noteq> nat (en_id e)" "nat (en_id e) \<noteq> nat (en_id x)" if "x \<in> set pre" "en_id x \<noteq> en_id e" for x using sp(1) sp(3) [OF that(1)] that(2) by simp_all
  show ?thesis
  proof (cases "en_kind e")
    case callEntry
    have other: "en_id x \<noteq> en_id e" if "x \<in> set pre" for x using sp(4) [OF that] callEntry by auto
    then show ?thesis
      using inv lt ne len unfolding st
      by (simp add: vis_entry_def callEntry get vis_inv_def value_at_def nth_list_update)
  next
    case returnEntry
    obtain c where c: "c \<in> set pre" "en_kind c = callEntry" "en_id c = en_id e" using sp(5) [OF returnEntry] by blast
    then have cv: "cv (en_id e) = Some (en_value c)" using inv by (auto simp: vis_inv_def st)
    obtain desc where desc: "descr (en_value c) (en_value e) = Some desc"
      using d [unfolded describes_def, rule_format, of c e] c returnEntry by auto
    have other: "en_id x \<noteq> en_id e" if "x \<in> set pre" "en_kind x = returnEntry" for x using sp(4) [OF that(1)] that(2) by auto
    show ?thesis
      using inv lt ne len cv desc other unfolding st
      by (simp add: vis_entry_def returnEntry get vis_inv_def value_at_def nth_list_update)
  qed
qed

lemma vis_history_inv:
  assumes "wf_entries (pre @ rest)" and "vis_inv descr nil (length (pre @ rest) div 2) pre st" and "describes descr (pre @ rest)"
  shows "\<exists>st'. vis_history descr nil rest st = Some st' \<and> vis_inv descr nil (length (pre @ rest) div 2) (pre @ rest) st'"
  using assms
proof (induction rest arbitrary: pre st)
  case (Cons e rest)
  obtain st1 where st1: "vis_entry descr nil e st = Some st1" "vis_inv descr nil (length (pre @ e # rest) div 2) (pre @ [e]) st1"
    using vis_entry_inv [OF Cons.prems] by blast
  with Cons.IH [of "pre @ [e]" st1] Cons.prems(1,3) show ?case by simp
qed simp

subsection \<open>The partial linearizations\<close>

text \<open>The maps hold the values of the calls and returns.\<close>

definition entry_values :: "'v entry list \<Rightarrow> (int \<Rightarrow> 'v) \<Rightarrow> (int \<Rightarrow> 'v) \<Rightarrow> bool" where
  "entry_values es cv rv \<longleftrightarrow> (\<forall>e \<in> set es. (en_kind e = callEntry \<longrightarrow> cv (en_id e) = en_value e)
     \<and> (en_kind e = returnEntry \<longrightarrow> rv (en_id e) = en_value e))"

text \<open>The entries of \<^verbatim>\<open>largestSize\<close> and \<^verbatim>\<open>largestIndex\<close> after one partial linearization of length \<open>n\<close>.\<close>

definition upd_largest :: "int \<Rightarrow> nat \<Rightarrow> int set \<Rightarrow> (int \<Rightarrow> nat) \<times> (int \<rightharpoonup> int) \<Rightarrow> (int \<Rightarrow> nat) \<times> (int \<rightharpoonup> int)" where
  "upd_largest i n S lg = ((\<lambda>k. if k \<in> S \<and> fst lg k < n then n else fst lg k),
     (\<lambda>k. if k \<in> S \<and> fst lg k < n then Some i else snd lg k))"

lemma vis_partial_legal:
  assumes "entry_values es cv rv" and "\<And>s. descr s \<noteq> None" and "legal m es s ks"
  shows "\<exists>steps. vis_partial m descr cv rv i n s ks lg = Some (steps, upd_largest i n (set ks) lg) \<and> map ls_Index steps = ks"
  using assms(3)
proof (induction ks arbitrary: s lg)
  case Nil
  then show ?case by (cases lg) (simp add: upd_largest_def)
next
  case (Cons k ks)
  obtain e r s' where e: "e \<in> set es" "r \<in> set es" "en_kind e = callEntry" "en_kind r = returnEntry" "en_id e = k" "en_id r = k"
    "Step m s (en_value e) (en_value r) = Some (True, s')" "legal m es s' ks"
    using Cons.prems by (auto split: option.splits)
  have v: "cv k = en_value e" "rv k = en_value r" using assms(1) e(1-6) by (auto simp: entry_values_def)
  obtain desc where desc: "descr s' = Some desc" using assms(2) by blast
  obtain ls li where lg: "lg = (ls, li)" by force
  define lg' where "lg' = (if ls k < n then (ls(k := n), li(k \<mapsto> i)) else (ls, li))"
  obtain steps where steps: "vis_partial m descr cv rv i n s' ks lg' = Some (steps, upd_largest i n (set ks) lg')" "map ls_Index steps = ks"
    using Cons.IH [OF e(8)] by blast
  have "upd_largest i n (set ks) lg' = upd_largest i n (set (k # ks)) lg"
    by (auto simp: upd_largest_def lg'_def lg fun_eq_iff)
  with steps v desc e(7) show ?case by (simp add: lg lg'_def [symmetric] Let_def)
qed

text \<open>After the partial linearizations in order of decreasing length, the index is that of the first one with the operation.\<close>

fun first_index :: "int \<Rightarrow> int list list \<Rightarrow> int \<Rightarrow> int option" where
  "first_index i [] k = None"
| "first_index i (ks # kss) k = (if k \<in> set ks then Some i else first_index (i + 1) kss k)"

definition longest_in :: "(int \<Rightarrow> nat) \<times> (int \<rightharpoonup> int) \<Rightarrow> int list list \<Rightarrow> bool" where
  "longest_in lg kss \<longleftrightarrow> (\<forall>k. (fst lg k = 0 \<longleftrightarrow> snd lg k = None) \<and> (fst lg k \<noteq> 0 \<longrightarrow> (\<forall>ks \<in> set kss. length ks \<le> fst lg k)))"

lemma longest_in_upd:
  assumes "longest_in lg (ks # kss)" and "sorted_wrt (\<lambda>a b. length b \<le> length a) (ks # kss)"
  shows "longest_in (upd_largest i (length ks) (set ks) lg) kss"
    and "snd (upd_largest i (length ks) (set ks) lg) k = (case snd lg k of None \<Rightarrow> if k \<in> set ks then Some i else None | Some j \<Rightarrow> Some j)"
proof -
  show "longest_in (upd_largest i (length ks) (set ks) lg) kss"
    using assms by (auto simp: longest_in_def upd_largest_def)
  have "fst lg k < length ks \<longleftrightarrow> snd lg k = None" if "k \<in> set ks"
    using assms(1) that by (fastforce simp: longest_in_def dest: spec [of _ k])
  then show "snd (upd_largest i (length ks) (set ks) lg) k = (case snd lg k of None \<Rightarrow> if k \<in> set ks then Some i else None | Some j \<Rightarrow> Some j)"
    by (auto simp: upd_largest_def split: option.splits)
qed

lemma vis_partials_legal:
  assumes "entry_values es cv rv" and "\<And>s. descr s \<noteq> None" and "\<forall>ks \<in> set kss. legal m es (Init m) ks"
    and "longest_in lg kss" and "sorted_wrt (\<lambda>a b. length b \<le> length a) kss"
  shows "\<exists>lins lg'. vis_partials m descr cv rv i kss lg = Some (lins, lg') \<and> map (map ls_Index) lins = kss
     \<and> (\<forall>k. snd lg' k = (case snd lg k of None \<Rightarrow> first_index i kss k | Some j \<Rightarrow> Some j))"
  using assms(3-5)
proof (induction kss arbitrary: i lg)
  case (Cons ks kss)
  let ?lg = "upd_largest i (length ks) (set ks) lg"
  obtain steps where steps: "vis_partial m descr cv rv i (length ks) (Init m) ks lg = Some (steps, ?lg)" "map ls_Index steps = ks"
    using vis_partial_legal [where descr = descr and m = m and ks = ks, OF assms(1,2), where s = "Init m" and i = i and n = "length ks" and lg = lg] Cons.prems(1) by auto
  note up = longest_in_upd [OF Cons.prems(2,3), of i]
  obtain lins lg' where "vis_partials m descr cv rv (i + 1) kss ?lg = Some (lins, lg')" "map (map ls_Index) lins = kss"
    "\<forall>k. snd lg' k = (case snd ?lg k of None \<Rightarrow> first_index (i + 1) kss k | Some j \<Rightarrow> Some j)"
  proof -
    have "\<forall>ks \<in> set kss. legal m es (Init m) ks" "sorted_wrt (\<lambda>a b. length b \<le> length a) kss" using Cons.prems(1,3) by simp_all
    from Cons.IH [OF this(1) up(1) this(2), of "i + 1"] show ?thesis using that by blast
  qed
  with steps show ?case by (auto simp: up(2) split: option.splits)
qed (auto split: option.splits)

text \<open>What the order of the partial linearizations promises.\<close>

locale size_sort =
  fixes arrange :: "int list multiset \<Rightarrow> int list list"
  assumes arrange_mset: "mset (arrange M) = M"
    and arrange_sorted: "sorted_wrt (\<lambda>a b. length b \<le> length a) (arrange M)"
begin

lemma vis_partials_arranged:
  assumes "entry_values es cv rv" and "\<And>s. descr s \<noteq> None" and "\<forall>ks \<in># M. legal m es (Init m) ks"
  shows "\<exists>lins lg'. vis_partials m descr cv rv 0 (arrange M) ((\<lambda>_. 0), Map.empty) = Some (lins, lg')
     \<and> map (map ls_Index) lins = arrange M \<and> snd lg' = first_index 0 (arrange M)"
proof -
  have "\<forall>ks \<in> set (arrange M). legal m es (Init m) ks" using assms(3) by (metis arrange_mset set_mset_mset)
  moreover have "longest_in ((\<lambda>_. 0), Map.empty) (arrange M)" by (simp add: longest_in_def)
  ultimately show ?thesis
    using vis_partials_legal [where descr = descr, OF assms(1,2) _ _ arrange_sorted, where lg = "((\<lambda>_. 0), Map.empty)" and i = 0 and m = m] by (auto simp: fun_eq_iff)
qed

end

definition by_size :: "int list multiset \<Rightarrow> int list list" where
  "by_size M = rev (sort_key length (sorted_list_of_multiset M))"

interpretation by_size: size_sort by_size
proof unfold_locales
  show "mset (by_size M) = M" for M by (simp add: by_size_def)
  show "sorted_wrt (\<lambda>a b. length b \<le> length a) (by_size M)" for M
    using sorted_sort_key [of length "sorted_list_of_multiset M"] by (simp add: by_size_def sorted_wrt_rev sorted_map)
qed

text \<open>The data of one partition: the table of operations, the partial linearizations, and for every operation a longest one with it.\<close>

definition op_descr :: "('v \<Rightarrow> string) \<Rightarrow> ('s, 'v) describer \<Rightarrow> 'v \<Rightarrow> 'v \<Rightarrow> string option" where
  "op_descr fmtv d = (case DescribeOperation d of None \<Rightarrow> DefaultDescribeOperation fmtv | Some f \<Rightarrow> f)"

definition displays :: "('v \<Rightarrow> 'v \<Rightarrow> string option) \<Rightarrow> 'v entry list \<Rightarrow> int list list \<Rightarrow> partitionVisualizationData \<Rightarrow> bool" where
  "displays descr es kss dat \<longleftrightarrow> length (pv_History dat) = length es div 2
     \<and> (\<forall>c \<in> set es. \<forall>r \<in> set es. en_kind c = callEntry \<longrightarrow> en_kind r = returnEntry \<longrightarrow> en_id r = en_id c \<longrightarrow>
          (let he = pv_History dat ! nat (en_id c) in he_ClientId he = en_clientId c \<and> he_Start he = en_time c
             \<and> he_End he = en_time r \<and> descr (en_value c) (en_value r) = Some (he_Description he)))
     \<and> map (map ls_Index) (pv_PartialLinearizations dat) = kss \<and> pv_Largest dat = first_index 0 kss"

lemma fillDescribe_fields [simp]:
  "DescribeOperation (fillDescribe fmtv fmts d) = Some (op_descr fmtv d)"
  "DescribeState (fillDescribe fmtv fmts d) = Some (case DescribeState d of None \<Rightarrow> DefaultDescribeState fmts | Some f \<Rightarrow> f)"
  by (auto simp: fillDescribe_def op_descr_def Let_def split: option.splits)

definition states_described :: "('s, 'v) describer \<Rightarrow> bool" where
  "states_described d \<longleftrightarrow> (\<forall>f. DescribeState d = Some f \<longrightarrow> (\<forall>s. f s \<noteq> None))"

lemma vis_partition_displays:
  assumes "size_sort arrange" and wf: "wf_entries es" and "describes (op_descr fmtv d) es" and "states_described d"
    and "\<forall>ks \<in># pls. legal m es (Init m) ks"
  shows "\<exists>dat. vis_partition arrange nil m (fillDescribe fmtv fmts d) es pls = Some dat \<and> displays (op_descr fmtv d) es (arrange pls) dat"
proof -
  let ?st0 = "(replicate (length es div 2) \<lparr>he_ClientId = 0, he_Start = 0, he_End = 0, he_Description = []\<rparr>, Map.empty, Map.empty)"
  let ?ds = "case DescribeState d of None \<Rightarrow> DefaultDescribeState fmts | Some f \<Rightarrow> f"
  have "vis_inv (op_descr fmtv d) nil (length es div 2) [] ?st0" by (simp add: vis_inv_def)
  with vis_history_inv [of "[]" es "op_descr fmtv d" nil ?st0] wf assms(3)
  obtain hs cv rv where st: "vis_history (op_descr fmtv d) nil es ?st0 = Some (hs, cv, rv)"
    and inv: "vis_inv (op_descr fmtv d) nil (length es div 2) es (hs, cv, rv)" by auto
  have "entry_values es (value_at nil cv) (value_at nil rv)" using inv by (auto simp: entry_values_def vis_inv_def value_at_def)
  moreover have "?ds s \<noteq> None" for s using assms(4) by (auto simp: states_described_def DefaultDescribeState_def split: option.splits)
  ultimately obtain lins lg where "vis_partials m ?ds (value_at nil cv) (value_at nil rv) 0 (arrange pls) ((\<lambda>_. 0), Map.empty) = Some (lins, lg)"
    "map (map ls_Index) lins = arrange pls" "snd lg = first_index 0 (arrange pls)"
    using size_sort.vis_partials_arranged [OF assms(1) _ _ assms(5)] by blast
  moreover have "length hs = length es div 2" using inv by (simp add: vis_inv_def)
  moreover have "he_ClientId (hs ! nat (en_id c)) = en_clientId c \<and> he_Start (hs ! nat (en_id c)) = en_time c
       \<and> he_End (hs ! nat (en_id c)) = en_time r \<and> op_descr fmtv d (en_value c) (en_value r) = Some (he_Description (hs ! nat (en_id c)))"
    if "c \<in> set es" "r \<in> set es" "en_kind c = callEntry" "en_kind r = returnEntry" "en_id r = en_id c" for c r
  proof -
    have "cv (en_id c) = Some (en_value c)" "he_ClientId (hs ! nat (en_id c)) = en_clientId c" "he_Start (hs ! nat (en_id c)) = en_time c"
      "he_End (hs ! nat (en_id r)) = en_time r"
      "op_descr fmtv d (value_at nil cv (en_id r)) (en_value r) = Some (he_Description (hs ! nat (en_id r)))"
      using inv that(1-4) by (auto simp: vis_inv_def)
    then show ?thesis by (simp add: value_at_def that(5))
  qed
  ultimately show ?thesis
    by (intro exI [of _ "\<lparr>pv_History = hs, pv_PartialLinearizations = lins, pv_Largest = snd lg\<rparr>"])
      (simp add: vis_partition_def st displays_def Let_def case_prod_unfold)
qed

lemma those_map_Some: "those (map (\<lambda>x. Some (f x)) xs) = Some (map f xs)"
  by (induction xs) auto

lemma computeVisualizationData_displays:
  assumes "size_sort arrange" and "info_ok (fillDefault m) info" and "\<forall>es \<in> set (li_history info). wf_entries es \<and> describes (op_descr fmtv d) es"
    and "states_described d"
  shows "\<exists>dat. computeVisualizationData arrange fmtv fmts nil m d info = Some dat \<and> length dat = length (li_history info)
     \<and> (\<forall>i < length dat. displays (op_descr fmtv d) (li_history info ! i) (arrange (li_partialLinearizations info ! i)) (dat ! i))"
proof -
  let ?n = "length (li_history info)"
  define one where "one i = vis_partition arrange nil (fillDefault m) (fillDescribe fmtv fmts d) (li_history info ! i)
      (li_partialLinearizations info ! i)" for i
  have "\<exists>dat. one i = Some dat \<and> displays (op_descr fmtv d) (li_history info ! i) (arrange (li_partialLinearizations info ! i)) dat"
    if "i < ?n" for i
    unfolding one_def using assms(2,3) that by (intro vis_partition_displays [OF assms(1) _ _ assms(4)]) (auto simp: info_ok_def)
  then obtain f where f: "\<And>i. i < ?n \<Longrightarrow> one i = Some (f i) \<and>
      displays (op_descr fmtv d) (li_history info ! i) (arrange (li_partialLinearizations info ! i)) (f i)" by metis
  have "computeVisualizationData arrange fmtv fmts nil m d info = those (map one [0..<?n])"
    using assms(2) unfolding computeVisualizationData_def Let_def one_def info_ok_def
    by (intro arg_cong [of _ _ those] map_cong) auto
  also have "\<dots> = those (map (\<lambda>i. Some (f i)) [0..<?n])" using f by (intro arg_cong [of _ _ those] map_cong) auto
  also have "\<dots> = Some (map f [0..<?n])" by (rule those_map_Some)
  finally show ?thesis using f by (intro exI [of _ "map f [0..<?n]"]) simp
qed

subsection \<open>Histories of operations\<close>

text \<open>C21: The visualization of a history that \<^verbatim>\<open>CheckOperationsVerbose\<close> has checked never panics, whatever the verdict, the
  order of the results, the timer and the moment at which the searches were killed: every partial
  linearization is replayed by the model without a refusal.  The table of a partition shows for every
  operation its client, its call and return time and its description, the partial linearizations are
  those of the search, and the entry of \<^verbatim>\<open>Largest\<close> for an operation is the position of the first, so a
  longest, partial linearization that contains it.\<close>

theorem visualization_replays:
  assumes srt: "time_sort srt" and "size_sort arrange"
    and "Partition (fillDefault m) = Some part" and "part history = Some parts" and "\<forall>ops \<in> set parts. proper_ops m ops"
    and "\<forall>ops \<in> set parts. \<forall>v \<in> set ops. op_descr fmtv d (op_Input v) (op_Output v) \<noteq> None" and "states_described d"
    and "CheckOperationsVerbose srt m history timeout sched kill = Some (res, info)"
  shows "\<exists>dat. computeVisualizationData arrange fmtv fmts nil m d info = Some dat \<and> length dat = length parts
     \<and> (\<forall>i < length parts. let kss = arrange (li_partialLinearizations info ! i) in
          (\<forall>k < length (parts ! i). let he = pv_History (dat ! i) ! k; v = parts ! i ! k in
             he_ClientId he = op_ClientId v \<and> he_Start he = op_Call v \<and> he_End he = op_Return v
             \<and> op_descr fmtv d (op_Input v) (op_Output v) = Some (he_Description he))
          \<and> map (map ls_Index) (pv_PartialLinearizations (dat ! i)) = kss \<and> pv_Largest (dat ! i) = first_index 0 kss)"
proof -
  let ?hs = "map (makeEntries srt) parts"
  note mem = time_sort.makeEntries_set [OF srt]
  have ok: "\<forall>es \<in> set ?hs. wf_entries es \<and> describes (op_descr fmtv d) es"
    using assms(5,6) time_sort.makeEntries_checkable [OF srt, of m] by (auto simp: checkable_def describes_def mem)
  have run: "checkParallel (fillDefault m) ?hs True timeout sched kill = Some (res, info)"
    using assms(8) by (simp add: CheckOperationsVerbose_def time_sort.checkOperations_run [OF srt assms(3,4)])
  have info: "li_history info = ?hs" "info_ok (fillDefault m) info" using checkParallel_info [OF _ run] ok by auto
  obtain dat where dat: "computeVisualizationData arrange fmtv fmts nil m d info = Some dat" "length dat = length parts"
    "\<And>i. i < length parts \<Longrightarrow> displays (op_descr fmtv d) (makeEntries srt (parts ! i)) (arrange (li_partialLinearizations info ! i)) (dat ! i)"
    using computeVisualizationData_displays [OF assms(2) info(2) _ assms(7), of fmtv fmts nil] ok info(1) by auto
  have "he_ClientId (pv_History (dat ! i) ! k) = op_ClientId v \<and> he_Start (pv_History (dat ! i) ! k) = op_Call v
      \<and> he_End (pv_History (dat ! i) ! k) = op_Return v
      \<and> op_descr fmtv d (op_Input v) (op_Output v) = Some (he_Description (pv_History (dat ! i) ! k))"
    if i: "i < length parts" and k: "k < length (parts ! i)" and v: "v = parts ! i ! k" for i k v
  proof -
    have "call_of (int k) v \<in> set (makeEntries srt (parts ! i))" "return_of (int k) v \<in> set (makeEntries srt (parts ! i))"
      using k v by (auto simp: mem)
    from dat(3) [OF i, unfolded displays_def, THEN conjunct2, THEN conjunct1, rule_format, OF this]
    show ?thesis by (simp add: Let_def call_of_def)
  qed
  moreover have "map (map ls_Index) (pv_PartialLinearizations (dat ! i)) = arrange (li_partialLinearizations info ! i)"
    "pv_Largest (dat ! i) = first_index 0 (arrange (li_partialLinearizations info ! i))" if "i < length parts" for i
    using dat(3) [OF that] by (simp_all add: displays_def)
  ultimately show ?thesis using dat(1,2) by (intro exI [of _ dat]) (simp add: Let_def)
qed

definition kv_describer :: "(string, kv_iface) describer" where
  "kv_describer = \<lparr>DescribeOperation = Some kv_DescribeOperation, DescribeState = None\<rparr>"

theorem visualization_replays_witness:
  "\<exists>res info dat. CheckOperationsVerbose (sort_key time_key) KvModel sample_ops 0 [Recv 0] (\<lambda>_ _. False) = Some (res, info)
     \<and> computeVisualizationData by_size (\<lambda>_. []) (\<lambda>s. s) (AKvOutput \<lparr>out_Value = []\<rparr>) KvModel kv_describer info = Some dat \<and> length dat = 1"
proof -
  have "\<forall>es \<in> set (map (makeEntries (sort_key time_key)) [sample_ops]). checkable (fillDefault KvModel) es"
    using by_time.makeEntries_checkable [OF sample_proper] by simp
  from checkParallel_returns [OF kv_lawful this, of "[Recv 0]" True 0 "\<lambda>_ _. False"]
  obtain res info where r: "CheckOperationsVerbose (sort_key time_key) KvModel sample_ops 0 [Recv 0] (\<lambda>_ _. False) = Some (res, info)"
    by (auto simp: CheckOperationsVerbose_def by_time.checkOperations_run [OF sample_partition] covers_def)
  have "\<forall>ops \<in> set [sample_ops]. \<forall>v \<in> set ops. op_descr (\<lambda>_. []) kv_describer (op_Input v) (op_Output v) \<noteq> None" "states_described kv_describer"
    by (auto simp: op_descr_def kv_describer_def states_described_def sample_ops_def kv_op_def kv_DescribeOperation_def
        assert_KvInput_def assert_KvOutput_def)
  from visualization_replays [OF by_time.time_sort_axioms by_size.size_sort_axioms sample_partition _ this r, of "\<lambda>s. s"
      "AKvOutput \<lparr>out_Value = []\<rparr>"] sample_proper r
  show ?thesis by auto
qed

end
