(* ===== verification/Labgob.thy ===== *)
theory Labgob
  imports Go_Strings
begin

text \<open>
  \<^verbatim>\<open>src/labgob/labgob.go\<close>: the wrapper around \<^verbatim>\<open>encoding/gob\<close> that warns about fields and values that do
  not survive encoding.  A \<^verbatim>\<open>reflect.Type\<close> is an index into a table of type descriptions, so that
  recursive types are possible; \<^verbatim>\<open>checked\<close> and \<^verbatim>\<open>errorCount\<close>, the package's variables, are the
  state.  \<^verbatim>\<open>unicode.IsUpper\<close> is the argument \<open>isUpper\<close>.  Printing has no effect on the state.  The
  recursion of \<^verbatim>\<open>checkType\<close> has fuel; \<open>checkType_total\<close> shows that as much fuel as there are
  types not yet checked, plus one, is enough.
\<close>

subsection \<open>Checking types\<close>

datatype rtype =
    Struct "(string \<times> nat) list"
  | Slice nat
  | Array nat
  | Ptr nat
  | Map nat nat
  | Basic

record gob_state =
  checked :: "nat set"
  errorCount :: int

definition lower_field :: "(nat \<Rightarrow> bool) \<Rightarrow> string \<Rightarrow> bool" where
  "lower_field isUpper name \<longleftrightarrow> \<not> isUpper (fst (decode_rune name))"

definition desc :: "rtype list \<Rightarrow> nat \<Rightarrow> rtype" where
  "desc tt t = (if t < length tt then tt ! t else Basic)"

fun checkType :: "(nat \<Rightarrow> bool) \<Rightarrow> rtype list \<Rightarrow> nat \<Rightarrow> nat \<Rightarrow> gob_state \<Rightarrow> gob_state option"
and checkFields :: "(nat \<Rightarrow> bool) \<Rightarrow> rtype list \<Rightarrow> nat \<Rightarrow> (string \<times> nat) list \<Rightarrow> gob_state \<Rightarrow> gob_state option" where
  "checkType up tt 0 t g = None"
| "checkType up tt (Suc fuel) t g =
     (if t \<in> checked g then Some g
      else (let g1 = g\<lparr>checked := insert t (checked g)\<rparr> in
        case desc tt t of
          Struct fs \<Rightarrow> checkFields up tt fuel fs g1
        | Slice e \<Rightarrow> checkType up tt fuel e g1
        | Array e \<Rightarrow> checkType up tt fuel e g1
        | Ptr e \<Rightarrow> checkType up tt fuel e g1
        | Map k e \<Rightarrow> do { g2 \<leftarrow> checkType up tt fuel e g1; checkType up tt fuel k g2 }
        | Basic \<Rightarrow> Some g1))"
| "checkFields up tt fuel [] g = Some g"
| "checkFields up tt fuel (f # fs) g =
     (let g1 = (if lower_field up (fst f) then g\<lparr>errorCount := errorCount g + 1\<rparr> else g)
      in do { g2 \<leftarrow> checkType up tt fuel (snd f) g1; checkFields up tt fuel fs g2 })"

text \<open>\<^verbatim>\<open>reflect.TypeOf(nil)\<close> is the nil type, on which \<^verbatim>\<open>Kind\<close> panics.\<close>

definition checkValue :: "(nat \<Rightarrow> bool) \<Rightarrow> rtype list \<Rightarrow> nat \<Rightarrow> nat option \<Rightarrow> gob_state \<Rightarrow> gob_state option" where
  "checkValue up tt fuel v g = do { t \<leftarrow> v; checkType up tt fuel t g }"

subsection \<open>Checking that a variable to decode into holds default values\<close>

datatype rvalue =
    VStruct "(string \<times> rvalue) list"
  | VPtr "rvalue option"
  | VBasic bool
  | VOther

text \<open>\<open>VBasic z\<close> is a value of a basic kind; \<open>z\<close> says that it is the zero value of its type.\<close>

function checkDefault1 :: "rvalue \<Rightarrow> int \<Rightarrow> gob_state \<Rightarrow> gob_state"
and checkDefault_fields :: "(string \<times> rvalue) list \<Rightarrow> int \<Rightarrow> gob_state \<Rightarrow> gob_state" where
  "checkDefault1 v depth g =
     (if depth > 3 then g
      else (case v of
          VStruct fs \<Rightarrow> checkDefault_fields fs (depth + 1) g
        | VPtr None \<Rightarrow> g
        | VPtr (Some w) \<Rightarrow> checkDefault1 w (depth + 1) g
        | VBasic z \<Rightarrow> if z then g else g\<lparr>errorCount := errorCount g + 1\<rparr>
        | VOther \<Rightarrow> g))"
| "checkDefault_fields [] depth g = g"
| "checkDefault_fields (f # fs) depth g = checkDefault_fields fs depth (checkDefault1 (snd f) depth g)"
  by pat_completeness auto
termination
  by (relation "inv_image (less_than <*lex*> less_than)
       (\<lambda>x. case x of Inl (v, d, g) \<Rightarrow> (nat (5 - d), 0) | Inr (fs, d, g) \<Rightarrow> (nat (5 - d), Suc (length fs)))") auto

definition checkDefault :: "rvalue option \<Rightarrow> gob_state \<Rightarrow> gob_state" where
  "checkDefault v g = (case v of None \<Rightarrow> g | Some w \<Rightarrow> checkDefault1 w 1 g)"

subsection \<open>The encoder and the decoder\<close>

text \<open>
  \<open>typeOf\<close> and \<open>valueOf\<close> are reflection on a Go value; the functions of \<^verbatim>\<open>encoding/gob\<close> that are
  called in the end are arguments.
\<close>

definition Encode :: "(nat \<Rightarrow> bool) \<Rightarrow> rtype list \<Rightarrow> nat \<Rightarrow> ('v \<Rightarrow> nat option) \<Rightarrow> ('v \<Rightarrow> 'r) \<Rightarrow> 'v \<Rightarrow> gob_state \<Rightarrow> ('r \<times> gob_state) option" where
  "Encode up tt fuel typeOf gobEncode e g = do {
     g1 \<leftarrow> checkValue up tt fuel (typeOf e) g;
     Some (gobEncode e, g1)
   }"

definition Decode :: "(nat \<Rightarrow> bool) \<Rightarrow> rtype list \<Rightarrow> nat \<Rightarrow> ('v \<Rightarrow> nat option) \<Rightarrow> ('v \<Rightarrow> rvalue option) \<Rightarrow> ('v \<Rightarrow> 'r) \<Rightarrow> 'v
    \<Rightarrow> gob_state \<Rightarrow> ('r \<times> gob_state) option" where
  "Decode up tt fuel typeOf valueOf gobDecode e g = do {
     g1 \<leftarrow> checkValue up tt fuel (typeOf e) g;
     let g2 = checkDefault (valueOf e) g1;
     Some (gobDecode e, g2)
   }"

definition RegisterType :: "(nat \<Rightarrow> bool) \<Rightarrow> rtype list \<Rightarrow> nat \<Rightarrow> ('v \<Rightarrow> nat option) \<Rightarrow> ('v \<Rightarrow> 'r) \<Rightarrow> 'v \<Rightarrow> gob_state \<Rightarrow> ('r \<times> gob_state) option" where
  "RegisterType up tt fuel typeOf gobRegister e g = do {
     g1 \<leftarrow> checkValue up tt fuel (typeOf e) g;
     Some (gobRegister e, g1)
   }"

definition RegisterName :: "(nat \<Rightarrow> bool) \<Rightarrow> rtype list \<Rightarrow> nat \<Rightarrow> ('v \<Rightarrow> nat option) \<Rightarrow> (string \<Rightarrow> 'v \<Rightarrow> 'r) \<Rightarrow> string \<Rightarrow> 'v \<Rightarrow> gob_state
    \<Rightarrow> ('r \<times> gob_state) option" where
  "RegisterName up tt fuel typeOf gobRegisterName name e g = do {
     g1 \<leftarrow> checkValue up tt fuel (typeOf e) g;
     Some (gobRegisterName name e, g1)
   }"

subsection \<open>Which types are checked, and how often\<close>

definition succs :: "rtype list \<Rightarrow> nat \<Rightarrow> nat set" where
  "succs tt t = (case desc tt t of Struct fs \<Rightarrow> snd ` set fs | Slice e \<Rightarrow> {e} | Array e \<Rightarrow> {e} | Ptr e \<Rightarrow> {e}
     | Map k e \<Rightarrow> {k, e} | Basic \<Rightarrow> {})"

definition reach :: "rtype list \<Rightarrow> nat set \<Rightarrow> nat set" where
  "reach tt T = {(a, b). b \<in> succs tt a}\<^sup>* `` T"

text \<open>The number of lower-case fields of a type.\<close>

definition lower_fields :: "(nat \<Rightarrow> bool) \<Rightarrow> (string \<times> nat) list \<Rightarrow> int" where
  "lower_fields up fs = int (length (filter (\<lambda>f. lower_field up (fst f)) fs))"

definition complaints :: "(nat \<Rightarrow> bool) \<Rightarrow> rtype list \<Rightarrow> nat \<Rightarrow> int" where
  "complaints up tt t = (case desc tt t of Struct fs \<Rightarrow> lower_fields up fs | _ \<Rightarrow> 0)"

definition closed_table :: "rtype list \<Rightarrow> bool" where
  "closed_table tt \<longleftrightarrow> (\<forall>t < length tt. succs tt t \<subseteq> {..<length tt})"

text \<open>What checking the types \<open>T\<close> does to the state, with \<open>n\<close> complaints about the fields that lead to them.\<close>

definition checks :: "(nat \<Rightarrow> bool) \<Rightarrow> rtype list \<Rightarrow> nat set \<Rightarrow> int \<Rightarrow> gob_state \<Rightarrow> gob_state \<Rightarrow> bool" where
  "checks up tt T n g g' \<longleftrightarrow> checked g \<subseteq> checked g' \<and> checked g' \<subseteq> {..<length tt} \<and> T \<subseteq> checked g' \<and>
     (\<forall>u \<in> checked g' - checked g. succs tt u \<subseteq> checked g' \<and> u \<in> reach tt T) \<and>
     errorCount g' = errorCount g + n + (\<Sum>u \<in> checked g' - checked g. complaints up tt u)"

lemma reach_mono: "T \<subseteq> T' \<Longrightarrow> reach tt T \<subseteq> reach tt T'"
  by (auto simp: reach_def)

lemma reach_self: "T \<subseteq> reach tt T"
  by (auto simp: reach_def)

lemma reach_step: "reach tt (succs tt t) \<subseteq> reach tt {t}"
  by (auto simp: reach_def intro: converse_rtrancl_into_rtrancl)

lemma checks_trans:
  assumes "checks up tt T n g g1" and "checks up tt T' n' g1 g2"
  shows "checks up tt (T \<union> T') (n + n') g g2"
proof -
  have sub: "checked g \<subseteq> checked g1" "checked g1 \<subseteq> checked g2" "checked g2 \<subseteq> {..<length tt}"
    using assms by (simp_all add: checks_def)
  then have new: "checked g2 - checked g = (checked g1 - checked g) \<union> (checked g2 - checked g1)" by blast
  have "finite (checked g2)" using sub finite_subset by blast
  then have "finite (checked g2 - checked g1)" "finite (checked g1 - checked g)" using sub(2) by (auto intro: finite_subset)
  then have "(\<Sum>u \<in> checked g2 - checked g. complaints up tt u)
      = (\<Sum>u \<in> checked g1 - checked g. complaints up tt u) + (\<Sum>u \<in> checked g2 - checked g1. complaints up tt u)"
    unfolding new by (intro sum.union_disjoint) auto
  moreover have "succs tt u \<subseteq> checked g2 \<and> u \<in> reach tt (T \<union> T')" if "u \<in> checked g2 - checked g" for u
    using that assms reach_mono [of T "T \<union> T'" tt] reach_mono [of T' "T \<union> T'" tt] sub unfolding new checks_def by blast
  ultimately show ?thesis using assms sub by (auto simp: checks_def)
qed

text \<open>Marking a type and then checking the types it refers to.\<close>

lemma checks_mark:
  assumes "t < length tt" and "t \<notin> checked g" and "checks up tt (succs tt t) (complaints up tt t) (g\<lparr>checked := insert t (checked g)\<rparr>) g'"
  shows "checks up tt {t} 0 g g'"
proof -
  have sub: "insert t (checked g) \<subseteq> checked g'" "checked g' \<subseteq> {..<length tt}" using assms(3) by (simp_all add: checks_def)
  then have new: "checked g' - checked g = insert t (checked g' - insert t (checked g))" using assms(2) by blast
  have "finite (checked g')" using sub finite_subset by blast
  then have "(\<Sum>u \<in> checked g' - checked g. complaints up tt u)
      = complaints up tt t + (\<Sum>u \<in> checked g' - insert t (checked g). complaints up tt u)"
    unfolding new by (subst sum.insert) auto
  moreover have "succs tt u \<subseteq> checked g' \<and> u \<in> reach tt {t}" if "u \<in> checked g' - checked g" for u
    using that assms(3) reach_step [of tt t] reach_self [of "{t}" tt] unfolding new checks_def by auto
  ultimately show ?thesis using assms(3) sub by (simp add: checks_def)
qed

definition left_over :: "rtype list \<Rightarrow> gob_state \<Rightarrow> nat" where
  "left_over tt g = card ({..<length tt} - checked g)"

definition enough :: "(nat \<Rightarrow> bool) \<Rightarrow> rtype list \<Rightarrow> nat \<Rightarrow> bool" where
  "enough up tt fuel \<longleftrightarrow> (\<forall>t g. t < length tt \<longrightarrow> checked g \<subseteq> {..<length tt} \<longrightarrow> left_over tt g < fuel \<longrightarrow>
     (\<exists>g'. checkType up tt fuel t g = Some g' \<and> checks up tt {t} 0 g g'))"

lemma checks_left_over: "checks up tt T n g g' \<Longrightarrow> checked g' \<subseteq> {..<length tt} \<and> left_over tt g' \<le> left_over tt g"
  unfolding checks_def left_over_def by (auto intro!: card_mono)

lemma checks_refl: "checked g \<subseteq> {..<length tt} \<Longrightarrow> T \<subseteq> checked g \<Longrightarrow> checks up tt T 0 g g"
  by (simp add: checks_def)

lemma checks_count: "checks up tt T n (g\<lparr>errorCount := errorCount g + k\<rparr>) g' \<Longrightarrow> checks up tt T (k + n) g g'"
  by (simp add: checks_def)

lemma enough_checks:
  "enough up tt fuel \<Longrightarrow> t < length tt \<Longrightarrow> checked g \<subseteq> {..<length tt} \<Longrightarrow> left_over tt g < fuel \<Longrightarrow>
   \<exists>g'. checkType up tt fuel t g = Some g' \<and> checks up tt {t} 0 g g'"
  by (simp add: enough_def)

lemma checkFields_total:
  assumes "enough up tt fuel" and "snd ` set fs \<subseteq> {..<length tt}" and "checked g \<subseteq> {..<length tt}" and "left_over tt g < fuel"
  shows "\<exists>g'. checkFields up tt fuel fs g = Some g' \<and> checks up tt (snd ` set fs) (lower_fields up fs) g g'"
  using assms(2-)
proof (induction fs arbitrary: g)
  case Nil
  then show ?case by (simp add: checks_refl lower_fields_def)
next
  case (Cons f fs)
  define k :: int where "k = (if lower_field up (fst f) then 1 else 0)"
  let ?g1 = "g\<lparr>errorCount := errorCount g + k\<rparr>"
  have g1: "(if lower_field up (fst f) then g\<lparr>errorCount := errorCount g + 1\<rparr> else g) = ?g1" by (simp add: k_def)
  have same: "checked ?g1 \<subseteq> {..<length tt}" "left_over tt ?g1 < fuel" using Cons.prems by (simp_all add: left_over_def)
  obtain g2 where g2: "checkType up tt fuel (snd f) ?g1 = Some g2" "checks up tt {snd f} 0 ?g1 g2"
    using enough_checks [OF assms(1) _ same, of "snd f"] Cons.prems(1) by auto
  then have bound: "checked g2 \<subseteq> {..<length tt}" "left_over tt g2 < fuel"
    using checks_left_over [OF g2(2)] same(2) by simp_all
  obtain g3 where g3: "checkFields up tt fuel fs g2 = Some g3" "checks up tt (snd ` set fs) (lower_fields up fs) g2 g3"
    using Cons.IH [OF _ bound] Cons.prems(1) by auto
  have "checks up tt ({snd f} \<union> snd ` set fs) (k + (0 + lower_fields up fs)) g g3"
    by (rule checks_count [OF checks_trans [OF g2(2) g3(2)]])
  moreover have "k + (0 + lower_fields up fs) = lower_fields up (f # fs)" by (simp add: k_def lower_fields_def)
  ultimately show ?case using g2(1) g3(1) g1 by (simp add: Let_def)
qed

lemma enough_Suc:
  assumes e: "enough up tt fuel" and cl: "closed_table tt"
  shows "enough up tt (Suc fuel)"
  unfolding enough_def
proof (intro allI impI)
  fix t g assume t: "t < length tt" and g: "checked g \<subseteq> {..<length tt}" and u: "left_over tt g < Suc fuel"
  show "\<exists>g'. checkType up tt (Suc fuel) t g = Some g' \<and> checks up tt {t} 0 g g'"
  proof (cases "t \<in> checked g")
    case True
    then show ?thesis using checks_refl [OF g] by simp
  next
    case False
    let ?g = "g\<lparr>checked := insert t (checked g)\<rparr>"
    have "{..<length tt} - insert t (checked g) \<subset> {..<length tt} - checked g" using t False by blast
    then have "left_over tt ?g < left_over tt g" unfolding left_over_def by (simp add: psubset_card_mono del: card_Diff_insert)
    then have b: "checked ?g \<subseteq> {..<length tt}" "left_over tt ?g < fuel" using t g u by auto
    have sub: "succs tt t \<subseteq> {..<length tt}" using cl t by (simp add: closed_table_def)
    have one: "\<exists>g'. checkType up tt fuel s ?g = Some g' \<and> checks up tt {s} 0 ?g g'" if "s \<in> succs tt t" for s
      using enough_checks [OF e _ b] sub that by blast
    have "\<exists>g'. checkType up tt (Suc fuel) t g = Some g' \<and> checks up tt (succs tt t) (complaints up tt t) ?g g'"
    proof (cases "desc tt t")
      case (Struct fs)
      then show ?thesis using checkFields_total [OF e _ b, of fs] sub False by (simp add: succs_def complaints_def)
    next
      case (Map k el)
      then have kel: "k < length tt" "el \<in> succs tt t" using sub by (auto simp: succs_def)
      obtain g2 where g2: "checkType up tt fuel el ?g = Some g2" "checks up tt {el} 0 ?g g2" using one [OF kel(2)] by blast
      then obtain g3 where g3: "checkType up tt fuel k g2 = Some g3" "checks up tt {k} 0 g2 g3"
        using enough_checks [OF e kel(1), of g2] checks_left_over [OF g2(2)] b(2) by auto
      show ?thesis
        using checks_trans [OF g2(2) g3(2)] g2(1) g3(1) False Map by (simp add: succs_def complaints_def insert_commute)
    next
      case Basic
      then show ?thesis using False checks_refl [OF b(1), of "{}"] by (simp add: succs_def complaints_def)
    qed (use one False in \<open>simp_all add: succs_def complaints_def\<close>)
    then show ?thesis using checks_mark [OF t False] by blast
  qed
qed

lemma enough_all: "closed_table tt \<Longrightarrow> enough up tt fuel"
proof (induction fuel)
  case 0
  show ?case by (simp add: enough_def)
qed (rule enough_Suc)

text \<open>The types that are checked at the end.\<close>

lemma checks_reach:
  assumes "checks up tt T n g g'" and "\<forall>u \<in> checked g. succs tt u \<subseteq> checked g"
  shows "checked g' = checked g \<union> reach tt T"
proof
  show "checked g' \<subseteq> checked g \<union> reach tt T" using assms(1) by (auto simp: checks_def)
  have cl: "succs tt u \<subseteq> checked g'" if "u \<in> checked g'" for u
    using that assms by (cases "u \<in> checked g") (auto simp: checks_def)
  have "v \<in> checked g'" if "(u, v) \<in> {(a, b). b \<in> succs tt a}\<^sup>*" "u \<in> T" for u v
    using that(1)
  proof (induction rule: rtrancl_induct)
    case base
    then show ?case using that(2) assms(1) by (auto simp: checks_def)
  next
    case (step y z)
    then show ?case using cl by blast
  qed
  then show "checked g \<union> reach tt T \<subseteq> checked g'" using assms(1) by (auto simp: reach_def checks_def)
qed

text \<open>C26: Checking a type ends, on recursive types too: with one unit of fuel more than there are types not yet
  checked it returns, all types reachable from the type are then checked, the error count has grown by
  the number of lower-case fields of those that had not been checked before, and checking the type
  again changes nothing.\<close>

theorem checkType_complains_once:
  assumes "closed_table tt" and "t < length tt" and "checked g \<subseteq> {..<length tt}"
    and "\<forall>u \<in> checked g. succs tt u \<subseteq> checked g" and "card ({..<length tt} - checked g) < fuel"
  shows "\<exists>g'. checkType up tt fuel t g = Some g' \<and> checked g' = checked g \<union> reach tt {t}
     \<and> errorCount g' = errorCount g + (\<Sum>u \<in> reach tt {t} - checked g. complaints up tt u)
     \<and> checkType up tt fuel t g' = Some g'"
proof -
  obtain g' where g': "checkType up tt fuel t g = Some g'" "checks up tt {t} 0 g g'"
    using enough_checks [OF enough_all [OF assms(1)] assms(2,3)] assms(5) by (auto simp: left_over_def)
  note r = checks_reach [OF g'(2) assms(4)]
  then have "checked g' - checked g = reach tt {t} - checked g" by blast
  moreover have "t \<in> checked g'" and "fuel \<noteq> 0" using g' by (auto simp: checks_def intro: ccontr)
  ultimately show ?thesis using g' r by (cases fuel) (auto simp: checks_def)
qed

text \<open>A recursive list type with a lower-case field: a struct with fields \<^verbatim>\<open>Next\<close> and \<^verbatim>\<open>val\<close>.\<close>

definition list_type :: "rtype list" where
  "list_type = [Struct [(''Next'', 1), (''val'', 2)], Ptr 0, Basic]"

definition ascii_upper :: "nat \<Rightarrow> bool" where
  "ascii_upper r \<longleftrightarrow> 65 \<le> r \<and> r \<le> 90"

theorem checkType_complains_once_witness:
  "\<exists>g'. checkType ascii_upper list_type 4 0 \<lparr>checked = {}, errorCount = 0\<rparr> = Some g' \<and> checked g' = reach list_type {0}
     \<and> checkType ascii_upper list_type 4 0 g' = Some g'"
proof -
  have "closed_table list_type"
    by (auto simp: closed_table_def list_type_def succs_def desc_def less_Suc_eq)
  from checkType_complains_once [OF this, of 0 "\<lparr>checked = {}, errorCount = 0\<rparr>" 4 ascii_upper]
  show ?thesis by (auto simp: list_type_def)
qed

lemma list_type_complaint:
  "checkType ascii_upper list_type 4 0 \<lparr>checked = {}, errorCount = 0\<rparr> = Some \<lparr>checked = {0, 1, 2}, errorCount = 1\<rparr>"
  by (simp add: list_type_def desc_def numeral_eq_Suc lower_field_def ascii_upper_def insert_commute)

text \<open>Checking for default values stops below the third level.\<close>

lemma checkDefault1_deep: "3 < d \<Longrightarrow> checkDefault1 v d g = g"
  by (subst checkDefault1.simps) simp

end
