(* ===== verification/Rand_Names.thy ===== *)
theory Rand_Names
  imports Go_Strings "HOL-Library.Word"
begin

text \<open>
  The random names and numbers of the harnesses and clerks: \<^verbatim>\<open>randstring\<close> of the four \<^verbatim>\<open>config.go\<close>, with \<^verbatim>\<open>base64.URLEncoding\<close>, and
  \<^verbatim>\<open>makeSeed\<close> and \<^verbatim>\<open>nrand\<close>, which have the same body.  What \<^verbatim>\<open>crypto/rand\<close> draws is an argument.  The harnesses take the
  names they use as arguments; here is how likely it is that two of them are equal: only when 15 drawn bytes agree.
\<close>

subsection \<open>base64.URLEncoding\<close>

definition enc6 :: "nat \<Rightarrow> char" where
  "enc6 k = char_of (if k < 26 then 65 + k else if k < 52 then 71 + k else if k < 62 then k - 4 else if k = 62 then 45 else 95)"

fun EncodeToString :: "8 word list \<Rightarrow> string" where
  "EncodeToString (a # b # c # bs) =
     enc6 (unat a div 4) # enc6 (unat a mod 4 * 16 + unat b div 16) # enc6 (unat b mod 16 * 4 + unat c div 64) # enc6 (unat c mod 64)
       # EncodeToString bs"
| "EncodeToString [a, b] = [enc6 (unat a div 4), enc6 (unat a mod 4 * 16 + unat b div 16), enc6 (unat b mod 16 * 4), CHR ''='']"
| "EncodeToString [a] = [enc6 (unat a div 4), enc6 (unat a mod 4 * 16), CHR ''='', CHR ''='']"
| "EncodeToString [] = []"

text \<open>\<open>b\<close> are the \<open>2 * n\<close> bytes that are drawn; a string shorter than \<open>n\<close> makes the slice panic.\<close>

definition randstring :: "nat \<Rightarrow> 8 word list \<Rightarrow> string option" where
  "randstring n b = (let s = EncodeToString b in if n \<le> length s then Some (take n s) else None)"

text \<open>\<open>x\<close> is drawn below \<open>2 ^ 62\<close>; \<^verbatim>\<open>Int64\<close> takes the low 64 bits, with the sign.\<close>

definition makeSeed :: "int \<Rightarrow> int" where
  "makeSeed x = sint (word_of_int x :: 64 word)"

subsection \<open>Lengths and collisions\<close>

lemma byte_of_enc6: "k < 64 \<Longrightarrow> byte_of (enc6 k) = (if k < 26 then 65 + k else if k < 52 then 71 + k else if k < 62 then k - 4 else if k = 62 then 45 else 95)"
  by (simp add: enc6_def)

lemma enc6_inj:
  assumes "enc6 j = enc6 k" and "j < 64" "k < 64"
  shows "j = k"
proof -
  have "byte_of (enc6 j) = byte_of (enc6 k)" using assms(1) by simp
  then show ?thesis using assms(2,3) by (simp add: byte_of_enc6 split: if_splits)
qed

lemma length_EncodeToString: "length (EncodeToString b) = 4 * ((length b + 2) div 3)"
proof (induction b rule: EncodeToString.induct)
  case (1 a b c bs)
  have "(length (a # b # c # bs) + 2) div 3 = (length bs + 2) div 3 + 1" by simp
  then show ?case using 1 by (simp only: EncodeToString.simps list.size) simp
qed simp_all

lemma randstring_total: "length b = 2 * n \<Longrightarrow> \<exists>s. randstring n b = Some s \<and> length s = n"
  by (auto simp: randstring_def length_EncodeToString)

lemma take_EncodeToString:
  "3 * k \<le> length b \<Longrightarrow> take (4 * k) (EncodeToString b) = EncodeToString (take (3 * k) b)"
proof (induction k arbitrary: b)
  case (Suc k)
  then obtain x y z bs where b: "b = x # y # z # bs" by (cases b rule: EncodeToString.cases) auto
  have "4 * Suc k = Suc (Suc (Suc (Suc (4 * k))))" "3 * Suc k = Suc (Suc (Suc (3 * k)))" by simp_all
  then show ?case using Suc b by (simp only: take_Suc_Cons EncodeToString.simps) simp
qed simp

lemma digits_inj:
  assumes "x * k + u = y * k + v" and "u < k" "v < (k :: nat)"
  shows "x = y \<and> u = v"
proof -
  have "(x * k + u) div k = (y * k + v) div k" "(x * k + u) mod k = (y * k + v) mod k" by (simp_all only: assms(1))
  then show ?thesis using assms(2,3) by simp
qed

lemma triple_inj:
  fixes a a' b b' c c' :: "8 word"
  assumes "unat a div 4 = unat a' div 4" "unat a mod 4 * 16 + unat b div 16 = unat a' mod 4 * 16 + unat b' div 16"
    "unat b mod 16 * 4 + unat c div 64 = unat b' mod 16 * 4 + unat c' div 64" "unat c mod 64 = unat c' mod 64"
  shows "a = a' \<and> b = b' \<and> c = c'"
proof -
  have lt: "unat x < 256" for x :: "8 word" using unsigned_less [of x] by simp
  have "unat b div 16 < 16" "unat b' div 16 < 16" "unat c div 64 < 4" "unat c' div 64 < 4"
    using lt [of b] lt [of b'] lt [of c] lt [of c'] by (auto simp: less_mult_imp_div_less)
  then have "unat a mod 4 = unat a' mod 4" "unat b div 16 = unat b' div 16" "unat b mod 16 = unat b' mod 16" "unat c div 64 = unat c' div 64"
    using digits_inj [OF assms(2)] digits_inj [OF assms(3)] by blast+
  then have "unat a = unat a'" "unat b = unat b'" "unat c = unat c'"
    using assms(1,4) by (metis div_mult_mod_eq)+
  then show ?thesis by (simp add: word_unat_eq_iff)
qed

lemma EncodeToString_inj:
  "length b = 3 * k \<Longrightarrow> length b' = 3 * k \<Longrightarrow> EncodeToString b = EncodeToString b' \<Longrightarrow> b = b'"
proof (induction k arbitrary: b b')
  case (Suc k)
  obtain x y z bs where b: "b = x # y # z # bs" using Suc.prems(1) by (cases b rule: EncodeToString.cases) auto
  obtain x' y' z' bs' where b': "b' = x' # y' # z' # bs'" using Suc.prems(2) by (cases b' rule: EncodeToString.cases) auto
  have lt: "unat w < 256" for w :: "8 word" using unsigned_less [of w] by simp
  have small: "unat w div 4 < 64" "unat w mod 4 * 16 + unat v div 16 < 64" "unat w mod 16 * 4 + unat v div 64 < 64" "unat w mod 64 < 64" for w v :: "8 word"
    using lt [of w] lt [of v] by (auto simp: less_mult_imp_div_less)
  have "x = x' \<and> y = y' \<and> z = z'"
    using Suc.prems(3) unfolding b b' EncodeToString.simps list.inject
    by (elim conjE) (rule triple_inj; erule enc6_inj [OF _ small(1) small(1)] enc6_inj [OF _ small(2) small(2)]
        enc6_inj [OF _ small(3) small(3)] enc6_inj [OF _ small(4) small(4)])
  then show ?case using Suc b b' by simp
qed simp

text \<open>Two names of 20 characters are equal exactly when the first 15 bytes drawn for them are.\<close>

lemma randstring_collision:
  assumes "length b = 40" and "length b' = 40"
  shows "randstring 20 b = randstring 20 b' \<longleftrightarrow> take 15 b = take 15 b'"
proof -
  have r: "randstring 20 x = Some (EncodeToString (take 15 x))" if "length x = 40" for x
    using take_EncodeToString [of 5 x] that by (simp add: randstring_def length_EncodeToString)
  have "EncodeToString (take 15 b) = EncodeToString (take 15 b') \<longleftrightarrow> take 15 b = take 15 b'"
    using EncodeToString_inj [of "take 15 b" 5 "take 15 b'"] assms by auto
  then show ?thesis using r assms by simp
qed

lemma makeSeed_exact: "0 \<le> x \<Longrightarrow> x < 2 ^ 62 \<Longrightarrow> makeSeed x = x"
  by (simp add: makeSeed_def signed_of_int signed_take_bit_int_eq_self)

end
