(* ===== verification/Clerks.thy ===== *)
theory Clerks
  imports Go_Strings
begin

text \<open>
  The clients of the later labs: \<^verbatim>\<open>src/shardctrler/client.go\<close> and \<^verbatim>\<open>src/shardkv/client.go\<close> with the types of
  their \<^verbatim>\<open>common.go\<close>.  \<^verbatim>\<open>ClientEnd.Call\<close> is an argument: what the \<open>k\<close>-th call made answers when it goes to a
  given server, \<open>None\<close> being a call that returns false.  The retry loops are partial functions, so that a
  clerk that retries for ever has the result \<open>None\<close>; they return the number of the next call as well.
\<close>

subsection \<open>Shard controller: types\<close>

definition NShards :: nat where
  "NShards = 10"

record Config =
  cfg_Num :: int
  cfg_Shards :: "int list"
  cfg_Groups :: "int \<rightharpoonup> string list"

definition zero_Config :: Config where
  "zero_Config = \<lparr>cfg_Num = 0, cfg_Shards = replicate NShards 0, cfg_Groups = Map.empty\<rparr>"

record JoinArgs =
  ja_Servers :: "int \<rightharpoonup> string list"

record JoinReply =
  jr_WrongLeader :: bool
  jr_Err :: string

record LeaveArgs =
  la_GIDs :: "int list"

record LeaveReply =
  lr_WrongLeader :: bool
  lr_Err :: string

record MoveArgs =
  ma_Shard :: int
  ma_GID :: int

record MoveReply =
  mv_WrongLeader :: bool
  mv_Err :: string

record QueryArgs =
  qa_Num :: int

record QueryReply =
  qr_WrongLeader :: bool
  qr_Err :: string
  qr_Config :: Config

subsection \<open>Shard controller: the retry loops\<close>

text \<open>
  The four operations have the same loop: call each known server in turn until a call succeeds with a
  reply that is not \<^verbatim>\<open>WrongLeader\<close>, then start over.
\<close>

fun try_each :: "('e \<Rightarrow> nat \<Rightarrow> 'r option) \<Rightarrow> ('r \<Rightarrow> bool) \<Rightarrow> 'e list \<Rightarrow> nat \<Rightarrow> ('r \<times> nat) + nat" where
  "try_each call wrongLeader [] k = Inr k"
| "try_each call wrongLeader (srv # rest) k =
     (case call srv k of
        Some reply \<Rightarrow> if wrongLeader reply = False then Inl (reply, Suc k) else try_each call wrongLeader rest (Suc k)
      | None \<Rightarrow> try_each call wrongLeader rest (Suc k))"

partial_function (option) retry :: "('e \<Rightarrow> nat \<Rightarrow> 'r option) \<Rightarrow> ('r \<Rightarrow> bool) \<Rightarrow> 'e list \<Rightarrow> nat \<Rightarrow> ('r \<times> nat) option" where
  "retry call wrongLeader srvs k =
     (case try_each call wrongLeader srvs k of Inl x \<Rightarrow> Some x | Inr k' \<Rightarrow> retry call wrongLeader srvs k')"

record 'e CtrlClerk =
  ctl_servers :: "'e list"

definition MakeCtrlClerk :: "'e list \<Rightarrow> 'e CtrlClerk" where
  "MakeCtrlClerk srvs = \<lparr>ctl_servers = srvs\<rparr>"

definition Query :: "('e \<Rightarrow> string \<Rightarrow> QueryArgs \<Rightarrow> nat \<Rightarrow> QueryReply option) \<Rightarrow> 'e CtrlClerk \<Rightarrow> int \<Rightarrow> nat \<Rightarrow> (Config \<times> nat) option" where
  "Query call ck num k =
     map_option (\<lambda>(reply, k'). (qr_Config reply, k'))
       (retry (\<lambda>srv. call srv ''ShardCtrler.Query'' \<lparr>qa_Num = num\<rparr>) qr_WrongLeader (ctl_servers ck) k)"

definition CtrlJoin :: "('e \<Rightarrow> string \<Rightarrow> JoinArgs \<Rightarrow> nat \<Rightarrow> JoinReply option) \<Rightarrow> 'e CtrlClerk \<Rightarrow> (int \<rightharpoonup> string list) \<Rightarrow> nat \<Rightarrow> nat option" where
  "CtrlJoin call ck srvs k =
     map_option snd (retry (\<lambda>srv. call srv ''ShardCtrler.Join'' \<lparr>ja_Servers = srvs\<rparr>) jr_WrongLeader (ctl_servers ck) k)"

definition Leave :: "('e \<Rightarrow> string \<Rightarrow> LeaveArgs \<Rightarrow> nat \<Rightarrow> LeaveReply option) \<Rightarrow> 'e CtrlClerk \<Rightarrow> int list \<Rightarrow> nat \<Rightarrow> nat option" where
  "Leave call ck gids k =
     map_option snd (retry (\<lambda>srv. call srv ''ShardCtrler.Leave'' \<lparr>la_GIDs = gids\<rparr>) lr_WrongLeader (ctl_servers ck) k)"

definition Move :: "('e \<Rightarrow> string \<Rightarrow> MoveArgs \<Rightarrow> nat \<Rightarrow> MoveReply option) \<Rightarrow> 'e CtrlClerk \<Rightarrow> int \<Rightarrow> int \<Rightarrow> nat \<Rightarrow> nat option" where
  "Move call ck shard gid k =
     map_option snd (retry (\<lambda>srv. call srv ''ShardCtrler.Move'' \<lparr>ma_Shard = shard, ma_GID = gid\<rparr>) mv_WrongLeader (ctl_servers ck) k)"

subsection \<open>Sharded key/value store\<close>

definition key2shard :: "string \<Rightarrow> nat" where
  "key2shard key = (let shard = (if length key > 0 then byte_of (key ! 0) else 0) in shard mod NShards)"

record PutAppendArgs =
  pa_Key :: string
  pa_Value :: string
  pa_Op :: string

record PutAppendReply =
  pr_Err :: string

record GetArgs =
  ga_Key :: string

record GetReply =
  gr_Err :: string
  gr_Value :: string

record 'e Clerk =
  ck_sm :: "'e CtrlClerk"
  ck_config :: Config

definition MakeClerk :: "'e list \<Rightarrow> 'e Clerk" where
  "MakeClerk ctrlers = \<lparr>ck_sm = MakeCtrlClerk ctrlers, ck_config = zero_Config\<rparr>"

text \<open>The servers of the group that the clerk's configuration assigns to a key.\<close>

definition group_servers :: "Config \<Rightarrow> string \<Rightarrow> string list option option" where
  "group_servers cfg key = do {
     gid \<leftarrow> slice_get (cfg_Shards cfg) (int (key2shard key));
     Some (cfg_Groups cfg gid)
   }"

text \<open>The loop over the servers of a group: a final reply ends the operation, a wrong group ends the loop.\<close>

fun try_group :: "(string \<Rightarrow> nat \<Rightarrow> 'r option) \<Rightarrow> ('r \<Rightarrow> bool) \<Rightarrow> ('r \<Rightarrow> bool) \<Rightarrow> string list \<Rightarrow> nat \<Rightarrow> ('r \<times> nat) + nat" where
  "try_group call final wrongGroup [] k = Inr k"
| "try_group call final wrongGroup (srv # rest) k =
     (case call srv k of
        Some reply \<Rightarrow>
          if final reply then Inl (reply, Suc k)
          else if wrongGroup reply then Inr (Suc k)
          else try_group call final wrongGroup rest (Suc k)
      | None \<Rightarrow> try_group call final wrongGroup rest (Suc k))"

partial_function (option) clerk_loop ::
  "('e \<Rightarrow> string \<Rightarrow> QueryArgs \<Rightarrow> nat \<Rightarrow> QueryReply option) \<Rightarrow> (string \<Rightarrow> nat \<Rightarrow> 'r option) \<Rightarrow> ('r \<Rightarrow> bool) \<Rightarrow> ('r \<Rightarrow> bool) \<Rightarrow> string
    \<Rightarrow> 'e Clerk \<Rightarrow> nat \<Rightarrow> ('r \<times> 'e Clerk \<times> nat) option" where
  "clerk_loop ctl call final wrongGroup key ck k = do {
     servers \<leftarrow> group_servers (ck_config ck) key;
     case (case servers of Some ss \<Rightarrow> try_group call final wrongGroup ss k | None \<Rightarrow> Inr k) of
       Inl (reply, k') \<Rightarrow> Some (reply, ck, k')
     | Inr k' \<Rightarrow> do {
         (cfg, k'') \<leftarrow> Query ctl (ck_sm ck) (- 1) k';
         clerk_loop ctl call final wrongGroup key (ck\<lparr>ck_config := cfg\<rparr>) k''
       }
   }"

definition Get :: "('e \<Rightarrow> string \<Rightarrow> QueryArgs \<Rightarrow> nat \<Rightarrow> QueryReply option) \<Rightarrow> (string \<Rightarrow> string \<Rightarrow> GetArgs \<Rightarrow> nat \<Rightarrow> GetReply option) \<Rightarrow> string
    \<Rightarrow> 'e Clerk \<Rightarrow> nat \<Rightarrow> (string \<times> 'e Clerk \<times> nat) option" where
  "Get ctl call key ck k =
     map_option (\<lambda>(reply, r). (gr_Value reply, r))
       (clerk_loop ctl (\<lambda>srv. call srv ''ShardKV.Get'' \<lparr>ga_Key = key\<rparr>)
          (\<lambda>reply. gr_Err reply = ''OK'' \<or> gr_Err reply = ''ErrNoKey'') (\<lambda>reply. gr_Err reply = ''ErrWrongGroup'') key ck k)"

definition PutAppend :: "('e \<Rightarrow> string \<Rightarrow> QueryArgs \<Rightarrow> nat \<Rightarrow> QueryReply option) \<Rightarrow> (string \<Rightarrow> string \<Rightarrow> PutAppendArgs \<Rightarrow> nat \<Rightarrow> PutAppendReply option)
    \<Rightarrow> string \<Rightarrow> string \<Rightarrow> string \<Rightarrow> 'e Clerk \<Rightarrow> nat \<Rightarrow> ('e Clerk \<times> nat) option" where
  "PutAppend ctl call key value oper ck k =
     map_option snd
       (clerk_loop ctl (\<lambda>srv. call srv ''ShardKV.PutAppend'' \<lparr>pa_Key = key, pa_Value = value, pa_Op = oper\<rparr>)
          (\<lambda>reply. pr_Err reply = ''OK'') (\<lambda>reply. pr_Err reply = ''ErrWrongGroup'') key ck k)"

definition Put :: "('e \<Rightarrow> string \<Rightarrow> QueryArgs \<Rightarrow> nat \<Rightarrow> QueryReply option) \<Rightarrow> (string \<Rightarrow> string \<Rightarrow> PutAppendArgs \<Rightarrow> nat \<Rightarrow> PutAppendReply option)
    \<Rightarrow> string \<Rightarrow> string \<Rightarrow> 'e Clerk \<Rightarrow> nat \<Rightarrow> ('e Clerk \<times> nat) option" where
  "Put ctl call key value ck k = PutAppend ctl call key value ''Put'' ck k"

definition Append :: "('e \<Rightarrow> string \<Rightarrow> QueryArgs \<Rightarrow> nat \<Rightarrow> QueryReply option) \<Rightarrow> (string \<Rightarrow> string \<Rightarrow> PutAppendArgs \<Rightarrow> nat \<Rightarrow> PutAppendReply option)
    \<Rightarrow> string \<Rightarrow> string \<Rightarrow> 'e Clerk \<Rightarrow> nat \<Rightarrow> ('e Clerk \<times> nat) option" where
  "Append ctl call key value ck k = PutAppend ctl call key value ''Append'' ck k"

subsection \<open>The retry loop\<close>

text \<open>The \<open>j\<close>-th call of a loop that starts with call \<open>k\<close> goes to the servers in turn; this is the reply it accepts.\<close>

definition accepted :: "('e \<Rightarrow> nat \<Rightarrow> 'r option) \<Rightarrow> ('r \<Rightarrow> bool) \<Rightarrow> 'e list \<Rightarrow> nat \<Rightarrow> nat \<Rightarrow> 'r \<Rightarrow> bool" where
  "accepted call w srvs k j r \<longleftrightarrow> call (srvs ! ((j - k) mod length srvs)) j = Some r \<and> \<not> w r"

definition first_accepted :: "('e \<Rightarrow> nat \<Rightarrow> 'r option) \<Rightarrow> ('r \<Rightarrow> bool) \<Rightarrow> 'e list \<Rightarrow> nat \<Rightarrow> nat \<Rightarrow> 'r \<Rightarrow> bool" where
  "first_accepted call w srvs k j r \<longleftrightarrow> k \<le> j \<and> accepted call w srvs k j r \<and> (\<forall>i r'. k \<le> i \<longrightarrow> i < j \<longrightarrow> \<not> accepted call w srvs k i r')"

lemma try_each_cases:
  "(\<exists>i r. i < length srvs \<and> call (srvs ! i) (k + i) = Some r \<and> \<not> w r \<and> try_each call w srvs k = Inl (r, Suc (k + i))
      \<and> (\<forall>i' < i. \<forall>r'. call (srvs ! i') (k + i') = Some r' \<longrightarrow> w r'))
   \<or> (try_each call w srvs k = Inr (k + length srvs) \<and> (\<forall>i < length srvs. \<forall>r'. call (srvs ! i) (k + i) = Some r' \<longrightarrow> w r'))"
proof (induction srvs arbitrary: k)
  case Nil
  then show ?case by simp
next
  case (Cons srv srvs)
  show ?case
  proof (cases "\<exists>r. call srv k = Some r \<and> \<not> w r")
    case True
    then show ?thesis by (intro disjI1 exI [of _ 0]) auto
  next
    case False
    then have skip: "try_each call w (srv # srvs) k = try_each call w srvs (Suc k)" and no: "\<forall>r'. call srv k = Some r' \<longrightarrow> w r'"
      by (auto split: option.split)
    from Cons.IH [of "Suc k"] show ?thesis
    proof (elim disjE exE conjE)
      fix i r assume "i < length srvs" "call (srvs ! i) (Suc k + i) = Some r" "\<not> w r"
        "try_each call w srvs (Suc k) = Inl (r, Suc (Suc k + i))"
        "\<forall>i' < i. \<forall>r'. call (srvs ! i') (Suc k + i') = Some r' \<longrightarrow> w r'"
      then show ?thesis using skip no by (intro disjI1 exI [of _ "Suc i"] exI [of _ r]) (simp add: All_less_Suc2)
    next
      assume "try_each call w srvs (Suc k) = Inr (Suc k + length srvs)"
        "\<forall>i < length srvs. \<forall>r'. call (srvs ! i) (Suc k + i) = Some r' \<longrightarrow> w r'"
      then show ?thesis using skip no by (intro disjI2) (simp add: All_less_Suc2)
    qed
  qed
qed

lemma accepted_round: "i < length srvs \<Longrightarrow> accepted call w srvs k (k + i) r \<longleftrightarrow> call (srvs ! i) (k + i) = Some r \<and> \<not> w r"
  by (simp add: accepted_def)

lemma accepted_next_round:
  assumes "k + length srvs \<le> j"
  shows "accepted call w srvs (k + length srvs) j r = accepted call w srvs k j r"
proof -
  have "j - k = (j - (k + length srvs)) + length srvs" using assms by simp
  then have "(j - k) mod length srvs = (j - (k + length srvs)) mod length srvs" by (metis mod_add_self2)
  then show ?thesis by (simp add: accepted_def)
qed

lemma first_accepted_unique:
  "first_accepted call w srvs k j r \<Longrightarrow> first_accepted call w srvs k j' r' \<Longrightarrow> j = j' \<and> r = r'"
  unfolding first_accepted_def accepted_def by (metis linorder_neqE_nat option.inject)

lemma retry_complete:
  assumes "srvs \<noteq> []" and "first_accepted call w srvs k j r"
  shows "retry call w srvs k = Some (r, Suc j)"
  using assms(2)
proof (induction "j - k" arbitrary: k rule: less_induct)
  case less
  from try_each_cases [of srvs call k w] show ?case
  proof (elim disjE exE conjE)
    fix i r' assume i: "i < length srvs" "call (srvs ! i) (k + i) = Some r'" "\<not> w r'"
      "try_each call w srvs k = Inl (r', Suc (k + i))" "\<forall>i' < i. \<forall>r'. call (srvs ! i') (k + i') = Some r' \<longrightarrow> w r'"
    have "first_accepted call w srvs k (k + i) r'" unfolding first_accepted_def
    proof (intro conjI allI impI)
      fix i' s assume "k \<le> i'" "i' < k + i"
      then obtain d where "i' = k + d" "d < i" by (metis add_less_cancel_left le_Suc_ex)
      then show "\<not> accepted call w srvs k i' s" using i(1,5) accepted_round [of d srvs call w k s] by auto
    qed (use i in \<open>simp_all add: accepted_round\<close>)
    from first_accepted_unique [OF this less.prems] have "k + i = j" "r' = r" by simp_all
    then show ?thesis using i(4) by (simp add: retry.simps)
  next
    assume none: "try_each call w srvs k = Inr (k + length srvs)"
      "\<forall>i < length srvs. \<forall>r'. call (srvs ! i) (k + i) = Some r' \<longrightarrow> w r'"
    have j: "k + length srvs \<le> j"
    proof (rule ccontr)
      assume "\<not> k + length srvs \<le> j"
      moreover have "k \<le> j" using less.prems by (simp add: first_accepted_def)
      ultimately obtain d where "j = k + d" "d < length srvs" by (metis le_Suc_ex nat_add_left_cancel_le not_le)
      then show False using less.prems none(2) accepted_round [of d srvs call w k r] by (auto simp: first_accepted_def)
    qed
    have "first_accepted call w srvs (k + length srvs) j r"
      using less.prems j by (simp add: first_accepted_def accepted_next_round)
    moreover have "j - (k + length srvs) < j - k" using j assms(1) by (cases srvs) auto
    ultimately show ?thesis using less.hyps none(1) by (simp add: retry.simps [of call w srvs k])
  qed
qed

lemma retry_sound:
  fixes call :: "'e \<Rightarrow> nat \<Rightarrow> 'r option"
  assumes "retry call w srvs k = Some y" and "srvs \<noteq> []"
  shows "\<exists>j r. k \<le> j \<and> accepted call w srvs k j r"
proof -
  let ?P = "\<lambda>call w srvs k (y :: 'r \<times> nat). srvs \<noteq> [] \<longrightarrow> (\<exists>j r. k \<le> j \<and> accepted call w (srvs :: 'e list) k j (r :: 'r))"
  have step: "?P call w srvs k y"
    if IH: "\<And>call w srvs k y. f call w srvs k = Some y \<Longrightarrow> ?P call w srvs k y"
      and run: "(case try_each call w srvs k of Inl x \<Rightarrow> Some x | Inr k' \<Rightarrow> f call w srvs k') = Some y" for f call w srvs k y
    using try_each_cases [of srvs call k w]
  proof (elim disjE exE conjE)
    fix i r assume "i < length srvs" "call (srvs ! i) (k + i) = Some r" "\<not> w r"
    then show ?thesis using accepted_round [of i srvs call w k r] by (metis le_add1)
  next
    assume "try_each call w srvs k = Inr (k + length srvs)"
    then have "?P call w srvs (k + length srvs) y" using IH [of call w srvs "k + length srvs" y] run by simp
    then show ?thesis using accepted_next_round [of k srvs _ call w] by (metis le_add1 le_trans)
  qed
  have "?P call w srvs k y" by (rule retry.raw_induct [of ?P, OF _ assms(1)]) (rule step)
  with assms(2) show ?thesis by blast
qed

text \<open>The loop returns exactly when some call is accepted, and then with the first accepted reply.\<close>

lemma retry_iff:
  assumes "srvs \<noteq> []"
  shows "retry call w srvs k = Some (r, k') \<longleftrightarrow> (\<exists>j. k' = Suc j \<and> first_accepted call w srvs k j r)"
proof
  assume run: "retry call w srvs k = Some (r, k')"
  define P where "P j \<longleftrightarrow> k \<le> j \<and> (\<exists>r. accepted call w srvs k j r)" for j
  obtain j0 where "P j0" using retry_sound [OF run assms] by (auto simp: P_def)
  then have least: "P (LEAST j. P j)" and min: "\<And>i. i < (LEAST j. P j) \<Longrightarrow> \<not> P i" by (auto intro: LeastI dest: not_less_Least)
  obtain r' where "accepted call w srvs k (LEAST j. P j) r'" using least by (auto simp: P_def)
  then have "first_accepted call w srvs k (LEAST j. P j) r'" using least min by (auto simp: first_accepted_def P_def)
  moreover from retry_complete [OF assms this] run have "r' = r" "k' = Suc (LEAST j. P j)" by simp_all
  ultimately show "\<exists>j. k' = Suc j \<and> first_accepted call w srvs k j r" by blast
next
  assume "\<exists>j. k' = Suc j \<and> first_accepted call w srvs k j r"
  then show "retry call w srvs k = Some (r, k')" by (auto simp: retry_complete [OF assms])
qed

subsection \<open>The key/value clerk\<close>

lemma try_group_Inl:
  "try_group call final wg ss k = Inl (r, k') \<Longrightarrow> \<exists>srv \<in> set ss. \<exists>j \<ge> k. call srv j = Some r \<and> final r \<and> k' = Suc j"
proof (induction ss arbitrary: k)
  case (Cons srv ss)
  show ?case
  proof (cases "call srv k")
    case None
    then show ?thesis using Cons.IH [of "Suc k"] Cons.prems by auto
  next
    case (Some reply)
    then show ?thesis using Cons.IH [of "Suc k"] Cons.prems by (auto split: if_splits)
  qed
qed simp

text \<open>A configuration the clerk uses: its own, or one that a controller gave as the answer to a query for the latest.\<close>

definition known_config :: "('e \<Rightarrow> string \<Rightarrow> QueryArgs \<Rightarrow> nat \<Rightarrow> QueryReply option) \<Rightarrow> 'e Clerk \<Rightarrow> Config \<Rightarrow> bool" where
  "known_config ctl ck cfg \<longleftrightarrow> cfg = ck_config ck \<or>
     (\<exists>srv \<in> set (ctl_servers (ck_sm ck)). \<exists>j reply. ctl srv ''ShardCtrler.Query'' \<lparr>qa_Num = - 1\<rparr> j = Some reply
        \<and> \<not> qr_WrongLeader reply \<and> cfg = qr_Config reply)"

definition answered :: "('e \<Rightarrow> string \<Rightarrow> QueryArgs \<Rightarrow> nat \<Rightarrow> QueryReply option) \<Rightarrow> (string \<Rightarrow> nat \<Rightarrow> 'r option) \<Rightarrow> ('r \<Rightarrow> bool) \<Rightarrow> string
    \<Rightarrow> 'e Clerk \<Rightarrow> 'r \<Rightarrow> bool" where
  "answered ctl call final key ck reply \<longleftrightarrow>
     (\<exists>cfg ss srv j. known_config ctl ck cfg \<and> group_servers cfg key = Some (Some ss) \<and> srv \<in> set ss
        \<and> call srv j = Some reply \<and> final reply)"

lemma Query_config:
  assumes "Query ctl sm (- 1) k = Some (cfg, k')" and "ctl_servers sm \<noteq> []"
  shows "\<exists>srv \<in> set (ctl_servers sm). \<exists>j reply. ctl srv ''ShardCtrler.Query'' \<lparr>qa_Num = - 1\<rparr> j = Some reply
        \<and> \<not> qr_WrongLeader reply \<and> cfg = qr_Config reply"
proof -
  obtain reply where r: "retry (\<lambda>srv. ctl srv ''ShardCtrler.Query'' \<lparr>qa_Num = - 1\<rparr>) qr_WrongLeader (ctl_servers sm) k = Some (reply, k')"
    "cfg = qr_Config reply" using assms(1) by (auto simp: Query_def)
  then obtain j where "accepted (\<lambda>srv. ctl srv ''ShardCtrler.Query'' \<lparr>qa_Num = - 1\<rparr>) qr_WrongLeader (ctl_servers sm) k j reply"
    unfolding retry_iff [OF assms(2)] by (auto simp: first_accepted_def)
  moreover have "ctl_servers sm ! ((j - k) mod length (ctl_servers sm)) \<in> set (ctl_servers sm)" using assms(2) by simp
  ultimately show ?thesis using r(2) unfolding accepted_def by blast
qed

lemma clerk_loop_answered:
  fixes ctl :: "'e \<Rightarrow> string \<Rightarrow> QueryArgs \<Rightarrow> nat \<Rightarrow> QueryReply option" and call :: "string \<Rightarrow> nat \<Rightarrow> 'r option"
  assumes "clerk_loop ctl call final wg key ck k = Some (reply, ck', k')" and "ctl_servers (ck_sm ck) \<noteq> []"
  shows "answered ctl call final key ck reply"
proof -
  let ?P = "\<lambda>(ctl :: 'e \<Rightarrow> string \<Rightarrow> QueryArgs \<Rightarrow> nat \<Rightarrow> QueryReply option) (call :: string \<Rightarrow> nat \<Rightarrow> 'r option) (final :: 'r \<Rightarrow> bool)
      (wg :: 'r \<Rightarrow> bool) key ck (k :: nat) (y :: 'r \<times> 'e Clerk \<times> nat).
      ctl_servers (ck_sm ck) \<noteq> [] \<longrightarrow> answered ctl call final key ck (fst y)"
  have step: "?P ctl call final wg key ck k y"
    if IH: "\<And>ctl call final wg key ck k y. f ctl call final wg key ck k = Some y \<Longrightarrow> ?P ctl call final wg key ck k y"
      and run: "group_servers (ck_config ck) key \<bind> (\<lambda>servers.
         case (case servers of Some ss \<Rightarrow> try_group call final wg ss k | None \<Rightarrow> Inr k) of
           Inl (reply, k') \<Rightarrow> Some (reply, ck, k')
         | Inr k' \<Rightarrow> Query ctl (ck_sm ck) (- 1) k' \<bind> (\<lambda>(cfg, k''). f ctl call final wg key (ck\<lparr>ck_config := cfg\<rparr>) k'')) = Some y"
    for f ctl call final wg key ck k y
  proof
    assume ne: "ctl_servers (ck_sm ck) \<noteq> []"
    obtain servers where sv: "group_servers (ck_config ck) key = Some servers" using run by (auto simp: option_bind_simps)
    show "answered ctl call final key ck (fst y)"
    proof (cases "case servers of Some ss \<Rightarrow> try_group call final wg ss k | None \<Rightarrow> Inr k")
      case (Inl x)
      obtain reply k' where x: "x = (reply, k')" by fastforce
      obtain ss where ss: "servers = Some ss" "try_group call final wg ss k = Inl (reply, k')"
        using Inl x by (cases servers) auto
      have "fst y = reply" using run sv Inl x by auto
      with try_group_Inl [OF ss(2)] sv ss(1) show ?thesis unfolding answered_def known_config_def by blast
    next
      case (Inr k1)
      obtain cfg k2 where q: "Query ctl (ck_sm ck) (- 1) k1 = Some (cfg, k2)" "f ctl call final wg key (ck\<lparr>ck_config := cfg\<rparr>) k2 = Some y"
        using run sv Inr by (auto simp: option_bind_simps)
      have "answered ctl call final key (ck\<lparr>ck_config := cfg\<rparr>) (fst y)" using IH [OF q(2)] ne by simp
      moreover have "known_config ctl ck c" if "known_config ctl (ck\<lparr>ck_config := cfg\<rparr>) c" for c
        using that Query_config [OF q(1) ne] unfolding known_config_def by auto
      ultimately show ?thesis unfolding answered_def by blast
    qed
  qed
  have "?P ctl call final wg key ck k (reply, ck', k')"
    by (rule clerk_loop.raw_induct [of ?P, OF _ assms(1)]) (rule step)
  with assms(2) show ?thesis by simp
qed

lemma key2shard_bound: "key2shard key < NShards"
  by (simp add: key2shard_def NShards_def Let_def)

subsection \<open>Properties\<close>

text \<open>A query of the shard controller's clerk returns exactly when some call to one of its servers, tried in
  turn again and again, succeeds with a reply that is not \<^verbatim>\<open>WrongLeader\<close>; it returns the configuration of
  the first such reply, and retries for ever when there is none.\<close>

lemma Query_first_answer:
  assumes "ctl_servers ck \<noteq> []"
  shows "Query call ck num k = Some (cfg, k') \<longleftrightarrow>
     (\<exists>j reply. k' = Suc j \<and> cfg = qr_Config reply \<and>
        first_accepted (\<lambda>srv. call srv ''ShardCtrler.Query'' \<lparr>qa_Num = num\<rparr>) qr_WrongLeader (ctl_servers ck) k j reply)"
proof -
  let ?call = "\<lambda>srv. call srv ''ShardCtrler.Query'' \<lparr>qa_Num = num\<rparr>"
  have "Query call ck num k = Some (cfg, k') \<longleftrightarrow>
      (\<exists>reply. retry ?call qr_WrongLeader (ctl_servers ck) k = Some (reply, k') \<and> cfg = qr_Config reply)"
    by (auto simp: Query_def)
  then show ?thesis unfolding retry_iff [OF assms] by blast
qed

definition sample_config :: Config where
  "sample_config = \<lparr>cfg_Num = 1, cfg_Shards = replicate 10 100, cfg_Groups = [100 \<mapsto> [''srv'']]\<rparr>"

definition sample_ctl :: "nat \<Rightarrow> string \<Rightarrow> QueryArgs \<Rightarrow> nat \<Rightarrow> QueryReply option" where
  "sample_ctl srv meth args k = (if k < 3 then None
     else Some \<lparr>qr_WrongLeader = (srv = 0), qr_Err = ''OK'', qr_Config = sample_config\<rparr>)"

text \<open>Two controllers, of which the second leads: the first two calls fail, the third is refused.\<close>

text \<open>C25: A value that the key/value clerk's \<^verbatim>\<open>Get\<close> returns was sent by a server: some call to a server of the group that
  is responsible for the key, in the clerk's configuration or in one that a leading controller sent,
  answered \<^verbatim>\<open>OK\<close> or \<^verbatim>\<open>ErrNoKey\<close> with this value.\<close>

theorem Get_value_from_group:
  assumes "ctl_servers (ck_sm ck) \<noteq> []" and "Get ctl call key ck k = Some (v, ck', k')"
  shows "\<exists>cfg ss srv j reply. known_config ctl ck cfg \<and> group_servers cfg key = Some (Some ss) \<and> srv \<in> set ss
     \<and> call srv ''ShardKV.Get'' \<lparr>ga_Key = key\<rparr> j = Some reply \<and> gr_Err reply \<in> {''OK'', ''ErrNoKey''} \<and> v = gr_Value reply"
proof -
  obtain reply where r: "clerk_loop ctl (\<lambda>srv. call srv ''ShardKV.Get'' \<lparr>ga_Key = key\<rparr>)
      (\<lambda>reply. gr_Err reply = ''OK'' \<or> gr_Err reply = ''ErrNoKey'') (\<lambda>reply. gr_Err reply = ''ErrWrongGroup'') key ck k
      = Some (reply, ck', k')" "v = gr_Value reply"
    using assms(2) by (auto simp: Get_def)
  from clerk_loop_answered [OF r(1) assms(1)] r(2) show ?thesis unfolding answered_def by blast
qed

definition sample_kv :: "string \<Rightarrow> string \<Rightarrow> GetArgs \<Rightarrow> nat \<Rightarrow> GetReply option" where
  "sample_kv srv meth args k = Some \<lparr>gr_Err = ''OK'', gr_Value = ''v'' @ ga_Key args\<rparr>"

text \<open>A new clerk has no configuration: it asks the controllers first.\<close>

lemma sample_get: "Get sample_ctl sample_kv ''k'' (MakeClerk [1]) 3 = Some (''vk'', MakeClerk [1]\<lparr>ck_config := sample_config\<rparr>, 5)"
proof -
  have q: "Query sample_ctl (MakeCtrlClerk [1]) (- 1) 3 = Some (sample_config, 4)"
    by (simp add: Query_def MakeCtrlClerk_def retry.simps sample_ctl_def)
  have s: "group_servers zero_Config ''k'' = Some None" "group_servers sample_config ''k'' = Some (Some [''srv''])"
    by (simp_all add: group_servers_def slice_get_def zero_Config_def sample_config_def key2shard_def NShards_def)
  show ?thesis
    by (simp add: Get_def MakeClerk_def s q [simplified] clerk_loop.simps sample_kv_def)
qed

theorem Get_value_from_group_witness:
  "\<exists>srv j reply. sample_kv srv ''ShardKV.Get'' \<lparr>ga_Key = ''k''\<rparr> j = Some reply \<and> gr_Value reply = ''vk''"
proof -
  have "ctl_servers (ck_sm (MakeClerk [1 :: nat])) \<noteq> []" by (simp add: MakeClerk_def MakeCtrlClerk_def)
  from Get_value_from_group [OF this sample_get] show ?thesis by metis
qed

end
