(* ===== verification/Servers.thy ===== *)
theory Servers
  imports Raft Clerks
begin

text \<open>
  The servers and the client of the later labs as the repository has them: \<^verbatim>\<open>src/kvraft/server.go\<close> and
  \<^verbatim>\<open>client.go\<close>, \<^verbatim>\<open>src/shardctrler/server.go\<close>, \<^verbatim>\<open>src/shardkv/server.go\<close>.  The bodies of their handlers are still
  to be written, so a handler leaves its reply as it is; starting and killing a server starts and
  kills its Raft peer.  \<^verbatim>\<open>labgob.Register\<close> only matters to the encoder.
\<close>

subsection \<open>The key/value server and its clerk\<close>

record KVServer =
  kv_me :: int
  kv_rf :: Raft
  kv_dead :: int
  kv_maxraftstate :: int

definition KVServer_Get :: "GetArgs \<Rightarrow> GetReply \<Rightarrow> KVServer \<Rightarrow> GetReply \<times> KVServer" where
  "KVServer_Get args reply kv = (reply, kv)"

definition KVServer_PutAppend :: "PutAppendArgs \<Rightarrow> PutAppendReply \<Rightarrow> KVServer \<Rightarrow> PutAppendReply \<times> KVServer" where
  "KVServer_PutAppend args reply kv = (reply, kv)"

definition KVServer_Kill :: "KVServer \<Rightarrow> KVServer" where
  "KVServer_Kill kv = (let kv1 = kv\<lparr>kv_dead := 1\<rparr> in kv1\<lparr>kv_rf := Kill (kv_rf kv1)\<rparr>)"

definition KVServer_killed :: "KVServer \<Rightarrow> bool" where
  "KVServer_killed kv = (let z = kv_dead kv in z = 1)"

definition StartKVServer :: "(nat \<Rightarrow> nat) \<Rightarrow> int \<Rightarrow> int \<Rightarrow> nat \<Rightarrow> int \<Rightarrow> Persister \<Rightarrow> int \<Rightarrow> KVServer option" where
  "StartKVServer alloc now r nservers self ps maxraftstate = do {
     rf \<leftarrow> Make alloc now r nservers self ps;
     Some \<lparr>kv_me = self, kv_rf = rf, kv_dead = 0, kv_maxraftstate = maxraftstate\<rparr>
   }"

text \<open>The clerk of \<^verbatim>\<open>kvraft\<close> has no calls in it yet either.\<close>

record 'e KvClerk =
  kvc_servers :: "'e list"

definition MakeKvClerk :: "'e list \<Rightarrow> 'e KvClerk" where
  "MakeKvClerk srvs = \<lparr>kvc_servers = srvs\<rparr>"

definition KvClerk_Get :: "string \<Rightarrow> 'e KvClerk \<Rightarrow> string \<times> 'e KvClerk" where
  "KvClerk_Get key ck = ('''', ck)"

definition KvClerk_PutAppend :: "string \<Rightarrow> string \<Rightarrow> string \<Rightarrow> 'e KvClerk \<Rightarrow> 'e KvClerk" where
  "KvClerk_PutAppend key val opr ck = ck"

definition KvClerk_Put :: "string \<Rightarrow> string \<Rightarrow> 'e KvClerk \<Rightarrow> 'e KvClerk" where
  "KvClerk_Put key val ck = KvClerk_PutAppend key val ''Put'' ck"

definition KvClerk_Append :: "string \<Rightarrow> string \<Rightarrow> 'e KvClerk \<Rightarrow> 'e KvClerk" where
  "KvClerk_Append key val ck = KvClerk_PutAppend key val ''Append'' ck"

subsection \<open>The shard controller\<close>

record ShardCtrler =
  sc_me :: int
  sc_rf :: Raft
  sc_configs :: "Config list"

definition ShardCtrler_Join :: "JoinArgs \<Rightarrow> JoinReply \<Rightarrow> ShardCtrler \<Rightarrow> JoinReply \<times> ShardCtrler" where
  "ShardCtrler_Join args reply sc = (reply, sc)"

definition ShardCtrler_Leave :: "LeaveArgs \<Rightarrow> LeaveReply \<Rightarrow> ShardCtrler \<Rightarrow> LeaveReply \<times> ShardCtrler" where
  "ShardCtrler_Leave args reply sc = (reply, sc)"

definition ShardCtrler_Move :: "MoveArgs \<Rightarrow> MoveReply \<Rightarrow> ShardCtrler \<Rightarrow> MoveReply \<times> ShardCtrler" where
  "ShardCtrler_Move args reply sc = (reply, sc)"

definition ShardCtrler_Query :: "QueryArgs \<Rightarrow> QueryReply \<Rightarrow> ShardCtrler \<Rightarrow> QueryReply \<times> ShardCtrler" where
  "ShardCtrler_Query args reply sc = (reply, sc)"

definition ShardCtrler_Kill :: "ShardCtrler \<Rightarrow> ShardCtrler" where
  "ShardCtrler_Kill sc = sc\<lparr>sc_rf := Kill (sc_rf sc)\<rparr>"

definition ShardCtrler_Raft :: "ShardCtrler \<Rightarrow> Raft" where
  "ShardCtrler_Raft sc = sc_rf sc"

definition StartCtrler :: "(nat \<Rightarrow> nat) \<Rightarrow> int \<Rightarrow> int \<Rightarrow> nat \<Rightarrow> int \<Rightarrow> Persister \<Rightarrow> ShardCtrler option" where
  "StartCtrler alloc now r nservers self ps = do {
     let configs = [zero_Config\<lparr>cfg_Groups := Map.empty\<rparr>];
     rf \<leftarrow> Make alloc now r nservers self ps;
     Some \<lparr>sc_me = self, sc_rf = rf, sc_configs = configs\<rparr>
   }"

subsection \<open>The sharded key/value server\<close>

text \<open>\<open>'e\<close> are client ends; \<^verbatim>\<open>make_end\<close> is the function that makes one from a server's name.\<close>

record 'e ShardKV =
  sk_me :: int
  sk_rf :: Raft
  sk_make_end :: "string \<Rightarrow> 'e"
  sk_gid :: int
  sk_ctrlers :: "'e list"
  sk_maxraftstate :: int

definition ShardKV_Get :: "GetArgs \<Rightarrow> GetReply \<Rightarrow> 'e ShardKV \<Rightarrow> GetReply \<times> 'e ShardKV" where
  "ShardKV_Get args reply kv = (reply, kv)"

definition ShardKV_PutAppend :: "PutAppendArgs \<Rightarrow> PutAppendReply \<Rightarrow> 'e ShardKV \<Rightarrow> PutAppendReply \<times> 'e ShardKV" where
  "ShardKV_PutAppend args reply kv = (reply, kv)"

definition ShardKV_Kill :: "'e ShardKV \<Rightarrow> 'e ShardKV" where
  "ShardKV_Kill kv = kv\<lparr>sk_rf := Kill (sk_rf kv)\<rparr>"

definition StartShardKV :: "(nat \<Rightarrow> nat) \<Rightarrow> int \<Rightarrow> int \<Rightarrow> nat \<Rightarrow> int \<Rightarrow> Persister \<Rightarrow> int \<Rightarrow> int \<Rightarrow> 'e list \<Rightarrow> (string \<Rightarrow> 'e) \<Rightarrow> 'e ShardKV option" where
  "StartShardKV alloc now r nservers self ps maxraftstate gid ctrlers make_end = do {
     rf \<leftarrow> Make alloc now r nservers self ps;
     Some \<lparr>sk_me = self, sk_rf = rf, sk_make_end = make_end, sk_gid = gid, sk_ctrlers = ctrlers, sk_maxraftstate = maxraftstate\<rparr>
   }"

subsection \<open>Clerks against these servers\<close>

text \<open>
  Calls to the controllers and to the key/value servers: \<open>up srv k\<close> says whether call \<open>k\<close> reaches the server
  and returns; the reply then is what the handler makes of a fresh reply, and the state of the server
  \<open>st srv k\<close> does not matter.
\<close>

definition ctl_call :: "('e \<Rightarrow> nat \<Rightarrow> bool) \<Rightarrow> ('e \<Rightarrow> nat \<Rightarrow> ShardCtrler) \<Rightarrow> 'e \<Rightarrow> string \<Rightarrow> QueryArgs \<Rightarrow> nat \<Rightarrow> QueryReply option" where
  "ctl_call up st srv meth args k = (if up srv k
     then Some (fst (ShardCtrler_Query args \<lparr>qr_WrongLeader = False, qr_Err = '''', qr_Config = zero_Config\<rparr> (st srv k))) else None)"

lemma zero_Config_no_group: "group_servers zero_Config key = Some None"
  using key2shard_bound [of key] by (simp add: group_servers_def zero_Config_def slice_get_def)

text \<open>The clerk of the sharded store and the servers of the repository do not work together yet: whichever calls
  get through and whatever the key/value servers would answer, \<^verbatim>\<open>Get\<close> of a new clerk never returns.  The
  empty \<^verbatim>\<open>Query\<close> handler sends the initial configuration, which has no groups, so no server is ever asked
  for the key.\<close>

lemma Get_never_returns:
  assumes "ctrlers \<noteq> []"
  shows "Get (ctl_call up st) call key (MakeClerk ctrlers) k = None"
proof (rule ccontr)
  assume "Get (ctl_call up st) call key (MakeClerk ctrlers) k \<noteq> None"
  then obtain r ck' k' where "clerk_loop (ctl_call up st) (\<lambda>srv. call srv ''ShardKV.Get'' \<lparr>ga_Key = key\<rparr>)
      (\<lambda>reply. gr_Err reply = ''OK'' \<or> gr_Err reply = ''ErrNoKey'') (\<lambda>reply. gr_Err reply = ''ErrWrongGroup'') key (MakeClerk ctrlers) k
      = Some (r, ck', k')" by (auto simp: Get_def)
  from clerk_loop_answered [OF this] assms obtain cfg ss where
    cfg: "known_config (ctl_call up st) (MakeClerk ctrlers) cfg" "group_servers cfg key = Some (Some ss)"
    unfolding answered_def by (auto simp: MakeClerk_def MakeCtrlClerk_def)
  then have "cfg = zero_Config"
    by (auto simp: known_config_def MakeClerk_def ctl_call_def ShardCtrler_Query_def split: if_splits)
  with cfg(2) zero_Config_no_group show False by simp
qed

subsection \<open>Debug printing\<close>

text \<open>\<^verbatim>\<open>DPrintf\<close> of \<^verbatim>\<open>src/raft/util.go\<close> and of \<^verbatim>\<open>src/kvraft/server.go\<close>: \<open>printf\<close> is \<^verbatim>\<open>log.Printf\<close> on an arbitrary world.  Both results, which
  are never set, are the number of bytes and the error.\<close>

definition raft_Debug :: bool where
  "raft_Debug = False"

definition raft_DPrintf :: "(string \<Rightarrow> 'a list \<Rightarrow> 'w \<Rightarrow> 'w) \<Rightarrow> string \<Rightarrow> 'a list \<Rightarrow> 'w \<Rightarrow> (int \<times> string option) \<times> 'w" where
  "raft_DPrintf printf format a w = ((0, None), if raft_Debug then printf format a w else w)"

definition kv_Debug :: bool where
  "kv_Debug = False"

definition kv_DPrintf :: "(string \<Rightarrow> 'a list \<Rightarrow> 'w \<Rightarrow> 'w) \<Rightarrow> string \<Rightarrow> 'a list \<Rightarrow> 'w \<Rightarrow> (int \<times> string option) \<times> 'w" where
  "kv_DPrintf printf format a w = ((0, None), if kv_Debug then printf format a w else w)"

end
