(* ===== verification/Kv_Harness.thy ===== *)
theory Kv_Harness
  imports Servers Raft_Harness
begin

text \<open>
  \<^verbatim>\<open>src/kvraft/config.go\<close>, and \<^verbatim>\<open>src/shardctrler/config.go\<close>, which has the same code over shard controllers: the
  harness of a replicated service, with clients and with partitions of the network.  The state is
  parametric in the servers \<open>'s\<close>; as in the Raft harness, a pointer to a server is an address in the list
  of all servers ever started, a persister belongs to a server or to none, and names are drawn
  outside.  A \<^verbatim>\<open>*Clerk\<close> is a number.
\<close>

subsection \<open>State\<close>

record 's kvconfig =
  kc_net :: "(string, int) Network"
  kc_n :: nat
  kc_insts :: "'s list"
  kc_servers :: "nat option list"
  kc_saved :: "saved option list"
  kc_endnames :: "string list option list"
  kc_clerks :: "nat \<rightharpoonup> string list"
  kc_nextClientId :: int
  kc_maxraftstate :: int
  kc_start :: int
  kc_t0 :: int
  kc_rpcs0 :: int
  kc_ops :: "32 word"

text \<open>\<^verbatim>\<open>random_handles\<close>: \<open>draw i\<close> is the result of \<^verbatim>\<open>rand.Intn(i + 1)\<close>.\<close>

fun handles_loop :: "(nat \<Rightarrow> nat) \<Rightarrow> nat list \<Rightarrow> 'e list \<Rightarrow> 'e list option" where
  "handles_loop draw [] sa = Some sa"
| "handles_loop draw (i # is) sa = do {
     let j = draw i;
     x \<leftarrow> slice_get sa (int i);
     y \<leftarrow> slice_get sa (int j);
     sa1 \<leftarrow> slice_set sa (int i) y;
     sa2 \<leftarrow> slice_set sa1 (int j) x;
     handles_loop draw is sa2
   }"

definition random_handles :: "(nat \<Rightarrow> nat) \<Rightarrow> 'e list \<Rightarrow> 'e list option" where
  "random_handles draw kvh = handles_loop draw [0..<length kvh] kvh"

subsection \<open>Connections between servers\<close>

definition kc_endname :: "int \<Rightarrow> int \<Rightarrow> 's kvconfig \<Rightarrow> string option" where
  "kc_endname i j cfg = do {
     row \<leftarrow> slice_get (kc_endnames cfg) i;
     names \<leftarrow> row;
     slice_get names j
   }"

definition kc_Enable :: "string \<Rightarrow> bool \<Rightarrow> 's kvconfig \<Rightarrow> 's kvconfig" where
  "kc_Enable e on cfg = cfg\<lparr>kc_net := Enable e on (kc_net cfg)\<rparr>"

fun kc_connect_out :: "int \<Rightarrow> int list \<Rightarrow> 's kvconfig \<Rightarrow> 's kvconfig option" where
  "kc_connect_out i [] cfg = Some cfg"
| "kc_connect_out i (j # js) cfg = do { e \<leftarrow> kc_endname i j cfg; kc_connect_out i js (kc_Enable e True cfg) }"

fun kc_connect_in :: "int \<Rightarrow> int list \<Rightarrow> 's kvconfig \<Rightarrow> 's kvconfig option" where
  "kc_connect_in i [] cfg = Some cfg"
| "kc_connect_in i (j # js) cfg = do { e \<leftarrow> kc_endname j i cfg; kc_connect_in i js (kc_Enable e True cfg) }"

definition connectUnlocked :: "int \<Rightarrow> int list \<Rightarrow> 's kvconfig \<Rightarrow> 's kvconfig option" where
  "connectUnlocked i to cfg = do { cfg1 \<leftarrow> kc_connect_out i to cfg; kc_connect_in i to cfg1 }"

definition kc_connect :: "int \<Rightarrow> int list \<Rightarrow> 's kvconfig \<Rightarrow> 's kvconfig option" where
  "kc_connect i to cfg = connectUnlocked i to cfg"

fun kc_disconnect_out :: "int \<Rightarrow> int list \<Rightarrow> 's kvconfig \<Rightarrow> 's kvconfig option" where
  "kc_disconnect_out i [] cfg = Some cfg"
| "kc_disconnect_out i (j # js) cfg = do {
     row \<leftarrow> slice_get (kc_endnames cfg) i;
     (if row \<noteq> None then do { e \<leftarrow> kc_endname i j cfg; kc_disconnect_out i js (kc_Enable e False cfg) }
      else kc_disconnect_out i js cfg)
   }"

text \<open>The second loop asks for the row of its counter \<open>k\<close>, not for the row of the server that it goes on with.\<close>

fun kc_disconnect_in :: "int \<Rightarrow> int \<Rightarrow> int list \<Rightarrow> 's kvconfig \<Rightarrow> 's kvconfig option" where
  "kc_disconnect_in i k [] cfg = Some cfg"
| "kc_disconnect_in i k (j # js) cfg = do {
     row \<leftarrow> slice_get (kc_endnames cfg) k;
     (if row \<noteq> None then do { e \<leftarrow> kc_endname j i cfg; kc_disconnect_in i (k + 1) js (kc_Enable e False cfg) }
      else kc_disconnect_in i (k + 1) js cfg)
   }"

definition disconnectUnlocked :: "int \<Rightarrow> int list \<Rightarrow> 's kvconfig \<Rightarrow> 's kvconfig option" where
  "disconnectUnlocked i from cfg = do { cfg1 \<leftarrow> kc_disconnect_out i from cfg; kc_disconnect_in i 0 from cfg1 }"

definition kc_disconnect :: "int \<Rightarrow> int list \<Rightarrow> 's kvconfig \<Rightarrow> 's kvconfig option" where
  "kc_disconnect i from cfg = disconnectUnlocked i from cfg"

definition kc_All :: "'s kvconfig \<Rightarrow> int list" where
  "kc_All cfg = map int [0..<kc_n cfg]"

fun kc_connect_each :: "int list \<Rightarrow> 's kvconfig \<Rightarrow> 's kvconfig option" where
  "kc_connect_each [] cfg = Some cfg"
| "kc_connect_each (i # is) cfg = do { cfg1 \<leftarrow> connectUnlocked i (kc_All cfg) cfg; kc_connect_each is cfg1 }"

definition ConnectAll :: "'s kvconfig \<Rightarrow> 's kvconfig option" where
  "ConnectAll cfg = kc_connect_each (map int [0..<kc_n cfg]) cfg"

text \<open>One of the two loops of \<^verbatim>\<open>partition\<close>.\<close>

fun partition_side :: "int list \<Rightarrow> int list \<Rightarrow> int list \<Rightarrow> 's kvconfig \<Rightarrow> 's kvconfig option" where
  "partition_side [] own other cfg = Some cfg"
| "partition_side (i # is) own other cfg = do {
     cfg1 \<leftarrow> disconnectUnlocked i other cfg;
     cfg2 \<leftarrow> connectUnlocked i own cfg1;
     partition_side is own other cfg2
   }"

definition kc_partition :: "int list \<Rightarrow> int list \<Rightarrow> 's kvconfig \<Rightarrow> 's kvconfig option" where
  "kc_partition p1 p2 cfg = do { cfg1 \<leftarrow> partition_side p1 p1 p2 cfg; partition_side p2 p2 p1 cfg1 }"

subsection \<open>Clients\<close>

fun ConnectClient_loop :: "string list \<Rightarrow> int list \<Rightarrow> bool \<Rightarrow> 's kvconfig \<Rightarrow> 's kvconfig option" where
  "ConnectClient_loop names [] on cfg = Some cfg"
| "ConnectClient_loop names (j # js) on cfg = do { s \<leftarrow> slice_get names j; ConnectClient_loop names js on (kc_Enable s on cfg) }"

text \<open>A clerk that is not in the map has no names.\<close>

definition ConnectClientUnlocked :: "nat \<Rightarrow> int list \<Rightarrow> 's kvconfig \<Rightarrow> 's kvconfig option" where
  "ConnectClientUnlocked ck to cfg = ConnectClient_loop (case kc_clerks cfg ck of None \<Rightarrow> [] | Some v \<Rightarrow> v) to True cfg"

definition DisconnectClientUnlocked :: "nat \<Rightarrow> int list \<Rightarrow> 's kvconfig \<Rightarrow> 's kvconfig option" where
  "DisconnectClientUnlocked ck from cfg = ConnectClient_loop (case kc_clerks cfg ck of None \<Rightarrow> [] | Some v \<Rightarrow> v) from False cfg"

definition ConnectClient :: "nat \<Rightarrow> int list \<Rightarrow> 's kvconfig \<Rightarrow> 's kvconfig option" where
  "ConnectClient ck to cfg = ConnectClientUnlocked ck to cfg"

definition DisconnectClient :: "nat \<Rightarrow> int list \<Rightarrow> 's kvconfig \<Rightarrow> 's kvconfig option" where
  "DisconnectClient ck from cfg = DisconnectClientUnlocked ck from cfg"

text \<open>\<open>names\<close> draws the names of the ends, \<open>draw\<close> the order of the handles, and \<open>ck\<close> is the new clerk.\<close>

definition kc_makeClient :: "(nat \<Rightarrow> string) \<Rightarrow> (nat \<Rightarrow> nat) \<Rightarrow> nat \<Rightarrow> int list \<Rightarrow> 's kvconfig \<Rightarrow> (string KvClerk \<times> 's kvconfig) option" where
  "kc_makeClient names draw ck to cfg = do {
     let endnames = map names [0..<kc_n cfg];
     rn \<leftarrow> make_ends 0 endnames (kc_net cfg);
     hs \<leftarrow> random_handles draw endnames;
     let cfg1 = cfg\<lparr>kc_net := rn, kc_clerks := (kc_clerks cfg)(ck \<mapsto> endnames), kc_nextClientId := kc_nextClientId cfg + 1\<rparr>;
     cfg2 \<leftarrow> ConnectClientUnlocked ck to cfg1;
     Some (MakeKvClerk hs, cfg2)
   }"

text \<open>The files that \<^verbatim>\<open>os.Remove\<close> is called for do not exist.\<close>

definition kc_deleteClient :: "nat \<Rightarrow> 's kvconfig \<Rightarrow> 's kvconfig" where
  "kc_deleteClient ck cfg = cfg\<lparr>kc_clerks := (kc_clerks cfg)(ck := None)\<rparr>"

subsection \<open>Servers\<close>

text \<open>\<open>rf\<close> gives the Raft peer of a server, \<open>kill\<close> is its \<^verbatim>\<open>Kill\<close>.\<close>

definition kc_content :: "('s \<Rightarrow> Raft) \<Rightarrow> 's kvconfig \<Rightarrow> saved \<Rightarrow> Persister option" where
  "kc_content rf cfg p = (case p of Detached ps \<Rightarrow> Some ps | OfInst a \<Rightarrow> map_option (\<lambda>s. persister (rf s)) (slice_get (kc_insts cfg) (int a)))"

text \<open>The largest of the sizes that \<open>msize\<close> gives for the persisters; a server without one is a nil dereference.\<close>

fun kc_max_size :: "('s \<Rightarrow> Raft) \<Rightarrow> (Persister \<Rightarrow> int) \<Rightarrow> 's kvconfig \<Rightarrow> nat list \<Rightarrow> int \<Rightarrow> int option" where
  "kc_max_size rf msize cfg [] m = Some m"
| "kc_max_size rf msize cfg (i # is) m = do {
     s \<leftarrow> slice_get (kc_saved cfg) (int i);
     p \<leftarrow> s;
     ps \<leftarrow> kc_content rf cfg p;
     let n = msize ps;
     kc_max_size rf msize cfg is (if n > m then n else m)
   }"

definition kc_LogSize :: "('s \<Rightarrow> Raft) \<Rightarrow> (bytes \<Rightarrow> int) \<Rightarrow> 's kvconfig \<Rightarrow> int option" where
  "kc_LogSize rf blen cfg = kc_max_size rf (RaftStateSize blen) cfg [0..<kc_n cfg] 0"

definition kc_SnapshotSize :: "('s \<Rightarrow> Raft) \<Rightarrow> (bytes \<Rightarrow> int) \<Rightarrow> 's kvconfig \<Rightarrow> int option" where
  "kc_SnapshotSize rf blen cfg = kc_max_size rf (SnapshotSize blen) cfg [0..<kc_n cfg] 0"

definition kc_detach :: "('s \<Rightarrow> Raft) \<Rightarrow> int \<Rightarrow> 's kvconfig \<Rightarrow> 's kvconfig option" where
  "kc_detach rf i cfg = do {
     s \<leftarrow> slice_get (kc_saved cfg) i;
     (case s of
        None \<Rightarrow> Some cfg
      | Some p \<Rightarrow> do {
          ps \<leftarrow> kc_content rf cfg p;
          sv \<leftarrow> slice_set (kc_saved cfg) i (Some (Detached (Persister_Copy ps)));
          Some (cfg\<lparr>kc_saved := sv\<rparr>)
        })
   }"

definition kc_kill :: "('s \<Rightarrow> 's) \<Rightarrow> int \<Rightarrow> 's kvconfig \<Rightarrow> 's kvconfig option" where
  "kc_kill kill i cfg = do {
     r \<leftarrow> slice_get (kc_servers cfg) i;
     (case r of
        None \<Rightarrow> Some cfg
      | Some a \<Rightarrow> do {
          s \<leftarrow> slice_get (kc_insts cfg) (int a);
          is \<leftarrow> slice_set (kc_insts cfg) (int a) (kill s);
          rs \<leftarrow> slice_set (kc_servers cfg) i None;
          Some (cfg\<lparr>kc_insts := is, kc_servers := rs\<rparr>)
        })
   }"

definition shutdown :: "('s \<Rightarrow> Raft) \<Rightarrow> ('s \<Rightarrow> 's) \<Rightarrow> int \<Rightarrow> 's kvconfig \<Rightarrow> 's kvconfig option" where
  "shutdown rf kill i cfg = do {
     cfg1 \<leftarrow> disconnectUnlocked i (kc_All cfg) cfg;
     let cfg2 = cfg1\<lparr>kc_net := DeleteServer i (kc_net cfg1)\<rparr>;
     cfg3 \<leftarrow> kc_detach rf i cfg2;
     kc_kill kill i cfg3
   }"

definition ShutdownServer :: "int \<Rightarrow> KVServer kvconfig \<Rightarrow> KVServer kvconfig option" where
  "ShutdownServer = shutdown kv_rf KVServer_Kill"

text \<open>\<open>start\<close> makes a server from its ends, its number and its persister.\<close>

definition startup :: "('s \<Rightarrow> Raft) \<Rightarrow> (nat \<Rightarrow> int \<Rightarrow> Persister \<Rightarrow> 's option) \<Rightarrow> (nat \<Rightarrow> string) \<Rightarrow> int \<Rightarrow> 's kvconfig \<Rightarrow> 's kvconfig option" where
  "startup rf start draw i cfg = do {
     let names = map draw [0..<kc_n cfg];
     en \<leftarrow> slice_set (kc_endnames cfg) i (Some names);
     rn \<leftarrow> make_ends 0 names (kc_net cfg);
     let cfg1 = cfg\<lparr>kc_endnames := en, kc_net := rn\<rparr>;
     s \<leftarrow> slice_get (kc_saved cfg1) i;
     ps \<leftarrow> (case s of None \<Rightarrow> Some MakePersister | Some p \<Rightarrow> map_option Persister_Copy (kc_content rf cfg1 p));
     let a = length (kc_insts cfg1);
     sv \<leftarrow> slice_set (kc_saved cfg1) i (Some (OfInst a));
     server \<leftarrow> start (length names) i ps;
     ss \<leftarrow> slice_set (kc_servers cfg1) i (Some a);
     Some (cfg1\<lparr>kc_saved := sv, kc_insts := kc_insts cfg1 @ [server], kc_servers := ss,
                kc_net := AddServer i (Some a) (kc_net cfg1)\<rparr>)
   }"

definition StartServer :: "(nat \<Rightarrow> nat) \<Rightarrow> int \<Rightarrow> int \<Rightarrow> (nat \<Rightarrow> string) \<Rightarrow> int \<Rightarrow> KVServer kvconfig \<Rightarrow> KVServer kvconfig option" where
  "StartServer alloc now r draw i cfg =
     startup kv_rf (\<lambda>n self ps. StartKVServer alloc now r n self ps (kc_maxraftstate cfg)) draw i cfg"

subsection \<open>Leaders and partitions\<close>

fun Leader_loop :: "KVServer kvconfig \<Rightarrow> nat list \<Rightarrow> (bool \<times> int) option" where
  "Leader_loop cfg [] = Some (False, 0)"
| "Leader_loop cfg (i # is) = do {
     p \<leftarrow> slice_get (kc_servers cfg) (int i);
     a \<leftarrow> p;
     kv \<leftarrow> slice_get (kc_insts cfg) (int a);
     (if snd (GetState (kv_rf kv)) then Some (True, int i) else Leader_loop cfg is)
   }"

definition Leader :: "KVServer kvconfig \<Rightarrow> (bool \<times> int) option" where
  "Leader cfg = Leader_loop cfg [0..<kc_n cfg]"

fun make_partition_loop :: "int \<Rightarrow> int list \<Rightarrow> int \<Rightarrow> int list \<times> int list \<Rightarrow> (int list \<times> int list) option" where
  "make_partition_loop l [] j (p1, p2) = Some (p1, p2)"
| "make_partition_loop l (i # is) j (p1, p2) =
     (if i \<noteq> l then
        (if j < int (length p1)
         then do { p1' \<leftarrow> slice_set p1 j i; make_partition_loop l is (j + 1) (p1', p2) }
         else do { p2' \<leftarrow> slice_set p2 (j - int (length p1)) i; make_partition_loop l is (j + 1) (p1, p2') })
      else make_partition_loop l is j (p1, p2))"

definition partition_around :: "nat \<Rightarrow> int \<Rightarrow> (int list \<times> int list) option" where
  "partition_around n l = do {
     (p1, p2) \<leftarrow> make_partition_loop l (map int [0..<n]) 0 (replicate (n div 2 + 1) 0, replicate (n div 2) 0);
     p2' \<leftarrow> slice_set p2 (int (length p2) - 1) l;
     Some (p1, p2')
   }"

definition make_partition :: "KVServer kvconfig \<Rightarrow> (int list \<times> int list) option" where
  "make_partition cfg = do { (b, l) \<leftarrow> Leader cfg; partition_around (kc_n cfg) l }"

subsection \<open>The whole harness\<close>

fun kc_start_all :: "(nat \<Rightarrow> int \<Rightarrow> 's kvconfig \<Rightarrow> 's kvconfig option) \<Rightarrow> nat list \<Rightarrow> 's kvconfig \<Rightarrow> 's kvconfig option" where
  "kc_start_all start [] cfg = Some cfg"
| "kc_start_all start (i # is) cfg = do { cfg1 \<leftarrow> start i (int i) cfg; kc_start_all start is cfg1 }"

definition empty_kvconfig :: "int \<Rightarrow> nat \<Rightarrow> int \<Rightarrow> 's kvconfig" where
  "empty_kvconfig now n maxraftstate =
     \<lparr>kc_net = MakeNetwork, kc_n = n, kc_insts = [], kc_servers = replicate n None, kc_saved = replicate n None,
      kc_endnames = replicate n None, kc_clerks = Map.empty, kc_nextClientId = int n + 1000, kc_maxraftstate = maxraftstate,
      kc_start = now, kc_t0 = 0, kc_rpcs0 = 0, kc_ops = 0\<rparr>"

definition kv_make_config :: "(nat \<Rightarrow> nat) \<Rightarrow> int \<Rightarrow> (nat \<Rightarrow> int) \<Rightarrow> (nat \<Rightarrow> nat \<Rightarrow> string) \<Rightarrow> nat \<Rightarrow> bool \<Rightarrow> int \<Rightarrow> KVServer kvconfig option" where
  "kv_make_config alloc now r draw n unreliable maxraftstate = do {
     cfg1 \<leftarrow> kc_start_all (\<lambda>i. StartServer alloc now (r i) (draw i)) [0..<n] (empty_kvconfig now n maxraftstate);
     cfg2 \<leftarrow> ConnectAll cfg1;
     Some (cfg2\<lparr>kc_net := Reliable (\<not> unreliable) (kc_net cfg2)\<rparr>)
   }"

definition kc_rpcTotal :: "'s kvconfig \<Rightarrow> int" where
  "kc_rpcTotal cfg = GetTotalCount (kc_net cfg)"

definition kc_begin :: "int \<Rightarrow> 's kvconfig \<Rightarrow> 's kvconfig" where
  "kc_begin now cfg = cfg\<lparr>kc_t0 := now, kc_rpcs0 := kc_rpcTotal cfg, kc_ops := 0\<rparr>"

definition kc_op :: "'s kvconfig \<Rightarrow> 's kvconfig" where
  "kc_op cfg = cfg\<lparr>kc_ops := kc_ops cfg + 1\<rparr>"

text \<open>\<open>False\<close> when the test has taken more than two minutes.\<close>

definition kc_checkTimeout :: "bool \<Rightarrow> int \<Rightarrow> 's kvconfig \<Rightarrow> bool" where
  "kc_checkTimeout failed now cfg \<longleftrightarrow> \<not> (\<not> failed \<and> now - kc_start cfg > 120 * 1000000000)"

definition kc_end :: "bool \<Rightarrow> int \<Rightarrow> 's kvconfig \<Rightarrow> (int \<times> int \<times> int \<times> int) option" where
  "kc_end failed now cfg =
     (if kc_checkTimeout failed now cfg \<and> failed = False
      then Some (now - kc_t0 cfg, int (kc_n cfg), kc_rpcTotal cfg - kc_rpcs0 cfg, sint (kc_ops cfg)) else None)"

fun kc_kill_all :: "('s \<Rightarrow> 's) \<Rightarrow> nat option list \<Rightarrow> 's list \<Rightarrow> 's list option" where
  "kc_kill_all kill [] is = Some is"
| "kc_kill_all kill (None # rs) is = kc_kill_all kill rs is"
| "kc_kill_all kill (Some a # rs) is = do {
     s \<leftarrow> slice_get is (int a);
     is' \<leftarrow> slice_set is (int a) (kill s);
     kc_kill_all kill rs is'
   }"

definition kc_cleanup :: "('s \<Rightarrow> 's) \<Rightarrow> bool \<Rightarrow> int \<Rightarrow> 's kvconfig \<Rightarrow> (bool \<times> 's kvconfig) option" where
  "kc_cleanup kill failed now cfg = do {
     is \<leftarrow> kc_kill_all kill (kc_servers cfg) (kc_insts cfg);
     rn \<leftarrow> Cleanup (kc_net cfg);
     let cfg1 = cfg\<lparr>kc_insts := is, kc_net := rn\<rparr>;
     Some (kc_checkTimeout failed now cfg1, cfg1)
   }"

subsection \<open>The harness of the shard controller where it differs\<close>

definition ctl_ShutdownServer :: "int \<Rightarrow> ShardCtrler kvconfig \<Rightarrow> ShardCtrler kvconfig option" where
  "ctl_ShutdownServer = shutdown sc_rf ShardCtrler_Kill"

definition ctl_StartServer :: "(nat \<Rightarrow> nat) \<Rightarrow> int \<Rightarrow> int \<Rightarrow> (nat \<Rightarrow> string) \<Rightarrow> int \<Rightarrow> ShardCtrler kvconfig \<Rightarrow> ShardCtrler kvconfig option" where
  "ctl_StartServer alloc now r draw i cfg = startup sc_rf (StartCtrler alloc now r) draw i cfg"

fun ctl_Leader_loop :: "ShardCtrler kvconfig \<Rightarrow> nat list \<Rightarrow> (bool \<times> int) option" where
  "ctl_Leader_loop cfg [] = Some (False, 0)"
| "ctl_Leader_loop cfg (i # is) = do {
     p \<leftarrow> slice_get (kc_servers cfg) (int i);
     (case p of
        None \<Rightarrow> ctl_Leader_loop cfg is
      | Some a \<Rightarrow> do {
          sc \<leftarrow> slice_get (kc_insts cfg) (int a);
          (if snd (GetState (sc_rf sc)) then Some (True, int i) else ctl_Leader_loop cfg is)
        })
   }"

definition ctl_Leader :: "ShardCtrler kvconfig \<Rightarrow> (bool \<times> int) option" where
  "ctl_Leader cfg = ctl_Leader_loop cfg [0..<kc_n cfg]"

definition ctl_make_partition :: "ShardCtrler kvconfig \<Rightarrow> (int list \<times> int list) option" where
  "ctl_make_partition cfg = do { (b, l) \<leftarrow> ctl_Leader cfg; partition_around (kc_n cfg) l }"

definition ctl_make_config :: "(nat \<Rightarrow> nat) \<Rightarrow> int \<Rightarrow> (nat \<Rightarrow> int) \<Rightarrow> (nat \<Rightarrow> nat \<Rightarrow> string) \<Rightarrow> nat \<Rightarrow> bool \<Rightarrow> ShardCtrler kvconfig option" where
  "ctl_make_config alloc now r draw n unreliable = do {
     cfg1 \<leftarrow> kc_start_all (\<lambda>i. ctl_StartServer alloc now (r i) (draw i)) [0..<n] (empty_kvconfig now n 0);
     cfg2 \<leftarrow> ConnectAll cfg1;
     Some (cfg2\<lparr>kc_net := Reliable (\<not> unreliable) (kc_net cfg2)\<rparr>)
   }"

end
