(* ===== verification/Kv_Partition.thy ===== *)
theory Kv_Partition
  imports Kv_Harness Harness_Net
begin

text \<open>
  Partitions of the network: the loops of \<^verbatim>\<open>connectUnlocked\<close> and \<^verbatim>\<open>disconnectUnlocked\<close> in closed form, what
  \<^verbatim>\<open>partition\<close> does to the ends, which sides \<^verbatim>\<open>make_partition\<close> chooses, and that \<^verbatim>\<open>random_handles\<close> is a shuffle.
\<close>

subsection \<open>The ends between servers\<close>

abbreviation kc_ids :: "'s kvconfig \<Rightarrow> int set" where
  "kc_ids cfg \<equiv> {0..<int (kc_n cfg)}"

definition kc_name :: "'s kvconfig \<Rightarrow> int \<Rightarrow> int \<Rightarrow> string" where
  "kc_name cfg i j = the (kc_endnames cfg ! nat i) ! nat j"

text \<open>Every server has been started, and no two ends have the same name.\<close>

definition linked :: "'s kvconfig \<Rightarrow> bool" where
  "linked cfg \<longleftrightarrow> length (kc_endnames cfg) = kc_n cfg
     \<and> (\<forall>i \<in> {..<kc_n cfg}. \<exists>row. kc_endnames cfg ! i = Some row \<and> length row = kc_n cfg)
     \<and> (\<forall>i \<in> kc_ids cfg. \<forall>j \<in> kc_ids cfg. \<forall>i' \<in> kc_ids cfg. \<forall>j' \<in> kc_ids cfg. kc_name cfg i j = kc_name cfg i' j' \<longrightarrow> i = i' \<and> j = j')"

lemma linked_row:
  assumes "linked cfg" and "i \<in> kc_ids cfg"
  obtains row where "slice_get (kc_endnames cfg) i = Some (Some row)" and "length row = kc_n cfg"
proof -
  have "nat i \<in> {..<kc_n cfg}" "0 \<le> i" "i < int (length (kc_endnames cfg))" using assms by (auto simp: linked_def)
  moreover from this obtain row where "kc_endnames cfg ! nat i = Some row" "length row = kc_n cfg"
    using assms(1) unfolding linked_def by blast
  ultimately show ?thesis using that by (simp add: slice_get_def)
qed

lemma linked_endname:
  assumes "linked cfg" and "i \<in> kc_ids cfg" and "j \<in> kc_ids cfg"
  shows "kc_endname i j cfg = Some (kc_name cfg i j)"
proof -
  obtain row where "slice_get (kc_endnames cfg) i = Some (Some row)" "length row = kc_n cfg" by (rule linked_row [OF assms(1,2)])
  then show ?thesis using assms(3) by (auto simp: kc_endname_def kc_name_def slice_get_def split: if_splits)
qed

definition kc_switch :: "string set \<Rightarrow> bool \<Rightarrow> 's kvconfig \<Rightarrow> 's kvconfig" where
  "kc_switch E on cfg = cfg\<lparr>kc_net := (kc_net cfg)\<lparr>enabled := (\<lambda>e. if e \<in> E then on else enabled (kc_net cfg) e)\<rparr>\<rparr>"

lemma kc_switch_sel [simp]:
  "kc_n (kc_switch E b cfg) = kc_n cfg" "kc_endnames (kc_switch E b cfg) = kc_endnames cfg"
  "kc_insts (kc_switch E b cfg) = kc_insts cfg" "kc_servers (kc_switch E b cfg) = kc_servers cfg"
  "kc_saved (kc_switch E b cfg) = kc_saved cfg"
  "kc_name (kc_switch E b cfg) = kc_name cfg" "kc_endname i j (kc_switch E b cfg) = kc_endname i j cfg"
  "enabled (kc_net (kc_switch E b cfg)) e = (if e \<in> E then b else enabled (kc_net cfg) e)"
  by (simp_all add: kc_switch_def kc_name_def kc_endname_def fun_eq_iff)

lemma linked_switch [simp]: "linked (kc_switch E b cfg) = linked cfg"
  by (simp add: linked_def)

lemma kc_switch_switch [simp]: "kc_switch E b (kc_switch F b cfg) = kc_switch (E \<union> F) b cfg"
  by (auto simp: kc_switch_def fun_eq_iff)

lemma kc_switch_empty [simp]: "kc_switch {} b cfg = cfg"
  by (simp add: kc_switch_def)

lemma kc_Enable_switch: "kc_Enable e b cfg = kc_switch {e} b cfg"
  by (simp add: kc_Enable_def Enable_def kc_switch_def fun_upd_def)

lemma kc_connect_out_switch:
  "linked cfg \<Longrightarrow> i \<in> kc_ids cfg \<Longrightarrow> set js \<subseteq> kc_ids cfg \<Longrightarrow>
   kc_connect_out i js cfg = Some (kc_switch (kc_name cfg i ` set js) True cfg)"
  by (induction js arbitrary: cfg) (simp_all add: linked_endname kc_Enable_switch)

lemma kc_connect_in_switch:
  "linked cfg \<Longrightarrow> i \<in> kc_ids cfg \<Longrightarrow> set js \<subseteq> kc_ids cfg \<Longrightarrow>
   kc_connect_in i js cfg = Some (kc_switch ((\<lambda>j. kc_name cfg j i) ` set js) True cfg)"
  by (induction js arbitrary: cfg) (simp_all add: linked_endname kc_Enable_switch)

lemma kc_disconnect_out_switch:
  assumes "linked cfg" and "i \<in> kc_ids cfg" and "set js \<subseteq> kc_ids cfg"
  shows "kc_disconnect_out i js cfg = Some (kc_switch (kc_name cfg i ` set js) False cfg)"
  using assms
proof (induction js arbitrary: cfg)
  case (Cons j js)
  obtain row where "slice_get (kc_endnames cfg) i = Some (Some row)" by (rule linked_row [OF Cons.prems(1,2)])
  then show ?case using Cons by (simp add: linked_endname kc_Enable_switch)
qed simp

lemma kc_disconnect_in_switch:
  assumes "linked cfg" and "i \<in> kc_ids cfg" and "set js \<subseteq> kc_ids cfg" and "0 \<le> k" and "k + int (length js) \<le> int (kc_n cfg)"
  shows "kc_disconnect_in i k js cfg = Some (kc_switch ((\<lambda>j. kc_name cfg j i) ` set js) False cfg)"
  using assms
proof (induction js arbitrary: cfg k)
  case (Cons j js)
  then have "k \<in> kc_ids cfg" by simp
  then obtain row where "slice_get (kc_endnames cfg) k = Some (Some row)" by (rule linked_row [OF Cons.prems(1)])
  then show ?case using Cons by (simp add: linked_endname kc_Enable_switch)
qed simp

text \<open>The ends between \<open>i\<close> and the servers in \<open>J\<close>, in both directions.\<close>

definition kc_links :: "'s kvconfig \<Rightarrow> int \<Rightarrow> int set \<Rightarrow> string set" where
  "kc_links cfg i J = kc_name cfg i ` J \<union> (\<lambda>j. kc_name cfg j i) ` J"

lemma connectUnlocked_switch:
  "linked cfg \<Longrightarrow> i \<in> kc_ids cfg \<Longrightarrow> set js \<subseteq> kc_ids cfg \<Longrightarrow>
   connectUnlocked i js cfg = Some (kc_switch (kc_links cfg i (set js)) True cfg)"
  by (simp add: connectUnlocked_def kc_connect_out_switch kc_connect_in_switch kc_links_def Un_commute)

lemma disconnectUnlocked_switch:
  "linked cfg \<Longrightarrow> i \<in> kc_ids cfg \<Longrightarrow> set js \<subseteq> kc_ids cfg \<Longrightarrow> length js \<le> kc_n cfg \<Longrightarrow>
   disconnectUnlocked i js cfg = Some (kc_switch (kc_links cfg i (set js)) False cfg)"
  by (simp add: disconnectUnlocked_def kc_disconnect_out_switch kc_disconnect_in_switch kc_links_def Un_commute)

lemma kc_links_iff:
  assumes "linked cfg" and "i \<in> kc_ids cfg" and "J \<subseteq> kc_ids cfg" and "k \<in> kc_ids cfg" and "l \<in> kc_ids cfg"
  shows "kc_name cfg k l \<in> kc_links cfg i J \<longleftrightarrow> k = i \<and> l \<in> J \<or> l = i \<and> k \<in> J"
proof -
  have "kc_name cfg k l = kc_name cfg a b \<longleftrightarrow> k = a \<and> l = b" if "a \<in> kc_ids cfg" "b \<in> kc_ids cfg" for a b
    using assms(1,4,5) that unfolding linked_def by blast
  then show ?thesis using assms(2,3) unfolding kc_links_def by blast
qed

subsection \<open>Partitions\<close>

text \<open>\<open>E\<close> says which ends between servers are enabled.\<close>

definition kc_reach :: "'s kvconfig \<Rightarrow> int \<Rightarrow> int \<Rightarrow> bool" where
  "kc_reach cfg k l \<longleftrightarrow> enabled (kc_net cfg) (kc_name cfg k l)"

lemma isolate_step:
  assumes "linked cfg" and "i \<in> set own" and "set own \<inter> set other = {}" and "set own \<union> set other = kc_ids cfg" and "length other \<le> kc_n cfg"
  shows "\<exists>cfg'. disconnectUnlocked i other cfg \<bind> connectUnlocked i own = Some cfg' \<and> linked cfg' \<and> kc_n cfg' = kc_n cfg
     \<and> (\<forall>k \<in> kc_ids cfg. \<forall>l \<in> kc_ids cfg. kc_reach cfg' k l = (if k = i \<or> l = i then k \<in> set own \<longleftrightarrow> l \<in> set own else kc_reach cfg k l))"
proof -
  let ?d = "kc_switch (kc_links cfg i (set other)) False cfg"
  let ?c = "kc_switch (kc_links ?d i (set own)) True ?d"
  have i: "i \<in> kc_ids cfg" "i \<notin> set other" and sub: "set own \<subseteq> kc_ids cfg" "set other \<subseteq> kc_ids cfg" using assms by auto
  have "disconnectUnlocked i other cfg \<bind> connectUnlocked i own = Some ?c"
    using disconnectUnlocked_switch [OF assms(1) i(1) sub(2) assms(5)] connectUnlocked_switch [of ?d i own] assms(1) i sub by simp
  moreover have "kc_reach ?c k l = (if k = i \<or> l = i then k \<in> set own \<longleftrightarrow> l \<in> set own else kc_reach cfg k l)"
    if "k \<in> kc_ids cfg" "l \<in> kc_ids cfg" for k l
  proof -
    have kl: "k \<in> set own \<longleftrightarrow> k \<notin> set other" "l \<in> set own \<longleftrightarrow> l \<notin> set other" using assms(3,4) that by blast+
    have "kc_name cfg k l \<in> kc_links cfg i (set other) \<longleftrightarrow> k = i \<and> l \<in> set other \<or> l = i \<and> k \<in> set other"
      by (rule kc_links_iff [OF assms(1) i(1) sub(2) that])
    moreover have "kc_name cfg k l \<in> kc_links ?d i (set own) \<longleftrightarrow> k = i \<and> l \<in> set own \<or> l = i \<and> k \<in> set own"
      using kc_links_iff [of ?d i "set own" k l] assms(1) i(1) sub(1) that by simp
    ultimately show ?thesis using kl assms(2) i(2) by (auto simp: kc_reach_def)
  qed
  ultimately show ?thesis using assms(1) by (intro exI [of _ ?c]) simp
qed

lemma partition_side_splits:
  assumes "linked cfg" and "set is \<subseteq> set own" and "set own \<inter> set other = {}" and "set own \<union> set other = kc_ids cfg" and "length other \<le> kc_n cfg"
  shows "\<exists>cfg'. partition_side is own other cfg = Some cfg' \<and> linked cfg' \<and> kc_n cfg' = kc_n cfg
     \<and> (\<forall>k \<in> kc_ids cfg. \<forall>l \<in> kc_ids cfg. kc_reach cfg' k l = (if k \<in> set is \<or> l \<in> set is then k \<in> set own \<longleftrightarrow> l \<in> set own else kc_reach cfg k l))"
  using assms
proof (induction "is" arbitrary: cfg)
  case (Cons i "is")
  then have "i \<in> set own" by simp
  from isolate_step [OF Cons.prems(1) this Cons.prems(3,4,5)] obtain cfg1 where
    one: "disconnectUnlocked i other cfg \<bind> connectUnlocked i own = Some cfg1" "linked cfg1" "kc_n cfg1 = kc_n cfg"
    "\<And>k l. k \<in> kc_ids cfg \<Longrightarrow> l \<in> kc_ids cfg \<Longrightarrow> kc_reach cfg1 k l = (if k = i \<or> l = i then k \<in> set own \<longleftrightarrow> l \<in> set own else kc_reach cfg k l)"
    by blast
  have "set is \<subseteq> set own" "set own \<union> set other = kc_ids cfg1" "length other \<le> kc_n cfg1" using Cons.prems one(3) by auto
  from Cons.IH [OF one(2) this(1) Cons.prems(3) this(2,3)] obtain cfg' where cfg': "partition_side is own other cfg1 = Some cfg'" "linked cfg'" "kc_n cfg' = kc_n cfg"
    "\<And>k l. k \<in> kc_ids cfg \<Longrightarrow> l \<in> kc_ids cfg \<Longrightarrow> kc_reach cfg' k l = (if k \<in> set is \<or> l \<in> set is then k \<in> set own \<longleftrightarrow> l \<in> set own else kc_reach cfg1 k l)"
    unfolding one(3) by blast
  have "partition_side (i # is) own other cfg = Some cfg'" using one(1) cfg'(1) by (auto simp: option_bind_simps)
  then show ?case using cfg' one(4) by (intro exI [of _ cfg']) auto
qed simp

lemma kc_partition_splits:
  assumes "linked cfg" and "set p1 \<inter> set p2 = {}" and "set p1 \<union> set p2 = kc_ids cfg" and "length p1 + length p2 \<le> kc_n cfg"
  shows "\<exists>cfg'. kc_partition p1 p2 cfg = Some cfg' \<and> linked cfg' \<and> kc_n cfg' = kc_n cfg
     \<and> (\<forall>k \<in> kc_ids cfg. \<forall>l \<in> kc_ids cfg. kc_reach cfg' k l \<longleftrightarrow> (k \<in> set p1 \<longleftrightarrow> l \<in> set p1))"
proof -
  from partition_side_splits [of cfg p1 p1 p2] assms obtain cfg1 where
    one: "partition_side p1 p1 p2 cfg = Some cfg1" "linked cfg1" "kc_n cfg1 = kc_n cfg"
    "\<And>k l. k \<in> kc_ids cfg \<Longrightarrow> l \<in> kc_ids cfg \<Longrightarrow> kc_reach cfg1 k l = (if k \<in> set p1 \<or> l \<in> set p1 then k \<in> set p1 \<longleftrightarrow> l \<in> set p1 else kc_reach cfg k l)"
    by auto
  from partition_side_splits [of cfg1 p2 p2 p1] assms one obtain cfg2 where
    two: "partition_side p2 p2 p1 cfg1 = Some cfg2" "linked cfg2" "kc_n cfg2 = kc_n cfg"
    "\<And>k l. k \<in> kc_ids cfg \<Longrightarrow> l \<in> kc_ids cfg \<Longrightarrow> kc_reach cfg2 k l = (if k \<in> set p2 \<or> l \<in> set p2 then k \<in> set p2 \<longleftrightarrow> l \<in> set p2 else kc_reach cfg1 k l)"
    by (auto simp: Un_commute Int_commute)
  have "kc_reach cfg2 k l \<longleftrightarrow> (k \<in> set p1 \<longleftrightarrow> l \<in> set p1)" if "k \<in> kc_ids cfg" "l \<in> kc_ids cfg" for k l
    using one(4) [OF that] two(4) [OF that] that assms(2,3) by (auto simp: set_eq_iff)
  then show ?thesis using one(1) two by (intro exI [of _ cfg2]) (simp add: kc_partition_def)
qed

subsection \<open>The sides that \<^verbatim>\<open>make_partition\<close> chooses\<close>

text \<open>What the loop has written: the numbers other than the leader, in order, into the cells from \<open>j\<close> on of the two slices.\<close>

lemma make_partition_loop_fills:
  assumes "length (filter (\<lambda>i. i \<noteq> l) is) + j \<le> length (p1 @ p2)"
  shows "\<exists>q1 q2. make_partition_loop l is (int j) (p1, p2) = Some (q1, q2) \<and> length q1 = length p1 \<and> length q2 = length p2
     \<and> q1 @ q2 = take j (p1 @ p2) @ filter (\<lambda>i. i \<noteq> l) is @ drop (j + length (filter (\<lambda>i. i \<noteq> l) is)) (p1 @ p2)"
  using assms
proof (induction "is" arbitrary: j p1 p2)
  case (Cons i "is")
  show ?case
  proof (cases "i = l")
    case False
    define r1 r2 where "r1 = (if j < length p1 then p1[j := i] else p1)" and "r2 = (if j < length p1 then p2 else p2[j - length p1 := i])"
    have r: "r1 @ r2 = (p1 @ p2)[j := i]" "length r1 = length p1" "length r2 = length p2"
      by (auto simp: r1_def r2_def list_update_append)
    have j: "j < length (p1 @ p2)" using Cons.prems False by simp
    have "make_partition_loop l (i # is) (int j) (p1, p2) = make_partition_loop l is (int (Suc j)) (r1, r2)"
      using False j by (auto simp: slice_set_def r1_def r2_def add.commute nat_diff_distrib' simp flip: of_nat_diff)
    moreover have "take (Suc j) (r1 @ r2) = take j (p1 @ p2) @ [i]" using j unfolding r(1) by (simp add: take_Suc_conv_app_nth)
    moreover have "drop (Suc j + k) (r1 @ r2) = drop (Suc j + k) (p1 @ p2)" for k unfolding r(1) by simp
    ultimately show ?thesis using Cons.IH [of "Suc j" r1 r2] Cons.prems False r(2,3) by simp
  qed (use Cons in simp)
qed (simp del: take_append drop_append)

lemma length_others:
  assumes "l \<in> {0..<int n}"
  shows "length (filter (\<lambda>i. i \<noteq> l) (map int [0..<n])) = n - 1"
proof -
  have "l \<in> set (map int [0..<n])" "distinct (map int [0..<n])" using assms by (auto simp: distinct_map image_iff intro: bexI [of _ "nat l"])
  then have "length (removeAll l (map int [0..<n])) = n - 1" by (simp add: length_remove1 flip: distinct_remove1_removeAll)
  moreover have "removeAll l (map int [0..<n]) = filter (\<lambda>i. i \<noteq> l) (map int [0..<n])"
    by (simp add: removeAll_filter_not_eq filter_map o_def neq_commute [of l])
  ultimately show ?thesis by simp
qed

lemma partition_around_odd:
  assumes "odd n" and "3 \<le> n" and l: "l \<in> {0..<int n}"
  shows "\<exists>p1 p2. partition_around n l = Some (p1, p2) \<and> length p1 = n div 2 + 1
     \<and> p1 @ p2 = filter (\<lambda>i. i \<noteq> l) (map int [0..<n]) @ [l]"
proof -
  let ?o = "filter (\<lambda>i. i \<noteq> l) (map int [0..<n])" and ?a = "replicate (n div 2 + 1) (0 :: int)" and ?b = "replicate (n div 2) (0 :: int)"
  have len: "length ?o = n - 1" by (rule length_others [OF l])
  have n: "length (?a @ ?b) = n" "n div 2 > 0" using assms(1,2) by (auto elim!: oddE)
  then obtain q1 q2 where q: "make_partition_loop l (map int [0..<n]) 0 (?a, ?b) = Some (q1, q2)" "length q1 = length ?a" "length q2 = length ?b"
      "q1 @ q2 = ?o @ drop (n - 1) (?a @ ?b)"
    using make_partition_loop_fills [of l "map int [0..<n]" 0 ?a ?b] len by auto
  have "length (drop (n - 1) (?a @ ?b)) = Suc 0" using n(1) assms(2) by (simp only: length_drop)
  then obtain x where "drop (n - 1) (?a @ ?b) = [x]" by (auto simp only: length_Suc_conv length_0_conv)
  with q(4) have qo: "q1 @ q2 = ?o @ [x]" by simp
  have "q2 \<noteq> []" using q(3) n(2) by auto
  with qo have "q2 = butlast q2 @ [x]" by (metis append_butlast_last_id last_appendR last_snoc)
  then obtain q3 where q3: "q2 = q3 @ [x]" ..
  then have "slice_set q2 (int (length q2) - 1) l = Some (q3 @ [l])" by (simp add: slice_set_def)
  moreover have "q1 @ q3 = ?o" using qo q3 by simp
  ultimately show ?thesis using q(1,2) by (simp add: partition_around_def)
qed

lemma Leader_loop_range: "Leader_loop cfg is = Some (b, l) \<Longrightarrow> l = 0 \<or> l \<in> int ` set is"
  by (induction "is") (auto simp: option_bind_simps split: if_splits)

lemma ctl_Leader_loop_range: "ctl_Leader_loop cfg is = Some (b, l) \<Longrightarrow> l = 0 \<or> l \<in> int ` set is"
  by (induction "is") (auto simp: option_bind_simps split: if_splits option.splits)

text \<open>The two harnesses share this.\<close>

lemma partition_around_isolates:
  assumes "linked cfg" and "odd (kc_n cfg)" and "3 \<le> kc_n cfg" and l: "l \<in> kc_ids cfg"
  shows "\<exists>p1 p2 cfg'. partition_around (kc_n cfg) l = Some (p1, p2) \<and> length p1 = kc_n cfg div 2 + 1 \<and> distinct (p1 @ p2)
     \<and> set (p1 @ p2) = kc_ids cfg \<and> l \<in> set p2 \<and> kc_partition p1 p2 cfg = Some cfg'
     \<and> (\<forall>i \<in> kc_ids cfg. \<forall>j \<in> kc_ids cfg. \<exists>e. kc_endname i j cfg' = Some e \<and> (enabled (kc_net cfg') e \<longleftrightarrow> (i \<in> set p1 \<longleftrightarrow> j \<in> set p1)))"
proof -
  let ?o = "filter (\<lambda>i. i \<noteq> l) (map int [0..<kc_n cfg])"
  obtain p1 p2 where p: "partition_around (kc_n cfg) l = Some (p1, p2)" "length p1 = kc_n cfg div 2 + 1" "p1 @ p2 = ?o @ [l]"
    using partition_around_odd [OF assms(2,3) l] by blast
  have d: "distinct (p1 @ p2)" unfolding p(3) by (simp add: distinct_map)
  have "set (map int [0..<kc_n cfg]) = kc_ids cfg" by (simp add: image_int_atLeastLessThan)
  then have s: "set (p1 @ p2) = kc_ids cfg" unfolding p(3) using l by auto
  have len: "length (p1 @ p2) = kc_n cfg" unfolding p(3) using length_others [of l "kc_n cfg"] l assms(3) by simp
  have "p2 \<noteq> []" using len p(2) assms(3) by auto
  then have "last (p1 @ p2) \<in> set p2" by (cases p2 rule: rev_cases) auto
  then have lp: "l \<in> set p2" unfolding p(3) by simp
  from kc_partition_splits [OF assms(1), of p1 p2] d s len obtain cfg' where
    cfg': "kc_partition p1 p2 cfg = Some cfg'" "linked cfg'" "kc_n cfg' = kc_n cfg"
    "\<And>k l. k \<in> kc_ids cfg \<Longrightarrow> l \<in> kc_ids cfg \<Longrightarrow> kc_reach cfg' k l \<longleftrightarrow> (k \<in> set p1 \<longleftrightarrow> l \<in> set p1)" by auto
  then show ?thesis using p(1,2) d s lp linked_endname [OF cfg'(2)] by (auto simp: kc_reach_def intro!: exI [of _ p1] exI [of _ p2])
qed

text \<open>With an even number of servers a cell keeps its initial 0, and server 0 is on both sides; with one server the index is -1.\<close>

lemma partition_around_even: "partition_around 4 3 = Some ([0, 1, 2], [0, 3])" "partition_around 1 0 = None"
  by code_simp+

subsection \<open>Shuffled handles\<close>

lemma handles_loop_shuffles:
  assumes "set is \<subseteq> {..<length sa}" and "\<And>i. i < length sa \<Longrightarrow> draw i < length sa"
  shows "\<exists>hs. handles_loop draw is sa = Some hs \<and> mset hs = mset sa"
  using assms
proof (induction "is" arbitrary: sa)
  case (Cons i "is")
  then have ij: "i < length sa" "draw i < length sa" by auto
  let ?sa = "sa[i := sa ! draw i, draw i := sa ! i]"
  have "handles_loop draw (i # is) sa = handles_loop draw is ?sa" using ij by (simp add: slice_set_def Let_def)
  moreover have "mset ?sa = mset sa" using ij by (simp add: mset_swap)
  ultimately show ?case using Cons.IH [of ?sa] Cons.prems by auto
qed simp

lemma random_handles_shuffles:
  assumes "\<And>i. draw i \<le> i"
  shows "\<exists>hs. random_handles draw kvh = Some hs \<and> mset hs = mset kvh"
  unfolding random_handles_def by (rule handles_loop_shuffles) (auto simp: atLeast0LessThan intro: le_less_trans [OF assms])

subsection \<open>The harness of \<^verbatim>\<open>make_config\<close> is linked\<close>

text \<open>What starting server \<open>i\<close> does to the tables of names.\<close>

definition names_row :: "(nat \<Rightarrow> int \<Rightarrow> 's kvconfig \<Rightarrow> 's kvconfig option) \<Rightarrow> (nat \<Rightarrow> nat \<Rightarrow> string) \<Rightarrow> bool" where
  "names_row start draw \<longleftrightarrow> (\<forall>i cfg cfg'. start i (int i) cfg = Some cfg' \<longrightarrow>
     kc_n cfg' = kc_n cfg \<and> kc_endnames cfg' = (kc_endnames cfg)[i := Some (map (draw i) [0..<kc_n cfg])])"

lemma startup_endnames:
  "startup rf start draw i cfg = Some cfg' \<Longrightarrow> kc_n cfg' = kc_n cfg
     \<and> kc_endnames cfg' = (kc_endnames cfg)[nat i := Some (map draw [0..<kc_n cfg])]"
  by (auto simp: startup_def Let_def option_bind_simps slice_set_Some_iff split: option.splits)

lemma StartServer_names: "names_row (\<lambda>i. StartServer alloc now (r i) (draw i)) draw"
  by (auto simp: names_row_def StartServer_def dest!: startup_endnames)

lemma ctl_StartServer_names: "names_row (\<lambda>i. ctl_StartServer alloc now (r i) (draw i)) draw"
  by (auto simp: names_row_def ctl_StartServer_def dest!: startup_endnames)

lemma kc_start_all_endnames:
  assumes st: "names_row start draw" and "kc_start_all start is cfg = Some cfg'" and "set is \<subseteq> {..<length (kc_endnames cfg)}"
  shows "kc_n cfg' = kc_n cfg \<and> length (kc_endnames cfg') = length (kc_endnames cfg)
     \<and> (\<forall>i < length (kc_endnames cfg). kc_endnames cfg' ! i = (if i \<in> set is then Some (map (draw i) [0..<kc_n cfg]) else kc_endnames cfg ! i))"
  using assms(2,3)
proof (induction "is" arbitrary: cfg)
  case (Cons i "is")
  then obtain cfg1 where c: "start i (int i) cfg = Some cfg1" "kc_start_all start is cfg1 = Some cfg'"
    by (auto simp: option_bind_simps)
  with st have "kc_n cfg1 = kc_n cfg" "kc_endnames cfg1 = (kc_endnames cfg)[i := Some (map (draw i) [0..<kc_n cfg])]"
    by (auto simp: names_row_def)
  with Cons.IH [OF c(2)] Cons.prems(2) show ?case by (auto simp: nth_list_update)
qed simp

lemma kc_connect_each_linked:
  assumes "linked cfg" and "set is \<subseteq> kc_ids cfg"
  shows "\<exists>E. kc_connect_each is cfg = Some (kc_switch E True cfg)"
  using assms
proof (induction "is" arbitrary: cfg)
  case Nil
  show ?case by (auto intro: exI [of _ "{}"])
next
  case (Cons i "is")
  let ?c = "kc_switch (kc_links cfg i (set (kc_All cfg))) True cfg"
  have "set (kc_All cfg) \<subseteq> kc_ids cfg" by (auto simp: kc_All_def)
  then have "connectUnlocked i (kc_All cfg) cfg = Some ?c" using Cons.prems by (simp add: connectUnlocked_switch)
  moreover obtain E where "kc_connect_each is ?c = Some (kc_switch E True ?c)" using Cons.IH [of ?c] Cons.prems by auto
  ultimately show ?case by auto
qed

lemma started_linked:
  assumes "names_row start draw" and "kc_start_all start [0..<n] (empty_kvconfig now n mrs) = Some cfg"
    and "\<And>i j i' j'. draw i j = draw i' j' \<Longrightarrow> i = i' \<and> j = j'"
  shows "linked cfg \<and> kc_n cfg = n"
proof -
  have e: "kc_n cfg = n" "length (kc_endnames cfg) = n" "\<And>i. i < n \<Longrightarrow> kc_endnames cfg ! i = Some (map (draw i) [0..<n])"
    using kc_start_all_endnames [OF assms(1,2)] by (auto simp: empty_kvconfig_def atLeast0LessThan)
  then have nm: "kc_name cfg i j = draw (nat i) (nat j)" if "i \<in> {0..<int n}" "j \<in> {0..<int n}" for i j
    using that by (simp add: kc_name_def nat_less_iff)
  have "i = i' \<and> j = j'" if "i \<in> {0..<int n}" "j \<in> {0..<int n}" "i' \<in> {0..<int n}" "j' \<in> {0..<int n}" "kc_name cfg i j = kc_name cfg i' j'" for i j i' j'
    using assms(3) [of "nat i" "nat j" "nat i'" "nat j'"] that nm by auto
  then show ?thesis using e unfolding linked_def by auto
qed

lemma ConnectAll_linked:
  assumes "linked cfg" and "ConnectAll cfg = Some cfg'"
  shows "linked (cfg'\<lparr>kc_net := rn\<rparr>) \<and> kc_n (cfg'\<lparr>kc_net := rn\<rparr>) = kc_n cfg"
proof -
  obtain E where "cfg' = kc_switch E True cfg"
    using assms kc_connect_each_linked [of cfg "map int [0..<kc_n cfg]"] by (auto simp: ConnectAll_def image_int_atLeastLessThan)
  moreover have "linked (c\<lparr>kc_net := rn\<rparr>) = linked c" for c :: "'a kvconfig" by (simp add: linked_def kc_name_def)
  ultimately show ?thesis using assms(1) by simp
qed

text \<open>So in both harnesses all names are there after \<^verbatim>\<open>make_config\<close>, when the names it draws differ.\<close>

lemma kv_make_config_linked:
  assumes "kv_make_config alloc now r draw n unreliable mrs = Some cfg" and "\<And>i j i' j'. draw i j = draw i' j' \<Longrightarrow> i = i' \<and> j = j'"
  shows "linked cfg \<and> kc_n cfg = n"
  using assms(1) started_linked [OF StartServer_names _ assms(2)] ConnectAll_linked
  by (fastforce simp: kv_make_config_def option_bind_simps)

lemma ctl_make_config_linked:
  assumes "ctl_make_config alloc now r draw n unreliable = Some cfg" and "\<And>i j i' j'. draw i j = draw i' j' \<Longrightarrow> i = i' \<and> j = j'"
  shows "linked cfg \<and> kc_n cfg = n"
  using assms(1) started_linked [OF ctl_StartServer_names _ assms(2)] ConnectAll_linked
  by (fastforce simp: ctl_make_config_def option_bind_simps)

subsection \<open>Properties\<close>

text \<open>C34: The partition that the tests of the key/value service use: with an odd number of servers, of at least three, that have
  all been started with names of their own, \<^verbatim>\<open>make_partition\<close> splits the servers into a majority and a minority with
  the leader that \<^verbatim>\<open>Leader\<close> found in the minority, and \<^verbatim>\<open>partition\<close> over the two sides does not panic and leaves
  exactly the ends between servers of one side enabled, whatever was connected before.\<close>

theorem make_partition_isolates_leader:
  assumes "linked cfg" and "odd (kc_n cfg)" and "3 \<le> kc_n cfg" and "Leader cfg = Some (b, l)"
  shows "\<exists>p1 p2 cfg'. make_partition cfg = Some (p1, p2) \<and> length p1 = kc_n cfg div 2 + 1 \<and> distinct (p1 @ p2)
     \<and> set (p1 @ p2) = {0..<int (kc_n cfg)} \<and> l \<in> set p2 \<and> kc_partition p1 p2 cfg = Some cfg'
     \<and> (\<forall>i \<in> {0..<int (kc_n cfg)}. \<forall>j \<in> {0..<int (kc_n cfg)}. \<exists>e. kc_endname i j cfg' = Some e
          \<and> (enabled (kc_net cfg') e \<longleftrightarrow> (i \<in> set p1 \<longleftrightarrow> j \<in> set p1)))"
proof -
  have "l \<in> kc_ids cfg" using Leader_loop_range [of cfg "[0..<kc_n cfg]" b l] assms(3,4) by (auto simp: Leader_def)
  from partition_around_isolates [OF assms(1-3) this] show ?thesis using assms(4) by (simp add: make_partition_def)
qed

lemma ctl_make_partition_isolates_leader:
  assumes "linked cfg" and "odd (kc_n cfg)" and "3 \<le> kc_n cfg" and "ctl_Leader cfg = Some (b, l)"
  shows "\<exists>p1 p2 cfg'. ctl_make_partition cfg = Some (p1, p2) \<and> length p1 = kc_n cfg div 2 + 1 \<and> l \<in> set p2
     \<and> kc_partition p1 p2 cfg = Some cfg'"
proof -
  have "l \<in> kc_ids cfg" using ctl_Leader_loop_range [of cfg "[0..<kc_n cfg]" b l] assms(3,4) by (auto simp: ctl_Leader_def)
  from partition_around_isolates [OF assms(1-3) this] show ?thesis using assms(4) by (auto simp: ctl_make_partition_def)
qed

definition sample_kv_config :: "KVServer kvconfig option" where
  "sample_kv_config = kv_make_config (\<lambda>k. k) 0 (\<lambda>_. 0) sample_draw 3 False (-1)"

lemma sample_kv_config_runs: "sample_kv_config \<bind> Leader = Some (False, 0)"
  by code_simp

theorem make_partition_isolates_leader_witness:
  "\<exists>cfg p1 p2 cfg' e. sample_kv_config = Some cfg \<and> make_partition cfg = Some (p1, p2) \<and> length p1 = 2 \<and> 0 \<in> set p2
     \<and> kc_partition p1 p2 cfg = Some cfg' \<and> kc_endname 0 0 cfg' = Some e \<and> enabled (kc_net cfg') e"
proof -
  obtain cfg where c: "sample_kv_config = Some cfg" "Leader cfg = Some (False, 0)" using sample_kv_config_runs by (auto simp: option_bind_simps)
  have n: "linked cfg" "kc_n cfg = 3" using kv_make_config_linked [OF c(1) [unfolded sample_kv_config_def] sample_draw_inj] by auto
  obtain p1 p2 cfg' where p: "make_partition cfg = Some (p1, p2)" "length p1 = 2" "0 \<in> set p2" "kc_partition p1 p2 cfg = Some cfg'"
      and en: "\<forall>i \<in> {0..<3}. \<forall>j \<in> {0..<3}. \<exists>e. kc_endname i j cfg' = Some e \<and> (enabled (kc_net cfg') e \<longleftrightarrow> (i \<in> set p1 \<longleftrightarrow> j \<in> set p1))"
    using make_partition_isolates_leader [OF n(1) _ _ c(2)] n(2) by auto
  have "\<exists>e. kc_endname 0 0 cfg' = Some e \<and> enabled (kc_net cfg') e" using en [THEN bspec, of 0, THEN bspec, of 0] by simp
  with p c(1) show ?thesis by blast
qed

end
