(* ===== verification/Ctl_Harness.thy ===== *)
theory Ctl_Harness
  imports Kv_Partition
begin

text \<open>
  The operations of \<^verbatim>\<open>src/shardctrler/config.go\<close> that are those of \<^verbatim>\<open>src/kvraft/config.go\<close> over shard controllers, each
  an instance of the parametric definition of \<open>Kv_Harness\<close>, and its clients, whose clerk is the one of the shard
  controller.  What is shown: a new client reaches exactly the servers that it has been connected to.
\<close>

type_synonym ctl_config = "ShardCtrler kvconfig"

subsection \<open>Servers and connections\<close>

definition ctl_random_handles :: "(nat \<Rightarrow> nat) \<Rightarrow> string list \<Rightarrow> string list option" where
  "ctl_random_handles = random_handles"

definition ctl_checkTimeout :: "bool \<Rightarrow> int \<Rightarrow> ctl_config \<Rightarrow> bool" where
  "ctl_checkTimeout = kc_checkTimeout"

definition ctl_cleanup :: "bool \<Rightarrow> int \<Rightarrow> ctl_config \<Rightarrow> (bool \<times> ctl_config) option" where
  "ctl_cleanup = kc_cleanup ShardCtrler_Kill"

definition ctl_LogSize :: "(bytes \<Rightarrow> int) \<Rightarrow> ctl_config \<Rightarrow> int option" where
  "ctl_LogSize = kc_LogSize sc_rf"

definition ctl_connectUnlocked :: "int \<Rightarrow> int list \<Rightarrow> ctl_config \<Rightarrow> ctl_config option" where
  "ctl_connectUnlocked = connectUnlocked"

definition ctl_connect :: "int \<Rightarrow> int list \<Rightarrow> ctl_config \<Rightarrow> ctl_config option" where
  "ctl_connect i to cfg = ctl_connectUnlocked i to cfg"

definition ctl_disconnectUnlocked :: "int \<Rightarrow> int list \<Rightarrow> ctl_config \<Rightarrow> ctl_config option" where
  "ctl_disconnectUnlocked = disconnectUnlocked"

definition ctl_disconnect :: "int \<Rightarrow> int list \<Rightarrow> ctl_config \<Rightarrow> ctl_config option" where
  "ctl_disconnect i from cfg = ctl_disconnectUnlocked i from cfg"

definition ctl_All :: "ctl_config \<Rightarrow> int list" where
  "ctl_All = kc_All"

definition ctl_ConnectAll :: "ctl_config \<Rightarrow> ctl_config option" where
  "ctl_ConnectAll = ConnectAll"

definition ctl_partition :: "int list \<Rightarrow> int list \<Rightarrow> ctl_config \<Rightarrow> ctl_config option" where
  "ctl_partition = kc_partition"

subsection \<open>Clients\<close>

definition ctl_ConnectClientUnlocked :: "nat \<Rightarrow> int list \<Rightarrow> ctl_config \<Rightarrow> ctl_config option" where
  "ctl_ConnectClientUnlocked = ConnectClientUnlocked"

definition ctl_ConnectClient :: "nat \<Rightarrow> int list \<Rightarrow> ctl_config \<Rightarrow> ctl_config option" where
  "ctl_ConnectClient ck to cfg = ctl_ConnectClientUnlocked ck to cfg"

definition ctl_DisconnectClientUnlocked :: "nat \<Rightarrow> int list \<Rightarrow> ctl_config \<Rightarrow> ctl_config option" where
  "ctl_DisconnectClientUnlocked = DisconnectClientUnlocked"

definition ctl_DisconnectClient :: "nat \<Rightarrow> int list \<Rightarrow> ctl_config \<Rightarrow> ctl_config option" where
  "ctl_DisconnectClient ck from cfg = ctl_DisconnectClientUnlocked ck from cfg"

definition ctl_makeClient :: "(nat \<Rightarrow> string) \<Rightarrow> (nat \<Rightarrow> nat) \<Rightarrow> nat \<Rightarrow> int list \<Rightarrow> ctl_config \<Rightarrow> (string CtrlClerk \<times> ctl_config) option" where
  "ctl_makeClient names draw ck to cfg = do {
     let endnames = map names [0..<kc_n cfg];
     rn \<leftarrow> make_ends 0 endnames (kc_net cfg);
     hs \<leftarrow> ctl_random_handles draw endnames;
     let cfg1 = cfg\<lparr>kc_net := rn, kc_clerks := (kc_clerks cfg)(ck \<mapsto> endnames), kc_nextClientId := kc_nextClientId cfg + 1\<rparr>;
     cfg2 \<leftarrow> ctl_ConnectClientUnlocked ck to cfg1;
     Some (MakeCtrlClerk hs, cfg2)
   }"

definition ctl_deleteClient :: "nat \<Rightarrow> ctl_config \<Rightarrow> ctl_config" where
  "ctl_deleteClient = kc_deleteClient"

subsection \<open>What a client reaches\<close>

lemma make_ends_fresh:
  assumes "distinct es" and "set es \<inter> ends rn = {}"
  shows "\<exists>rn'. make_ends j es rn = Some rn' \<and> enabled rn' = (\<lambda>e. e \<notin> set es \<and> enabled rn e)
     \<and> (\<forall>k < length es. connections rn' (es ! k) = Some (int (j + k))) \<and> (\<forall>e. e \<notin> set es \<longrightarrow> connections rn' e = connections rn e)"
  using assms
proof (induction es arbitrary: j rn)
  case (Cons e es)
  let ?rn = "Connect e (Some (int j)) (rn\<lparr>ends := insert e (ends rn), enabled := (enabled rn)(e := False), connections := (connections rn)(e := None)\<rparr>)"
  have "distinct es" "set es \<inter> ends ?rn = {}" using Cons.prems by (auto simp: Connect_def)
  from Cons.IH [OF this, of "Suc j"] obtain rn' where rn': "make_ends (Suc j) es ?rn = Some rn'" "enabled rn' = (\<lambda>e. e \<notin> set es \<and> enabled ?rn e)"
      "\<forall>k < length es. connections rn' (es ! k) = Some (int (Suc j + k))" "\<forall>e. e \<notin> set es \<longrightarrow> connections rn' e = connections ?rn e" by blast
  have "make_ends j (e # es) rn = Some rn'" using rn'(1) Cons.prems(2) by (simp add: MakeEnd_def)
  moreover have "enabled rn' = (\<lambda>x. x \<notin> set (e # es) \<and> enabled rn x)" using rn'(2) by (auto simp: Connect_def)
  moreover have "connections rn' ((e # es) ! k) = Some (int (j + k))" if "k < length (e # es)" for k
    using rn'(3,4) that Cons.prems(1) by (cases k) (auto simp: Connect_def)
  moreover have "connections rn' x = connections rn x" if "x \<notin> set (e # es)" for x using rn'(4) that by (auto simp: Connect_def)
  ultimately show ?case by blast
qed simp

lemma ConnectClient_loop_switch:
  "set js \<subseteq> {0..<int (length names)} \<Longrightarrow> ConnectClient_loop names js b cfg = Some (kc_switch ((\<lambda>j. names ! nat j) ` set js) b cfg)"
  by (induction js arbitrary: cfg) (auto simp: kc_Enable_switch slice_get_def)

lemma ctl_makeClient_reaches:
  assumes "inj names" and "range names \<inter> ends (kc_net cfg) = {}" and "\<And>i. draw i \<le> i" and "set to \<subseteq> {0..<int (kc_n cfg)}"
  shows "\<exists>hs cfg'. ctl_makeClient names draw ck to cfg = Some (MakeCtrlClerk hs, cfg') \<and> mset hs = mset (map names [0..<kc_n cfg])
     \<and> (\<forall>j < kc_n cfg. connections (kc_net cfg') (names j) = Some (int j) \<and> (enabled (kc_net cfg') (names j) \<longleftrightarrow> int j \<in> set to))
     \<and> (\<forall>e. e \<notin> range names \<longrightarrow> enabled (kc_net cfg') e = enabled (kc_net cfg) e)"
proof -
  let ?es = "map names [0..<kc_n cfg]"
  have es: "distinct ?es" "set ?es \<inter> ends (kc_net cfg) = {}" using assms(1,2) by (force simp: distinct_map inj_on_def)+
  from make_ends_fresh [OF es, of 0] obtain rn where rn: "make_ends 0 ?es (kc_net cfg) = Some rn" "enabled rn = (\<lambda>e. e \<notin> set ?es \<and> enabled (kc_net cfg) e)"
      "\<forall>k < length ?es. connections rn (?es ! k) = Some (int (0 + k))" by blast
  obtain hs where hs: "random_handles draw ?es = Some hs" "mset hs = mset ?es" using random_handles_shuffles [OF assms(3)] by blast
  let ?cfg1 = "cfg\<lparr>kc_net := rn, kc_clerks := (kc_clerks cfg)(ck \<mapsto> ?es), kc_nextClientId := kc_nextClientId cfg + 1\<rparr>"
  let ?E = "(\<lambda>j. ?es ! nat j) ` set to"
  have c: "ctl_makeClient names draw ck to cfg = Some (MakeCtrlClerk hs, kc_switch ?E True ?cfg1)"
    using rn(1) hs(1) assms(4) by (simp add: ctl_makeClient_def Let_def ctl_random_handles_def ctl_ConnectClientUnlocked_def ConnectClientUnlocked_def ConnectClient_loop_switch)
  have E: "?E = (\<lambda>j. names (nat j)) ` set to" using assms(4) by (intro image_cong) (auto simp: subset_iff)
  have "names j \<in> ?E \<longleftrightarrow> int j \<in> set to" for j using assms(1,4) unfolding E by (force simp: inj_eq image_iff subset_iff)
  moreover have "e \<notin> ?E" "e \<notin> set ?es" if "e \<notin> range names" for e using that unfolding E by auto
  ultimately show ?thesis using c hs(2) rn(2,3) by (auto simp: kc_switch_def)
qed

end
