(* ===== verification/Shardkv_Harness.thy ===== *)
theory Shardkv_Harness
  imports Servers Raft_Harness Go_Strings
begin

text \<open>
  \<^verbatim>\<open>src/shardkv/config.go\<close>: the harness of the sharded key/value service, with three shard controllers
  and three groups of servers on one network.  As in the other harnesses a pointer to a server of a
  group is an address in the list of all that were ever started, names are drawn outside, and \<^verbatim>\<open>*Clerk\<close> is a
  number.  The servers that \<^verbatim>\<open>labrpc.MakeServer\<close> made are numbered in order.  The function that turns the name
  of a server into an end is stored by the servers of the repository and not called yet, so only the name
  that it draws is in its result.
\<close>

subsection \<open>State\<close>

record group =
  gg_gid :: int
  gg_servers :: "nat option list"
  gg_saved :: "saved option list"
  gg_endnames :: "string list option list"
  gg_mendnames :: "string list option list"

record shconfig =
  sh_net :: "(string, string) Network"
  sh_started :: int
  sh_nctrlers :: nat
  sh_ctrlerservers :: "ShardCtrler option list"
  sh_mck :: "string CtrlClerk option"
  sh_ngroups :: nat
  sh_n :: nat
  sh_groups :: "group option list"
  sh_insts :: "string ShardKV list"
  sh_made :: nat
  sh_clerks :: "nat \<rightharpoonup> string list"
  sh_nextClientId :: int
  sh_maxraftstate :: int

definition ctrlername :: "int \<Rightarrow> string" where
  "ctrlername i = ''ctrler'' @ Itoa i"

definition servername :: "int \<Rightarrow> int \<Rightarrow> string" where
  "servername gid i = ''server-'' @ Itoa gid @ ''-'' @ Itoa i"

text \<open>The pointer \<^verbatim>\<open>cfg.groups[gi]\<close>, which must not be nil, and writing through it.\<close>

definition sh_group :: "int \<Rightarrow> shconfig \<Rightarrow> group option" where
  "sh_group gi cfg = do { g \<leftarrow> slice_get (sh_groups cfg) gi; g }"

definition sh_set_group :: "int \<Rightarrow> group \<Rightarrow> shconfig \<Rightarrow> shconfig option" where
  "sh_set_group gi gg cfg = do { gs \<leftarrow> slice_set (sh_groups cfg) gi (Some gg); Some (cfg\<lparr>sh_groups := gs\<rparr>) }"

definition sh_content :: "shconfig \<Rightarrow> saved \<Rightarrow> Persister option" where
  "sh_content cfg p = (case p of Detached ps \<Rightarrow> Some ps | OfInst a \<Rightarrow> map_option (\<lambda>s. persister (sk_rf s)) (slice_get (sh_insts cfg) (int a)))"

subsection \<open>Ends\<close>

text \<open>A new end, connected and enabled: also what the function passed to \<^verbatim>\<open>MakeClerk\<close> and to \<^verbatim>\<open>StartServer\<close> does.\<close>

definition open_end :: "string \<Rightarrow> string \<Rightarrow> (string, string) Network \<Rightarrow> (string, string) Network option" where
  "open_end e srv rn = do { rn1 \<leftarrow> MakeEnd e rn; Some (Enable e True (Connect e (Some srv) rn1)) }"

fun open_ends :: "(int \<Rightarrow> string) \<Rightarrow> nat \<Rightarrow> string list \<Rightarrow> (string, string) Network \<Rightarrow> (string, string) Network option" where
  "open_ends to j [] rn = Some rn"
| "open_ends to j (e # es) rn = do { rn1 \<leftarrow> open_end e (to (int j)) rn; open_ends to (Suc j) es rn1 }"

subsection \<open>Clients\<close>

text \<open>The slice of names has \<^verbatim>\<open>cfg.n\<close> cells, and the loop goes over the controllers.\<close>

fun client_ends :: "(nat \<Rightarrow> string) \<Rightarrow> nat list \<Rightarrow> string list \<Rightarrow> (string, string) Network \<Rightarrow> (string list \<times> (string, string) Network) option" where
  "client_ends draw [] names rn = Some (names, rn)"
| "client_ends draw (j # js) names rn = do {
     names1 \<leftarrow> slice_set names (int j) (draw j);
     rn1 \<leftarrow> open_end (draw j) (ctrlername (int j)) rn;
     client_ends draw js names1 rn1
   }"

definition sh_makeClient :: "(nat \<Rightarrow> string) \<Rightarrow> nat \<Rightarrow> shconfig \<Rightarrow> (string Clerk \<times> shconfig) option" where
  "sh_makeClient draw ck cfg = do {
     (names, rn) \<leftarrow> client_ends draw [0..<sh_nctrlers cfg] (replicate (sh_n cfg) '''') (sh_net cfg);
     Some (MakeClerk (map draw [0..<sh_nctrlers cfg]),
           cfg\<lparr>sh_net := rn, sh_clerks := (sh_clerks cfg)(ck \<mapsto> names), sh_nextClientId := sh_nextClientId cfg + 1\<rparr>)
   }"

definition sh_deleteClient :: "nat \<Rightarrow> shconfig \<Rightarrow> shconfig" where
  "sh_deleteClient ck cfg = cfg\<lparr>sh_clerks := (sh_clerks cfg)(ck := None)\<rparr>"

subsection \<open>Servers of a group\<close>

fun disable_row :: "string list \<Rightarrow> nat list \<Rightarrow> shconfig \<Rightarrow> shconfig option" where
  "disable_row names [] cfg = Some cfg"
| "disable_row names (j # js) cfg = do {
     e \<leftarrow> slice_get names (int j);
     disable_row names js (cfg\<lparr>sh_net := Enable e False (sh_net cfg)\<rparr>)
   }"

text \<open>A row that is nil has no elements.\<close>

definition row_names :: "string list option \<Rightarrow> string list" where
  "row_names row = (case row of None \<Rightarrow> [] | Some names \<Rightarrow> names)"

text \<open>The first loop reads \<^verbatim>\<open>gg.endnames[i]\<close> only when there is a server to go over.\<close>

definition sh_disable :: "group \<Rightarrow> int \<Rightarrow> shconfig \<Rightarrow> shconfig option" where
  "sh_disable gg i cfg = do {
     cfg1 \<leftarrow> (if gg_servers gg = [] then Some cfg else do {
       row \<leftarrow> slice_get (gg_endnames gg) i;
       disable_row (row_names row) [0..<length (gg_servers gg)] cfg
     });
     mrow \<leftarrow> slice_get (gg_mendnames gg) i;
     disable_row (row_names mrow) [0..<length (row_names mrow)] cfg1
   }"

definition sh_copy :: "int \<Rightarrow> shconfig \<Rightarrow> group \<Rightarrow> group option" where
  "sh_copy i cfg gg = do {
     s \<leftarrow> slice_get (gg_saved gg) i;
     (case s of
        None \<Rightarrow> Some gg
      | Some p \<Rightarrow> do {
          ps \<leftarrow> sh_content cfg p;
          sv \<leftarrow> slice_set (gg_saved gg) i (Some (Detached (Persister_Copy ps)));
          Some (gg\<lparr>gg_saved := sv\<rparr>)
        })
   }"

definition sh_kill :: "int \<Rightarrow> group \<Rightarrow> shconfig \<Rightarrow> (group \<times> shconfig) option" where
  "sh_kill i gg cfg = do {
     r \<leftarrow> slice_get (gg_servers gg) i;
     (case r of
        None \<Rightarrow> Some (gg, cfg)
      | Some a \<Rightarrow> do {
          kv \<leftarrow> slice_get (sh_insts cfg) (int a);
          is \<leftarrow> slice_set (sh_insts cfg) (int a) (ShardKV_Kill kv);
          ss \<leftarrow> slice_set (gg_servers gg) i None;
          Some (gg\<lparr>gg_servers := ss\<rparr>, cfg\<lparr>sh_insts := is\<rparr>)
        })
   }"

definition sh_ShutdownServer :: "int \<Rightarrow> int \<Rightarrow> shconfig \<Rightarrow> shconfig option" where
  "sh_ShutdownServer gi i cfg = do {
     gg \<leftarrow> sh_group gi cfg;
     cfg1 \<leftarrow> sh_disable gg i cfg;
     let cfg2 = cfg1\<lparr>sh_net := DeleteServer (servername (gg_gid gg) i) (sh_net cfg1)\<rparr>;
     gg1 \<leftarrow> sh_copy i cfg2 gg;
     (gg2, cfg3) \<leftarrow> sh_kill i gg1 cfg2;
     sh_set_group gi gg2 cfg3
   }"

fun sh_each_server :: "(int \<Rightarrow> shconfig \<Rightarrow> shconfig option) \<Rightarrow> nat list \<Rightarrow> shconfig \<Rightarrow> shconfig option" where
  "sh_each_server f [] cfg = Some cfg"
| "sh_each_server f (i # is) cfg = do { cfg1 \<leftarrow> f (int i) cfg; sh_each_server f is cfg1 }"

definition ShutdownGroup :: "int \<Rightarrow> shconfig \<Rightarrow> shconfig option" where
  "ShutdownGroup gi cfg = sh_each_server (sh_ShutdownServer gi) [0..<sh_n cfg] cfg"

text \<open>\<open>draw\<close> and \<open>mdraw\<close> draw the names of the ends to the group and to the controllers.\<close>

definition sh_fresh_persister :: "int \<Rightarrow> shconfig \<Rightarrow> group \<Rightarrow> Persister option" where
  "sh_fresh_persister i cfg gg = do {
     s \<leftarrow> slice_get (gg_saved gg) i;
     (case s of None \<Rightarrow> Some MakePersister | Some p \<Rightarrow> map_option Persister_Copy (sh_content cfg p))
   }"

definition sh_StartServer :: "(nat \<Rightarrow> nat) \<Rightarrow> int \<Rightarrow> int \<Rightarrow> (nat \<Rightarrow> string) \<Rightarrow> (nat \<Rightarrow> string) \<Rightarrow> (string \<Rightarrow> string) \<Rightarrow> int \<Rightarrow> int \<Rightarrow> shconfig \<Rightarrow> shconfig option" where
  "sh_StartServer alloc now r draw mdraw make_end gi i cfg = do {
     gg \<leftarrow> sh_group gi cfg;
     let names = map draw [0..<sh_n cfg];
     en \<leftarrow> slice_set (gg_endnames gg) i (Some names);
     rn1 \<leftarrow> open_ends (servername (gg_gid gg)) 0 names (sh_net cfg);
     let mnames = map mdraw [0..<sh_nctrlers cfg];
     men \<leftarrow> slice_set (gg_mendnames gg) i (Some mnames);
     rn2 \<leftarrow> open_ends ctrlername 0 mnames rn1;
     ps \<leftarrow> sh_fresh_persister i cfg gg;
     let a = length (sh_insts cfg);
     sv \<leftarrow> slice_set (gg_saved gg) i (Some (OfInst a));
     kv \<leftarrow> StartShardKV alloc now r (length names) i ps (sh_maxraftstate cfg) (gg_gid gg) mnames make_end;
     ss \<leftarrow> slice_set (gg_servers gg) i (Some a);
     let rn3 = AddServer (servername (gg_gid gg) i) (Some (sh_made cfg)) rn2;
     sh_set_group gi (gg\<lparr>gg_endnames := en, gg_mendnames := men, gg_saved := sv, gg_servers := ss\<rparr>)
       (cfg\<lparr>sh_net := rn3, sh_insts := sh_insts cfg @ [kv], sh_made := Suc (sh_made cfg)\<rparr>)
   }"

text \<open>Everything that starting a server draws: the clock, the timeouts, the names.\<close>

record shdraws =
  sd_alloc :: "nat \<Rightarrow> nat"
  sd_now :: int
  sd_r :: "nat \<Rightarrow> int"
  sd_names :: "nat \<Rightarrow> nat \<Rightarrow> string"
  sd_mnames :: "nat \<Rightarrow> nat \<Rightarrow> string"
  sd_make_end :: "nat \<Rightarrow> string \<Rightarrow> string"

definition sh_start_drawn :: "shdraws \<Rightarrow> int \<Rightarrow> int \<Rightarrow> shconfig \<Rightarrow> shconfig option" where
  "sh_start_drawn d gi i = sh_StartServer (sd_alloc d) (sd_now d) (sd_r d (nat i)) (sd_names d (nat i)) (sd_mnames d (nat i)) (sd_make_end d (nat i)) gi i"

definition StartGroup :: "shdraws \<Rightarrow> int \<Rightarrow> shconfig \<Rightarrow> shconfig option" where
  "StartGroup d gi cfg = sh_each_server (sh_start_drawn d gi) [0..<sh_n cfg] cfg"

subsection \<open>Shard controllers\<close>

definition StartCtrlerserver :: "(nat \<Rightarrow> nat) \<Rightarrow> int \<Rightarrow> int \<Rightarrow> (nat \<Rightarrow> string) \<Rightarrow> int \<Rightarrow> shconfig \<Rightarrow> shconfig option" where
  "StartCtrlerserver alloc now r draw i cfg = do {
     let names = map draw [0..<sh_nctrlers cfg];
     rn \<leftarrow> open_ends ctrlername 0 names (sh_net cfg);
     sc \<leftarrow> StartCtrler alloc now r (length names) i MakePersister;
     cs \<leftarrow> slice_set (sh_ctrlerservers cfg) i (Some sc);
     Some (cfg\<lparr>sh_ctrlerservers := cs, sh_net := AddServer (ctrlername i) (Some (sh_made cfg)) rn, sh_made := Suc (sh_made cfg)\<rparr>)
   }"

definition shardclerk :: "(nat \<Rightarrow> string) \<Rightarrow> shconfig \<Rightarrow> (string CtrlClerk \<times> shconfig) option" where
  "shardclerk draw cfg = do {
     let names = map draw [0..<sh_nctrlers cfg];
     rn \<leftarrow> open_ends ctrlername 0 names (sh_net cfg);
     Some (MakeCtrlClerk names, cfg\<lparr>sh_net := rn\<rparr>)
   }"

text \<open>The map of \<^verbatim>\<open>joinm\<close> and the list of \<^verbatim>\<open>leavem\<close>; calls are as for the clerk.\<close>

fun joinm_map :: "int list \<Rightarrow> shconfig \<Rightarrow> (int \<rightharpoonup> string list) \<Rightarrow> (int \<rightharpoonup> string list) option" where
  "joinm_map [] cfg m = Some m"
| "joinm_map (g # gis) cfg m = do {
     gg \<leftarrow> sh_group g cfg;
     let servernames = map (\<lambda>i. servername (gg_gid gg) (int i)) [0..<sh_n cfg];
     joinm_map gis cfg (m(gg_gid gg \<mapsto> servernames))
   }"

definition joinm :: "(string \<Rightarrow> string \<Rightarrow> JoinArgs \<Rightarrow> nat \<Rightarrow> JoinReply option) \<Rightarrow> int list \<Rightarrow> shconfig \<Rightarrow> nat \<Rightarrow> nat option" where
  "joinm call gis cfg k = do { m \<leftarrow> joinm_map gis cfg Map.empty; mck \<leftarrow> sh_mck cfg; CtrlJoin call mck m k }"

definition sh_join :: "(string \<Rightarrow> string \<Rightarrow> JoinArgs \<Rightarrow> nat \<Rightarrow> JoinReply option) \<Rightarrow> int \<Rightarrow> shconfig \<Rightarrow> nat \<Rightarrow> nat option" where
  "sh_join call gi cfg k = joinm call [gi] cfg k"

fun leavem_gids :: "int list \<Rightarrow> shconfig \<Rightarrow> int list \<Rightarrow> int list option" where
  "leavem_gids [] cfg gids = Some gids"
| "leavem_gids (g # gis) cfg gids = do { gg \<leftarrow> sh_group g cfg; leavem_gids gis cfg (gids @ [gg_gid gg]) }"

definition leavem :: "(string \<Rightarrow> string \<Rightarrow> LeaveArgs \<Rightarrow> nat \<Rightarrow> LeaveReply option) \<Rightarrow> int list \<Rightarrow> shconfig \<Rightarrow> nat \<Rightarrow> nat option" where
  "leavem call gis cfg k = do { gids \<leftarrow> leavem_gids gis cfg []; mck \<leftarrow> sh_mck cfg; Leave call mck gids k }"

definition sh_leave :: "(string \<Rightarrow> string \<Rightarrow> LeaveArgs \<Rightarrow> nat \<Rightarrow> LeaveReply option) \<Rightarrow> int \<Rightarrow> shconfig \<Rightarrow> nat \<Rightarrow> nat option" where
  "sh_leave call gi cfg k = leavem call [gi] cfg k"

subsection \<open>The whole harness\<close>

fun start_ctrlers :: "(nat \<Rightarrow> nat) \<Rightarrow> int \<Rightarrow> (nat \<Rightarrow> int) \<Rightarrow> (nat \<Rightarrow> nat \<Rightarrow> string) \<Rightarrow> nat list \<Rightarrow> shconfig \<Rightarrow> shconfig option" where
  "start_ctrlers alloc now r draw [] cfg = Some cfg"
| "start_ctrlers alloc now r draw (i # is) cfg = do {
     cfg1 \<leftarrow> StartCtrlerserver alloc now (r i) (draw i) (int i) cfg;
     start_ctrlers alloc now r draw is cfg1
   }"

definition new_group :: "nat \<Rightarrow> nat \<Rightarrow> int \<Rightarrow> group" where
  "new_group n nctrlers gi = \<lparr>gg_gid = 100 + gi, gg_servers = replicate n None, gg_saved = replicate n None,
     gg_endnames = replicate n None, gg_mendnames = replicate nctrlers None\<rparr>"

fun make_groups :: "(nat \<Rightarrow> shdraws) \<Rightarrow> nat list \<Rightarrow> shconfig \<Rightarrow> shconfig option" where
  "make_groups d [] cfg = Some cfg"
| "make_groups d (gi # gis) cfg = do {
     cfg1 \<leftarrow> sh_set_group (int gi) (new_group (sh_n cfg) (sh_nctrlers cfg) (int gi)) cfg;
     cfg2 \<leftarrow> StartGroup (d gi) (int gi) cfg1;
     make_groups d gis cfg2
   }"

definition empty_shconfig :: "int \<Rightarrow> int \<Rightarrow> shconfig" where
  "empty_shconfig now maxraftstate = \<lparr>sh_net = MakeNetwork, sh_started = now, sh_nctrlers = 3, sh_ctrlerservers = replicate 3 None,
     sh_mck = None, sh_ngroups = 0, sh_n = 0, sh_groups = [], sh_insts = [], sh_made = 0, sh_clerks = Map.empty,
     sh_nextClientId = 0, sh_maxraftstate = maxraftstate\<rparr>"

text \<open>\<open>cdraw\<close> draws the names of the controllers' ends, \<open>kdraw\<close> those of the harness' own clerk, \<open>d\<close> everything for a group.\<close>

definition sh_make_config :: "(nat \<Rightarrow> nat) \<Rightarrow> int \<Rightarrow> (nat \<Rightarrow> int) \<Rightarrow> (nat \<Rightarrow> nat \<Rightarrow> string) \<Rightarrow> (nat \<Rightarrow> string) \<Rightarrow> (nat \<Rightarrow> shdraws) \<Rightarrow> nat \<Rightarrow> bool \<Rightarrow> int \<Rightarrow> shconfig option" where
  "sh_make_config alloc now r cdraw kdraw d n unreliable maxraftstate = do {
     cfg1 \<leftarrow> start_ctrlers alloc now r cdraw [0..<3] (empty_shconfig now maxraftstate);
     (mck, cfg2) \<leftarrow> shardclerk kdraw cfg1;
     cfg3 \<leftarrow> make_groups d [0..<3] (cfg2\<lparr>sh_mck := Some mck, sh_ngroups := 3, sh_groups := replicate 3 None, sh_n := n\<rparr>);
     Some (cfg3\<lparr>sh_clerks := Map.empty, sh_nextClientId := int n + 1000, sh_net := Reliable (\<not> unreliable) (sh_net cfg3)\<rparr>)
   }"

text \<open>\<open>False\<close> when a test ends by \<^verbatim>\<open>t.Fatal\<close>.\<close>

definition sh_checkTimeout :: "bool \<Rightarrow> int \<Rightarrow> shconfig \<Rightarrow> bool" where
  "sh_checkTimeout failed now cfg \<longleftrightarrow> \<not> (\<not> failed \<and> now - sh_started cfg > 120 * 1000000000)"

definition checklog :: "(bytes \<Rightarrow> int) \<Rightarrow> shconfig \<Rightarrow> int \<times> int \<Rightarrow> bool option" where
  "checklog blen cfg = (\<lambda>(gi, i). do {
     gg \<leftarrow> sh_group gi cfg;
     s \<leftarrow> slice_get (gg_saved gg) i;
     p \<leftarrow> s;
     ps \<leftarrow> sh_content cfg p;
     let raft = RaftStateSize blen ps;
     let snap = blen (ReadSnapshot ps);
     Some (\<not> (sh_maxraftstate cfg \<ge> 0 \<and> raft > 8 * sh_maxraftstate cfg) \<and> \<not> (sh_maxraftstate cfg < 0 \<and> snap > 0))
   })"

fun checklogs_loop :: "(bytes \<Rightarrow> int) \<Rightarrow> shconfig \<Rightarrow> (int \<times> int) list \<Rightarrow> bool option" where
  "checklogs_loop blen cfg [] = Some True"
| "checklogs_loop blen cfg (x # xs) = do { ok \<leftarrow> checklog blen cfg x; (if ok then checklogs_loop blen cfg xs else Some False) }"

definition checklogs :: "(bytes \<Rightarrow> int) \<Rightarrow> shconfig \<Rightarrow> bool option" where
  "checklogs blen cfg = checklogs_loop blen cfg (concat (map (\<lambda>gi. map (\<lambda>i. (int gi, int i)) [0..<sh_n cfg]) [0..<sh_ngroups cfg]))"

fun kill_ctrlers :: "nat list \<Rightarrow> shconfig \<Rightarrow> shconfig option" where
  "kill_ctrlers [] cfg = Some cfg"
| "kill_ctrlers (i # is) cfg = do {
     p \<leftarrow> slice_get (sh_ctrlerservers cfg) (int i);
     sc \<leftarrow> p;
     cs \<leftarrow> slice_set (sh_ctrlerservers cfg) (int i) (Some (ShardCtrler_Kill sc));
     kill_ctrlers is (cfg\<lparr>sh_ctrlerservers := cs\<rparr>)
   }"

definition sh_cleanup :: "bool \<Rightarrow> int \<Rightarrow> shconfig \<Rightarrow> (bool \<times> shconfig) option" where
  "sh_cleanup failed now cfg = do {
     cfg1 \<leftarrow> sh_each_server ShutdownGroup [0..<sh_ngroups cfg] cfg;
     cfg2 \<leftarrow> kill_ctrlers [0..<sh_nctrlers cfg1] cfg1;
     rn \<leftarrow> Cleanup (sh_net cfg2);
     let cfg3 = cfg2\<lparr>sh_net := rn\<rparr>;
     Some (sh_checkTimeout failed now cfg3, cfg3)
   }"

end
