(* ===== verification/Shardkv_Net.thy ===== *)
theory Shardkv_Net
  imports Shardkv_Harness Harness_Net
begin

text \<open>
  The network that the harness of the sharded service sets up: all servers have names of their own, every
  end of a server leads to the server that it was made for, and a server that is shut down is cut off.
\<close>

subsection \<open>Names\<close>

lemma servername_inj:
  assumes "servername g i = servername g' i'" and "0 \<le> g" "0 \<le> i" "0 \<le> g'" "0 \<le> i'"
  shows "g = g' \<and> i = i'"
proof -
  have "nat_digits (nat g) @ CHR ''-'' # nat_digits (nat i) = nat_digits (nat g') @ CHR ''-'' # nat_digits (nat i')"
    using assms by (simp add: servername_def Itoa_nonneg)
  then have "nat_digits (nat g) = nat_digits (nat g') \<and> nat_digits (nat i) = nat_digits (nat i')"
    by (subst (asm) append_Cons_eq_iff) (simp_all add: dash_notin_nat_digits)
  then show ?thesis using assms(2-) by (auto dest!: nat_digits_inj)
qed

lemma ctrlername_inj: "ctrlername i = ctrlername j \<longleftrightarrow> i = j"
  by (auto simp: ctrlername_def dest: Itoa_inj)

lemma ctrler_not_server [simp]: "ctrlername i \<noteq> servername g j" "servername g j \<noteq> ctrlername i"
  by (simp_all add: ctrlername_def servername_def)

subsection \<open>Opening ends\<close>

text \<open>The ends that were there stay as they were.\<close>

definition net_ext :: "(string, string) Network \<Rightarrow> (string, string) Network \<Rightarrow> bool" where
  "net_ext rn rn' \<longleftrightarrow> ends rn \<subseteq> ends rn' \<and> (\<forall>e \<in> ends rn. enabled rn' e = enabled rn e \<and> connections rn' e = connections rn e)"

definition opened :: "(string, string) Network \<Rightarrow> (int \<Rightarrow> string) \<Rightarrow> nat \<Rightarrow> string list \<Rightarrow> bool" where
  "opened rn to k es \<longleftrightarrow> (\<forall>j < length es. es ! j \<in> ends rn \<and> enabled rn (es ! j) \<and> connections rn (es ! j) = Some (to (int (k + j))))"

lemma net_ext_refl [simp]: "net_ext rn rn"
  by (simp add: net_ext_def)

lemma net_ext_trans [trans]: "net_ext rn rn1 \<Longrightarrow> net_ext rn1 rn2 \<Longrightarrow> net_ext rn rn2"
  by (auto simp: net_ext_def)

lemma net_ext_AddServer [simp]: "net_ext rn (AddServer s a rn') \<longleftrightarrow> net_ext rn rn'" "opened (AddServer s a rn) to k es \<longleftrightarrow> opened rn to k es"
  by (simp_all add: net_ext_def opened_def AddServer_def)

lemma opened_ext: "opened rn to k es \<Longrightarrow> net_ext rn rn' \<Longrightarrow> opened rn' to k es"
  by (auto simp: net_ext_def opened_def)

lemma open_end_ext:
  assumes "open_end e srv rn = Some rn'"
  shows "net_ext rn rn'" "e \<in> ends rn'" "enabled rn' e" "connections rn' e = Some srv" "servers rn' = servers rn"
  using assms by (auto simp: open_end_def MakeEnd_def Connect_def Enable_def net_ext_def split: if_splits)

lemma open_ends_ext:
  "open_ends to k es rn = Some rn' \<Longrightarrow> net_ext rn rn' \<and> opened rn' to k es \<and> servers rn' = servers rn"
proof (induction es arbitrary: k rn)
  case (Cons e es)
  then obtain rn1 where rn1: "open_end e (to (int k)) rn = Some rn1" "open_ends to (Suc k) es rn1 = Some rn'"
    by (auto simp: option_bind_simps)
  note one = open_end_ext [OF rn1(1)] and rest = Cons.IH [OF rn1(2)]
  have "opened rn' to k (e # es)"
    using one rest by (auto simp: opened_def net_ext_def nth_Cons ac_simps split: nat.split)
  then show ?case using one rest by (auto intro: net_ext_trans)
qed (simp add: opened_def)

subsection \<open>Starting the servers of a group\<close>

definition gids :: "shconfig \<Rightarrow> bool" where
  "gids cfg \<longleftrightarrow> (\<forall>g gg. sh_group (int g) cfg = Some gg \<longrightarrow> gg_gid gg = 100 + int g)"

text \<open>Server \<open>i\<close> of group \<open>g\<close> is registered at \<open>a\<close>, and its ends are there.\<close>

definition placed :: "shconfig \<Rightarrow> nat \<Rightarrow> nat \<Rightarrow> nat \<Rightarrow> bool" where
  "placed cfg g i a \<longleftrightarrow> (\<exists>gg names mnames. sh_group (int g) cfg = Some gg \<and> gg_gid gg = 100 + int g
     \<and> slice_get (gg_endnames gg) (int i) = Some (Some names) \<and> slice_get (gg_mendnames gg) (int i) = Some (Some mnames)
     \<and> length names = sh_n cfg \<and> length mnames = sh_nctrlers cfg
     \<and> opened (sh_net cfg) (servername (100 + int g)) 0 names \<and> opened (sh_net cfg) ctrlername 0 mnames
     \<and> servers (sh_net cfg) (servername (100 + int g) (int i)) = Some a)"

lemma placed_frame:
  assumes "placed cfg g i a" and "sh_n cfg' = sh_n cfg" "sh_nctrlers cfg' = sh_nctrlers cfg" and "net_ext (sh_net cfg) (sh_net cfg')"
    and "servers (sh_net cfg') (servername (100 + int g) (int i)) = servers (sh_net cfg) (servername (100 + int g) (int i))"
    and "\<And>gg. sh_group (int g) cfg = Some gg \<Longrightarrow> \<exists>gg'. sh_group (int g) cfg' = Some gg' \<and> gg_gid gg' = gg_gid gg
       \<and> slice_get (gg_endnames gg') (int i) = slice_get (gg_endnames gg) (int i)
       \<and> slice_get (gg_mendnames gg') (int i) = slice_get (gg_mendnames gg) (int i)"
  shows "placed cfg' g i a"
  using assms(1,5) assms(6) opened_ext [OF _ assms(4)] unfolding placed_def assms(2,3) by metis

lemma sh_group_set:
  "sh_set_group gi gg cfg = Some cfg' \<Longrightarrow> sh_group g cfg' = (if g = gi then Some gg else sh_group g cfg)"
  by (auto simp: sh_set_group_def sh_group_def option_bind_simps slice_set_Some_iff slice_get_def nth_list_update nat_eq_iff split: if_splits)

lemma sh_set_group_sel:
  "sh_set_group gi gg cfg = Some cfg' \<Longrightarrow> sh_net cfg' = sh_net cfg \<and> sh_n cfg' = sh_n cfg \<and> sh_nctrlers cfg' = sh_nctrlers cfg
     \<and> sh_made cfg' = sh_made cfg \<and> sh_mck cfg' = sh_mck cfg \<and> sh_insts cfg' = sh_insts cfg \<and> sh_ngroups cfg' = sh_ngroups cfg"
  by (auto simp: sh_set_group_def option_bind_simps)

text \<open>Starting one server: it is in place, and nothing else has changed.\<close>

definition start_effect :: "nat \<Rightarrow> nat \<Rightarrow> shconfig \<Rightarrow> shconfig \<Rightarrow> bool" where
  "start_effect gi i cfg cfg' \<longleftrightarrow> gids cfg' \<and> placed cfg' gi i (sh_made cfg) \<and> sh_made cfg' = Suc (sh_made cfg)
     \<and> (\<forall>g j a. (g, j) \<noteq> (gi, i) \<longrightarrow> placed cfg g j a \<longrightarrow> placed cfg' g j a)
     \<and> net_ext (sh_net cfg) (sh_net cfg') \<and> sh_n cfg' = sh_n cfg \<and> sh_nctrlers cfg' = sh_nctrlers cfg \<and> sh_mck cfg' = sh_mck cfg
     \<and> (\<forall>k. servers (sh_net cfg') (ctrlername k) = servers (sh_net cfg) (ctrlername k))
     \<and> (\<exists>gg gg'. sh_group (int gi) cfg = Some gg \<and> sh_group (int gi) cfg' = Some gg' \<and> i < length (gg_mendnames gg)
          \<and> length (gg_mendnames gg') = length (gg_mendnames gg))"

lemma sh_StartServer_effect:
  assumes g: "gids cfg" and st: "sh_StartServer alloc now r draw mdraw make_end (int gi) (int i) cfg = Some cfg'"
  shows "start_effect gi i cfg cfg'"
proof -
  define names mnames where "names = map draw [0..<sh_n cfg]" and "mnames = map mdraw [0..<sh_nctrlers cfg]"
  obtain gg en men sv ss rn1 rn2 kv where t: "sh_group (int gi) cfg = Some gg"
      "open_ends (servername (gg_gid gg)) 0 names (sh_net cfg) = Some rn1" "open_ends ctrlername 0 mnames rn1 = Some rn2"
      "slice_set (gg_endnames gg) (int i) (Some names) = Some en" "slice_set (gg_mendnames gg) (int i) (Some mnames) = Some men"
      "sh_set_group (int gi) (gg\<lparr>gg_endnames := en, gg_mendnames := men, gg_saved := sv, gg_servers := ss\<rparr>)
         (cfg\<lparr>sh_net := AddServer (servername (gg_gid gg) (int i)) (Some (sh_made cfg)) rn2,
              sh_insts := sh_insts cfg @ [kv], sh_made := Suc (sh_made cfg)\<rparr>) = Some cfg'"
    using st unfolding sh_StartServer_def Let_def names_def mnames_def bind_eq_Some_conv by blast
  define gg' where "gg' = gg\<lparr>gg_endnames := en, gg_mendnames := men, gg_saved := sv, gg_servers := ss\<rparr>"
  have s: "sh_group (int gi) cfg = Some gg"
      "open_ends (servername (gg_gid gg)) 0 names (sh_net cfg) = Some rn1" "open_ends ctrlername 0 mnames rn1 = Some rn2"
      "gg_gid gg' = gg_gid gg" "gg_endnames gg' = (gg_endnames gg)[i := Some names]" "gg_mendnames gg' = (gg_mendnames gg)[i := Some mnames]"
      "i < length (gg_endnames gg)" "i < length (gg_mendnames gg)"
      "sh_set_group (int gi) gg' (cfg\<lparr>sh_net := AddServer (servername (gg_gid gg) (int i)) (Some (sh_made cfg)) rn2,
         sh_insts := sh_insts cfg @ [kv], sh_made := Suc (sh_made cfg)\<rparr>) = Some cfg'"
    using t by (auto simp: gg'_def slice_set_Some_iff)
  note o1 = open_ends_ext [OF s(2)] and o2 = open_ends_ext [OF s(3)] and sel = sh_set_group_sel [OF s(9), simplified]
  have grp: "sh_group k cfg' = (if k = int gi then Some gg' else sh_group k cfg)" for k
    using sh_group_set [OF s(9), of k] by (simp add: sh_group_def)
  have gid: "gg_gid gg = 100 + int gi" using g s(1) by (simp add: gids_def)
  have gids': "gids cfg'" using g s(4) gid by (auto simp: gids_def grp)
  have ext: "net_ext (sh_net cfg) (sh_net cfg')" using o1 o2 sel by (auto intro: net_ext_trans)
  have srv: "servers (sh_net cfg') = (servers (sh_net cfg))(servername (100 + int gi) (int i) \<mapsto> sh_made cfg)"
    using o1 o2 sel gid by (simp add: AddServer_def)
  have "opened (sh_net cfg') (servername (100 + int gi)) 0 names" "opened (sh_net cfg') ctrlername 0 mnames"
    using o1 o2 sel gid by (auto intro: opened_ext)
  then have "placed cfg' gi i (sh_made cfg)"
    unfolding placed_def using grp s(4,5,6,7,8) gid srv sel by (intro exI [of _ gg'] exI [of _ names] exI [of _ mnames]) (simp add: names_def mnames_def)
  moreover have "placed cfg' k j a" if ne: "(k, j) \<noteq> (gi, i)" and p: "placed cfg k j a" for k j a
  proof (rule placed_frame [OF p _ _ ext])
    show "sh_n cfg' = sh_n cfg" "sh_nctrlers cfg' = sh_nctrlers cfg" using sel by auto
    show "servers (sh_net cfg') (servername (100 + int k) (int j)) = servers (sh_net cfg) (servername (100 + int k) (int j))"
      using ne by (auto simp: srv dest: servername_inj)
    show "\<exists>gg'. sh_group (int k) cfg' = Some gg' \<and> gg_gid gg' = gg_gid gk \<and> slice_get (gg_endnames gg') (int j) = slice_get (gg_endnames gk) (int j)
        \<and> slice_get (gg_mendnames gg') (int j) = slice_get (gg_mendnames gk) (int j)" if "sh_group (int k) cfg = Some gk" for gk
      using that s(1,4,5,6) ne by (auto simp: grp slice_get_def)
  qed
  ultimately show ?thesis using gids' ext sel srv s(1,6,8) grp by (simp add: start_effect_def)
qed

lemma start_effect_unfold:
  assumes "start_effect gi i cfg cfg'"
  shows "gids cfg'" "placed cfg' gi i (sh_made cfg)" "sh_made cfg' = Suc (sh_made cfg)"
    "\<And>g j a. (g, j) \<noteq> (gi, i) \<Longrightarrow> placed cfg g j a \<Longrightarrow> placed cfg' g j a"
    "net_ext (sh_net cfg) (sh_net cfg')" "sh_n cfg' = sh_n cfg" "sh_nctrlers cfg' = sh_nctrlers cfg" "sh_mck cfg' = sh_mck cfg"
    "\<And>k. servers (sh_net cfg') (ctrlername k) = servers (sh_net cfg) (ctrlername k)"
  using assms unfolding start_effect_def by blast+

text \<open>Starting servers one after the other.\<close>

lemma group_started:
  assumes "sh_each_server (sh_start_drawn d (int gi)) is cfg = Some cfg'" and "gids cfg" and "distinct is"
  shows "gids cfg' \<and> sh_made cfg' = sh_made cfg + length is \<and> (\<forall>k < length is. placed cfg' gi (is ! k) (sh_made cfg + k))
     \<and> (\<forall>g j a. g \<noteq> gi \<or> j \<notin> set is \<longrightarrow> placed cfg g j a \<longrightarrow> placed cfg' g j a) \<and> net_ext (sh_net cfg) (sh_net cfg')
     \<and> sh_n cfg' = sh_n cfg \<and> sh_nctrlers cfg' = sh_nctrlers cfg \<and> sh_mck cfg' = sh_mck cfg
     \<and> (\<forall>k. servers (sh_net cfg') (ctrlername k) = servers (sh_net cfg) (ctrlername k))"
  using assms
proof (induction "is" arbitrary: cfg)
  case (Cons i "is")
  then obtain cfg1 where c: "sh_start_drawn d (int gi) (int i) cfg = Some cfg1" "sh_each_server (sh_start_drawn d (int gi)) is cfg1 = Some cfg'"
    by (auto simp: option_bind_simps)
  from c(1) have "start_effect gi i cfg cfg1" using Cons.prems(2) by (auto simp: sh_start_drawn_def intro: sh_StartServer_effect)
  note one = start_effect_unfold [OF this]
  have IH: "gids cfg'" "sh_made cfg' = sh_made cfg1 + length is" "\<And>k. k < length is \<Longrightarrow> placed cfg' gi (is ! k) (sh_made cfg1 + k)"
     "\<And>g j a. g \<noteq> gi \<or> j \<notin> set is \<Longrightarrow> placed cfg1 g j a \<Longrightarrow> placed cfg' g j a" "net_ext (sh_net cfg1) (sh_net cfg')"
     "sh_n cfg' = sh_n cfg1" "sh_nctrlers cfg' = sh_nctrlers cfg1" "sh_mck cfg' = sh_mck cfg1"
     "\<And>k. servers (sh_net cfg') (ctrlername k) = servers (sh_net cfg1) (ctrlername k)"
    using Cons.IH [OF c(2) one(1)] Cons.prems(3) by auto
  have "placed cfg' gi i (sh_made cfg)" using IH(4) one(2) Cons.prems(3) by simp
  then have "\<forall>k < length (i # is). placed cfg' gi ((i # is) ! k) (sh_made cfg + k)" using IH(3) one(3) by (auto simp: nth_Cons split: nat.split)
  moreover have "\<forall>g j a. g \<noteq> gi \<or> j \<notin> set (i # is) \<longrightarrow> placed cfg g j a \<longrightarrow> placed cfg' g j a" using IH(4) one(4) by auto
  ultimately show ?case using IH one by (simp add: net_ext_trans [OF one(5) IH(5)])
qed simp

text \<open>The table for the ends to the controllers has a row for every controller, not for every server.\<close>

lemma group_fits:
  assumes "sh_each_server (sh_start_drawn d (int gi)) is cfg = Some cfg'" and "gids cfg" and "sh_group (int gi) cfg = Some gg" and "i \<in> set is"
  shows "i < length (gg_mendnames gg)"
  using assms
proof (induction "is" arbitrary: cfg gg)
  case (Cons k "is")
  then obtain cfg1 where c: "sh_start_drawn d (int gi) (int k) cfg = Some cfg1" "sh_each_server (sh_start_drawn d (int gi)) is cfg1 = Some cfg'"
    by (auto simp: option_bind_simps)
  from c(1) have e: "start_effect gi k cfg cfg1" using Cons.prems(2) by (auto simp: sh_start_drawn_def intro: sh_StartServer_effect)
  then obtain gg1 where "k < length (gg_mendnames gg)" "sh_group (int gi) cfg1 = Some gg1" "length (gg_mendnames gg1) = length (gg_mendnames gg)"
    using Cons.prems(3) by (auto simp: start_effect_def)
  then show ?case using Cons.IH [OF c(2) start_effect_unfold(1) [OF e], of gg1] Cons.prems(4) by auto
qed simp

subsection \<open>The whole harness\<close>

lemma gids_set_group: "gids cfg \<Longrightarrow> sh_set_group (int gi) gg cfg = Some cfg' \<Longrightarrow> gg_gid gg = 100 + int gi \<Longrightarrow> gids cfg'"
  by (auto simp: gids_def sh_group_set)

lemma placed_set_group:
  assumes "placed cfg g j a" and "sh_set_group (int gi) gg cfg = Some cfg'" and "g \<noteq> gi"
  shows "placed cfg' g j a"
  using assms(1) sh_set_group_sel [OF assms(2)] sh_group_set [OF assms(2), of "int g"] assms(3) by (simp add: placed_def)

lemma groups_made:
  assumes "make_groups d gis cfg = Some cfg'" and "gids cfg" and "distinct gis" and "sh_n cfg = n"
  shows "gids cfg' \<and> (\<forall>k < length gis. \<forall>i < n. placed cfg' (gis ! k) i (sh_made cfg + k * n + i))
     \<and> (\<forall>g j a. g \<notin> set gis \<longrightarrow> placed cfg g j a \<longrightarrow> placed cfg' g j a) \<and> net_ext (sh_net cfg) (sh_net cfg')
     \<and> sh_n cfg' = n \<and> sh_nctrlers cfg' = sh_nctrlers cfg \<and> sh_mck cfg' = sh_mck cfg
     \<and> (\<forall>k. servers (sh_net cfg') (ctrlername k) = servers (sh_net cfg) (ctrlername k)) \<and> (gis \<noteq> [] \<longrightarrow> n \<le> sh_nctrlers cfg)"
  using assms
proof (induction gis arbitrary: cfg)
  case (Cons gi gis)
  define gg where "gg = new_group n (sh_nctrlers cfg) (int gi)"
  obtain cfg1 cfg2 where c: "sh_set_group (int gi) gg cfg = Some cfg1" "StartGroup (d gi) (int gi) cfg1 = Some cfg2" "make_groups d gis cfg2 = Some cfg'"
    using Cons.prems(1,4) by (auto simp: option_bind_simps gg_def)
  have g1: "gids cfg1" by (rule gids_set_group [OF Cons.prems(2) c(1)]) (simp add: gg_def new_group_def)
  note sel = sh_set_group_sel [OF c(1)]
  have sg: "sh_each_server (sh_start_drawn (d gi) (int gi)) [0..<n] cfg1 = Some cfg2" using c(2) sel Cons.prems(4) by (simp add: StartGroup_def)
  note two = group_started [OF sg g1 distinct_upt, simplified]
  have fits: "n \<le> sh_nctrlers cfg"
    using group_fits [OF sg g1, of gg "n - 1"] sh_group_set [OF c(1), of "int gi"] by (cases n) (auto simp: gg_def new_group_def)
  have IH: "gids cfg'" "\<And>k i. k < length gis \<Longrightarrow> i < n \<Longrightarrow> placed cfg' (gis ! k) i (sh_made cfg2 + k * n + i)"
      "\<And>g j a. g \<notin> set gis \<Longrightarrow> placed cfg2 g j a \<Longrightarrow> placed cfg' g j a" "net_ext (sh_net cfg2) (sh_net cfg')"
      "sh_n cfg' = n \<and> sh_nctrlers cfg' = sh_nctrlers cfg2 \<and> sh_mck cfg' = sh_mck cfg2"
      "\<And>k. servers (sh_net cfg') (ctrlername k) = servers (sh_net cfg2) (ctrlername k)"
    using Cons.IH [OF c(3)] two sel Cons.prems(3,4) by auto
  have "placed cfg' gi i (sh_made cfg + i)" if "i < n" for i using IH(3) two that sel Cons.prems(3) by auto
  then have "\<forall>k < length (gi # gis). \<forall>i < n. placed cfg' ((gi # gis) ! k) i (sh_made cfg + k * n + i)"
    using IH(2) two sel by (auto simp: nth_Cons algebra_simps split: nat.split)
  moreover have "\<forall>g j a. g \<notin> set (gi # gis) \<longrightarrow> placed cfg g j a \<longrightarrow> placed cfg' g j a"
    using IH(3) two placed_set_group [OF _ c(1)] by auto
  moreover have "net_ext (sh_net cfg) (sh_net cfg')" using two sel IH(4) by (auto intro: net_ext_trans)
  ultimately show ?case using IH(1,5,6) two sel fits by simp
qed simp

lemma ctrlers_started:
  assumes "start_ctrlers alloc now r draw is cfg = Some cfg'" and "distinct is"
  shows "net_ext (sh_net cfg) (sh_net cfg') \<and> sh_made cfg' = sh_made cfg + length is \<and> sh_nctrlers cfg' = sh_nctrlers cfg
     \<and> (\<forall>k < length is. servers (sh_net cfg') (ctrlername (int (is ! k))) = Some (sh_made cfg + k))
     \<and> (\<forall>j. j \<notin> set is \<longrightarrow> servers (sh_net cfg') (ctrlername (int j)) = servers (sh_net cfg) (ctrlername (int j)))"
  using assms
proof (induction "is" arbitrary: cfg)
  case (Cons i "is")
  then obtain cfg1 where c: "StartCtrlerserver alloc now (r i) (draw i) (int i) cfg = Some cfg1" "start_ctrlers alloc now r draw is cfg1 = Some cfg'"
    by (auto simp: option_bind_simps)
  obtain rn where rn: "open_ends ctrlername 0 (map (draw i) [0..<sh_nctrlers cfg]) (sh_net cfg) = Some rn"
      "sh_net cfg1 = AddServer (ctrlername (int i)) (Some (sh_made cfg)) rn" "sh_made cfg1 = Suc (sh_made cfg)" "sh_nctrlers cfg1 = sh_nctrlers cfg"
    using c(1) by (auto simp: StartCtrlerserver_def Let_def option_bind_simps)
  note o = open_ends_ext [OF rn(1)]
  have s1: "servers (sh_net cfg1) = (servers (sh_net cfg))(ctrlername (int i) \<mapsto> sh_made cfg)" using rn(2) o by (simp add: AddServer_def)
  have e1: "net_ext (sh_net cfg) (sh_net cfg1)" using rn(2) o by simp
  note IH = Cons.IH [OF c(2)]
  show ?case using IH s1 e1 rn(3,4) Cons.prems(2) by (auto simp: ctrlername_inj nth_Cons intro: net_ext_trans split: nat.split)
qed simp

lemma sh_make_config_net:
  assumes "sh_make_config alloc now r cdraw kdraw d n unreliable mrs = Some cfg"
  shows "n \<le> 3" "sh_n cfg = n" "sh_nctrlers cfg = 3" "\<And>g i. g < 3 \<Longrightarrow> i < n \<Longrightarrow> placed cfg g i (3 + g * n + i)"
    "\<And>j. j < 3 \<Longrightarrow> servers (sh_net cfg) (ctrlername (int j)) = Some j"
    "\<exists>names. sh_mck cfg = Some (MakeCtrlClerk names) \<and> length names = 3 \<and> opened (sh_net cfg) ctrlername 0 names"
proof -
  obtain cfg1 mck cfg2 cfg3 where c: "start_ctrlers alloc now r cdraw [0..<3] (empty_shconfig now mrs) = Some cfg1"
      "shardclerk kdraw cfg1 = Some (mck, cfg2)"
      "make_groups d [0..<3] (cfg2\<lparr>sh_mck := Some mck, sh_ngroups := 3, sh_groups := replicate 3 None, sh_n := n\<rparr>) = Some cfg3"
      "cfg = cfg3\<lparr>sh_clerks := Map.empty, sh_nextClientId := int n + 1000, sh_net := Reliable (\<not> unreliable) (sh_net cfg3)\<rparr>"
    using assms by (auto simp: sh_make_config_def option_bind_simps)
  let ?c2 = "cfg2\<lparr>sh_mck := Some mck, sh_ngroups := 3, sh_groups := replicate 3 None, sh_n := n\<rparr>"
  note one = ctrlers_started [OF c(1) distinct_upt]
  obtain rn where rn: "open_ends ctrlername 0 (map kdraw [0..<3]) (sh_net cfg1) = Some rn" "mck = MakeCtrlClerk (map kdraw [0..<3])"
      "cfg2 = cfg1\<lparr>sh_net := rn\<rparr>"
    using c(2) one by (auto simp: shardclerk_def empty_shconfig_def Let_def option_bind_simps)
  note o = open_ends_ext [OF rn(1)]
  have "gids ?c2" by (auto simp: gids_def sh_group_def option_bind_simps slice_get_def split: if_splits)
  note three = groups_made [OF c(3) this distinct_upt refl]
  have ctl: "servers (sh_net cfg3) (ctrlername (int j)) = Some j" if "j < 3" for j
  proof -
    have "servers (sh_net cfg1) (ctrlername (int ([0..<3] ! j))) = Some (0 + j)" using one that by (simp add: empty_shconfig_def)
    then show ?thesis using three o rn(3) that by simp
  qed
  have pl: "placed cfg3 g i (3 + g * n + i)" if "g < 3" "i < n" for g i
  proof -
    have "placed cfg3 ([0..<3] ! g) i (sh_made ?c2 + g * n + i)" using three that by auto
    then show ?thesis using that one rn(3) by (simp add: empty_shconfig_def)
  qed
  have rel: "opened (Reliable b net) to k es = opened net to k es" "servers (Reliable b net) = servers net" for b net to k es
    by (simp_all add: opened_def Reliable_def)
  show "n \<le> 3" using three one rn(3) by (simp add: empty_shconfig_def)
  show "sh_n cfg = n" "sh_nctrlers cfg = 3" using three c(4) one rn(3) by (simp_all add: empty_shconfig_def)
  show "placed cfg g i (3 + g * n + i)" if "g < 3" "i < n" for g i using pl [OF that] by (simp add: c(4) placed_def sh_group_def rel)
  show "servers (sh_net cfg) (ctrlername (int j)) = Some j" if "j < 3" for j using ctl [OF that] by (simp add: c(4) rel)
  show "\<exists>names. sh_mck cfg = Some (MakeCtrlClerk names) \<and> length names = 3 \<and> opened (sh_net cfg) ctrlername 0 names"
    using three o rn(2,3) opened_ext [of rn ctrlername 0 "map kdraw [0..<3]" "sh_net cfg3"] by (auto simp: c(4) rel)
qed

lemma opened_attached:
  assumes "opened rn to 0 es" and "j < length es" and "servers rn (to (int j)) = Some a"
  shows "attached (es ! j) (to (int j)) a rn"
  using assms by (auto simp: opened_def attached_def)

text \<open>The current ends of a server, to its group and to the controllers.\<close>

definition sh_endname :: "shconfig \<Rightarrow> int \<Rightarrow> int \<Rightarrow> int \<Rightarrow> string option" where
  "sh_endname cfg gi i j = do { gg \<leftarrow> sh_group gi cfg; row \<leftarrow> slice_get (gg_endnames gg) i; names \<leftarrow> row; slice_get names j }"

definition sh_mendname :: "shconfig \<Rightarrow> int \<Rightarrow> int \<Rightarrow> int \<Rightarrow> string option" where
  "sh_mendname cfg gi i j = do { gg \<leftarrow> sh_group gi cfg; row \<leftarrow> slice_get (gg_mendnames gg) i; names \<leftarrow> row; slice_get names j }"

definition sample_shdraws :: "nat \<Rightarrow> shdraws" where
  "sample_shdraws g = \<lparr>sd_alloc = (\<lambda>k. k), sd_now = 0, sd_r = (\<lambda>_. 0), sd_names = (\<lambda>i j. sample_draw (4 + g) (6 * i + j)),
     sd_mnames = (\<lambda>i j. sample_draw (4 + g) (6 * i + 3 + j)), sd_make_end = (\<lambda>_ s. s)\<rparr>"

definition sample_shard :: "shconfig option" where
  "sample_shard = sh_make_config (\<lambda>k. k) 0 (\<lambda>_. 0) sample_draw (sample_draw 3) sample_shdraws 3 False (-1)"

lemma sample_shard_runs: "sample_shard \<noteq> None"
  by code_simp

subsection \<open>Properties\<close>

text \<open>C35: When \<^verbatim>\<open>make_config\<close> of the sharded service returns, there are at most three servers per group (a larger group panics,
  since the table of ends to the controllers has three rows), every name is registered for the server that
  was started for it, and every server's end towards server \<open>j\<close> of its group, and towards controller \<open>j\<close>, is
  attached to that server: the names of groups, servers and controllers never collide.\<close>

theorem shard_harness_wired:
  assumes "sh_make_config alloc now r cdraw kdraw d n unreliable mrs = Some cfg" and "gi < 3" and "i < n"
  shows "n \<le> 3
     \<and> (\<forall>j < n. \<exists>e. sh_endname cfg (int gi) (int i) (int j) = Some e \<and> attached e (servername (100 + int gi) (int j)) (3 + gi * n + j) (sh_net cfg))
     \<and> (\<forall>j < 3. \<exists>e. sh_mendname cfg (int gi) (int i) (int j) = Some e \<and> attached e (ctrlername (int j)) j (sh_net cfg))"
proof -
  note net = sh_make_config_net [OF assms(1)]
  obtain gg names mnames where p: "sh_group (int gi) cfg = Some gg" "slice_get (gg_endnames gg) (int i) = Some (Some names)"
      "slice_get (gg_mendnames gg) (int i) = Some (Some mnames)" "length names = n" "length mnames = 3"
      "opened (sh_net cfg) (servername (100 + int gi)) 0 names" "opened (sh_net cfg) ctrlername 0 mnames"
    using net(4) [OF assms(2,3)] net(2,3) by (auto simp: placed_def)
  have reg: "servers (sh_net cfg) (servername (100 + int gi) (int j)) = Some (3 + gi * n + j)" if "j < n" for j
    using net(4) [OF assms(2) that] by (auto simp: placed_def)
  have "attached (names ! j) (servername (100 + int gi) (int j)) (3 + gi * n + j) (sh_net cfg)" if "j < n" for j
    using opened_attached [OF p(6)] p(4) reg that by simp
  moreover have "attached (mnames ! j) (ctrlername (int j)) j (sh_net cfg)" if "j < 3" for j
    using opened_attached [OF p(7)] p(5) net(5) that by simp
  ultimately show ?thesis using net(1) p by (auto simp: sh_endname_def sh_mendname_def)
qed

theorem shard_harness_wired_witness:
  "\<exists>cfg e. sample_shard = Some cfg \<and> sh_endname cfg 1 2 0 = Some e \<and> attached e (servername 101 0) 6 (sh_net cfg)"
proof -
  obtain cfg where c: "sample_shard = Some cfg" using sample_shard_runs by blast
  have "\<exists>e. sh_endname cfg 1 2 0 = Some e \<and> attached e (servername 101 0) 6 (sh_net cfg)"
    using shard_harness_wired [OF c [unfolded sample_shard_def], of 1 2] by (auto dest: spec [of _ 0])
  with c show ?thesis by blast
qed

text \<open>Names of a client's ends: the slice has a cell for every server of a group.\<close>

lemma client_ends_effect:
  assumes "client_ends draw js names rn = Some (names', rn')" and "\<And>j. j \<in> set js \<Longrightarrow> servers rn (ctrlername (int j)) = Some j"
  shows "net_ext rn rn' \<and> servers rn' = servers rn \<and> (\<forall>j \<in> set js. j < length names \<and> attached (draw j) (ctrlername (int j)) j rn')"
  using assms
proof (induction js arbitrary: names rn)
  case (Cons j js)
  then obtain names1 rn1 where c: "slice_set names (int j) (draw j) = Some names1" "open_end (draw j) (ctrlername (int j)) rn = Some rn1"
      "client_ends draw js names1 rn1 = Some (names', rn')" by (auto simp: option_bind_simps)
  note one = open_end_ext [OF c(2)]
  have IH: "net_ext rn1 rn'" "servers rn' = servers rn1" "\<forall>k \<in> set js. k < length names1 \<and> attached (draw k) (ctrlername (int k)) k rn'"
    using Cons.IH [OF c(3)] Cons.prems(2) one(5) by auto
  have "j < length names" "length names1 = length names" using c(1) by (auto simp: slice_set_Some_iff)
  moreover have "attached (draw j) (ctrlername (int j)) j rn'"
    using one IH(1,2) Cons.prems(2) by (auto simp: attached_def net_ext_def)
  ultimately show ?case using IH one net_ext_trans [OF one(1) IH(1)] by auto
qed simp

text \<open>C36: Clients work for groups of exactly three servers: when \<^verbatim>\<open>make_config\<close> for \<open>n\<close> servers per group and then \<^verbatim>\<open>makeClient\<close>
  return, \<open>n\<close> is 3, and the new client's end towards each of the three controllers is attached to it.  With fewer
  servers \<^verbatim>\<open>makeClient\<close> panics: it makes a slice of \<^verbatim>\<open>cfg.n\<close> names and indexes it by the controllers.\<close>

theorem shard_client_needs_three:
  assumes "sh_make_config alloc now r cdraw kdraw d n unreliable mrs = Some cfg" and "sh_makeClient draw ck cfg = Some (clerk, cfg')"
  shows "n = 3 \<and> ctl_servers (ck_sm clerk) = map draw [0..<3] \<and> (\<forall>j < 3. attached (draw j) (ctrlername (int j)) j (sh_net cfg'))
     \<and> sh_nextClientId cfg' = sh_nextClientId cfg + 1"
proof -
  note net = sh_make_config_net [OF assms(1)]
  obtain names rn where c: "client_ends draw [0..<3] (replicate n '''') (sh_net cfg) = Some (names, rn)" "clerk = MakeClerk (map draw [0..<3])"
      "sh_net cfg' = rn" "sh_nextClientId cfg' = sh_nextClientId cfg + 1"
    using assms(2) net(2,3) by (auto simp: sh_makeClient_def option_bind_simps)
  have cl: "\<forall>j \<in> set [0..<3]. j < length (replicate n '''') \<and> attached (draw j) (ctrlername (int j)) j rn"
    using client_ends_effect [OF c(1)] net(5) by auto
  then have "2 < n" by auto
  with cl c net(1) show ?thesis by (auto simp: MakeClerk_def MakeCtrlClerk_def)
qed

lemma sample_shard_client: "sample_shard \<bind> sh_makeClient (sample_draw 9) 0 \<noteq> None"
  by code_simp

theorem shard_client_needs_three_witness:
  "\<exists>cfg clerk cfg'. sample_shard = Some cfg \<and> sh_makeClient (sample_draw 9) 0 cfg = Some (clerk, cfg')
     \<and> attached (sample_draw 9 2) (ctrlername 2) 2 (sh_net cfg')"
proof -
  obtain cfg clerk cfg' where c: "sample_shard = Some cfg" "sh_makeClient (sample_draw 9) 0 cfg = Some (clerk, cfg')"
    using sample_shard_client by (cases sample_shard) (auto simp: bind_eq_Some_conv)
  have "attached (sample_draw 9 2) (ctrlername 2) 2 (sh_net cfg')"
    using shard_client_needs_three [OF c(1) [unfolded sample_shard_def] c(2)] by (auto dest: spec [of _ 2])
  with c show ?thesis by blast
qed

subsection \<open>Shutting a server down\<close>

lemma disable_row_effect:
  "disable_row names js cfg = Some cfg' \<Longrightarrow> \<exists>E. E = (\<lambda>j. names ! j) ` set js \<and> (\<forall>j \<in> set js. j < length names)
     \<and> cfg' = cfg\<lparr>sh_net := (sh_net cfg)\<lparr>enabled := (\<lambda>e. e \<notin> E \<and> enabled (sh_net cfg) e)\<rparr>\<rparr>"
proof (induction js arbitrary: cfg)
  case (Cons j js)
  let ?cfg = "cfg\<lparr>sh_net := Enable (names ! j) False (sh_net cfg)\<rparr>"
  have "j < length names" "disable_row names js ?cfg = Some cfg'" using Cons.prems by (auto simp: option_bind_simps slice_get_Some_iff)
  then show ?case using Cons.IH [of ?cfg] by (auto simp: Enable_def fun_eq_iff intro!: arg_cong [where f = "\<lambda>n. cfg\<lparr>sh_net := n\<rparr>"])
qed simp

lemma sh_kill_effect:
  assumes "sh_kill i gg cfg = Some (gg', cfg')" and "slice_get (gg_servers gg) i = Some (Some a)"
  shows "a < length (sh_insts cfg) \<and> gg' = gg\<lparr>gg_servers := (gg_servers gg)[nat i := None]\<rparr>
     \<and> cfg' = cfg\<lparr>sh_insts := (sh_insts cfg)[a := ShardKV_Kill (sh_insts cfg ! a)]\<rparr>"
  using assms by (auto simp: sh_kill_def option_bind_simps slice_set_Some_iff slice_get_Some_iff)

text \<open>A server that is shut down is cut off and loses nothing: after \<^verbatim>\<open>ShutdownServer\<close> of a running server no end whatever is
  attached to it, its own ends to its group and to the controllers are disabled, the instance is killed, and the
  harness keeps a persister with the content that the instance had, which the instance can no longer write to.\<close>

lemma shutdown_cuts_off:
  assumes "sh_ShutdownServer gi i cfg = Some cfg'" and "sh_group gi cfg = Some gg" and "slice_get (gg_servers gg) i = Some (Some a)"
    and "slice_get (gg_saved gg) i = Some (Some (OfInst a))"
  shows "(\<forall>e b. \<not> attached e (servername (gg_gid gg) i) b (sh_net cfg'))
     \<and> (\<forall>j e. (sh_endname cfg gi i j = Some e \<and> j < int (length (gg_servers gg)) \<or> sh_mendname cfg gi i j = Some e) \<longrightarrow> \<not> enabled (sh_net cfg') e)
     \<and> (\<exists>gg'. sh_group gi cfg' = Some gg' \<and> slice_get (gg_servers gg') i = Some None
          \<and> slice_get (gg_saved gg') i = Some (Some (Detached (persister (sk_rf (sh_insts cfg ! a))))))
     \<and> sh_insts cfg' ! a = ShardKV_Kill (sh_insts cfg ! a)"
proof -
  obtain cfg1 gg1 gg2 cfg3 where s: "sh_disable gg i cfg = Some cfg1"
      "sh_copy i (cfg1\<lparr>sh_net := DeleteServer (servername (gg_gid gg) i) (sh_net cfg1)\<rparr>) gg = Some gg1"
      "sh_kill i gg1 (cfg1\<lparr>sh_net := DeleteServer (servername (gg_gid gg) i) (sh_net cfg1)\<rparr>) = Some (gg2, cfg3)"
      "sh_set_group gi gg2 cfg3 = Some cfg'"
    using assms(1,2) by (auto simp: sh_ShutdownServer_def Let_def option_bind_simps)
  have ne: "gg_servers gg \<noteq> []" "0 \<le> i" "nat i < length (gg_servers gg)" using assms(3) by (auto simp: slice_get_Some_iff)
  obtain row cfg0 mrow where r: "slice_get (gg_endnames gg) i = Some row" "disable_row (row_names row) [0..<length (gg_servers gg)] cfg = Some cfg0"
      "slice_get (gg_mendnames gg) i = Some mrow" "disable_row (row_names mrow) [0..<length (row_names mrow)] cfg0 = Some cfg1"
    using s(1) ne(1) by (auto simp: sh_disable_def option_bind_simps)
  note d = disable_row_effect [OF r(2)] disable_row_effect [OF r(4)]
  have c1: "sh_insts cfg1 = sh_insts cfg" using d by auto
  have c2: "gg1 = gg\<lparr>gg_saved := (gg_saved gg)[nat i := Some (Detached (persister (sk_rf (sh_insts cfg ! a))))]\<rparr>" "nat i < length (gg_saved gg)"
    using s(2) assms(4) c1 by (auto simp: sh_copy_def sh_content_def option_bind_simps slice_set_Some_iff slice_get_Some_iff Persister_Copy_def MakePersister_def)
  have k: "a < length (sh_insts cfg)" "gg2 = gg1\<lparr>gg_servers := (gg_servers gg)[nat i := None]\<rparr>"
      "sh_net cfg3 = DeleteServer (servername (gg_gid gg) i) (sh_net cfg1)" "sh_insts cfg3 = (sh_insts cfg)[a := ShardKV_Kill (sh_insts cfg ! a)]"
    using sh_kill_effect [OF s(3), of a] assms(3) c1 c2 by auto
  have f: "sh_net cfg' = DeleteServer (servername (gg_gid gg) i) (sh_net cfg1)" "sh_insts cfg' = sh_insts cfg3" "sh_group gi cfg' = Some gg2"
    using sh_set_group_sel [OF s(4)] sh_group_set [OF s(4), of gi] k by auto
  have off: "\<not> enabled (sh_net cfg1) e" if "e \<in> (!) (row_names row) ` {0..<length (gg_servers gg)} \<or> e \<in> (!) (row_names mrow) ` {0..<length (row_names mrow)}" for e
    using d that by auto
  have "\<not> enabled (sh_net cfg1) e" if "sh_endname cfg gi i j = Some e" "j < int (length (gg_servers gg))" for j e
    using that r(1) assms(2) by (intro off disjI1) (auto simp: sh_endname_def option_bind_simps row_names_def slice_get_Some_iff intro!: image_eqI [of _ _ "nat j"])
  moreover have "\<not> enabled (sh_net cfg1) e" if "sh_mendname cfg gi i j = Some e" for j e
    using that r(3) assms(2) by (intro off disjI2) (auto simp: sh_mendname_def option_bind_simps row_names_def slice_get_Some_iff intro!: image_eqI [of _ _ "nat j"])
  moreover have "slice_get (gg_servers gg2) i = Some None" "slice_get (gg_saved gg2) i = Some (Some (Detached (persister (sk_rf (sh_insts cfg ! a)))))"
    using ne c2 k(2) by (auto simp: slice_get_def)
  ultimately show ?thesis using f k(1,4) by (auto simp: attached_def DeleteServer_def)
qed

end
