(* ===== verification/Spec2Isabelle.thy ===== *)
theory Spec2Isabelle
  imports Bitset Drivers Mr_System Raft_Runs Kv_Locality Visualization Labgob Rand_Names Ctl_Harness Shardkv_Net
begin

text \<open>
  A verification of the Go programs under \<^verbatim>\<open>src/src\<close>: a MapReduce system, an implementation of the
  Raft consensus protocol, the linearizability checker Porcupine, the RPC simulator, encoder and
  clients that surround them, and the harnesses that run the servers on the simulator.

  \<^bold>\<open>Conventions.\<close>  Go code that can panic or end the process is a function into \<open>option\<close>, \<open>None\<close>
  being that end (\<open>Prelude\<close>: slices with bounds checks).  \<^verbatim>\<open>int\<close> is \<open>int\<close>; words are used where a width
  matters (the bit set, FNV, the \<^verbatim>\<open>uint8\<close> of the key/value model, the counters of the network).  A
  section of code under a mutex is one function on the state; goroutines interleave such sections.
  Values that a program does not determine (random numbers, the order of messages, the kill flag of
  another goroutine, the schedule of a \<^verbatim>\<open>select\<close>, an unstable sort) are arguments, so that theorems hold for
  all of them.  What a component promises to another one is a locale, interpreted on the model's
  own functions.

  \<^bold>\<open>MapReduce\<close> (\<^verbatim>\<open>mr/\<close>, \<^verbatim>\<open>main/\<close>, \<^verbatim>\<open>mrapps/\<close>).
  \<^item> \<open>Mr_Types\<close>, \<open>Coordinator\<close>: the records of \<^verbatim>\<open>rpc.go\<close> and \<^verbatim>\<open>utils.go\<close>, and every handler of
    \<^verbatim>\<open>coordinator.go\<close> on the record \<open>Coordinator\<close>; \<open>coord_step\<close> interleaves them.  An invariant holds in all
    runs and no handler panics; \<open>AssignTask\<close> is specified on every branch; a job that is done stays done.
  \<^item> \<open>Go_Strings\<close>, \<open>Worker\<close>: UTF-8, \<^verbatim>\<open>strings\<close> and JSON as far as they are used; map and reduce tasks with
    their files, the hash and its bounds, the worker's loop.
  \<^item> \<open>Sequential\<close>, \<open>Mr_Apps\<close>: the sequential program and the applications.
  \<^item> \<open>Mr_Timing\<close>: the applications that count the workers running at the same time by files in a directory, with
    \<^verbatim>\<open>fmt.Sscanf\<close> as far as it is used.  Processes create, scan and remove in any order and may die (\<open>np_reach\<close>); a scan
    always counts exactly the live processes that are between creating and removing.
  \<^item> \<open>Drivers\<close>: the \<^verbatim>\<open>main\<close> functions, with \<^verbatim>\<open>strconv\<close> as far as it is used and the loading of plugins.  The services that the
    later ones start are not in the repository and are arguments.  \<open>diskvd\<close> is specified by its list of flags.
  \<^item> \<open>Mr_System\<close>: coordinator, workers and files together (\<open>mr_step\<close>).  In every run in which no worker
    is declared dead, the output files are together what the sequential program writes; a round of
    the worker's loop is a sequence of such steps; a late report of a dead worker makes records count
    twice.

  \<^bold>\<open>Raft\<close> (\<^verbatim>\<open>raft/raft.go\<close>, \<^verbatim>\<open>raft/persister.go\<close>).
  \<^item> \<open>Persister\<close>: stored bytes as lists of encoded values, behind the interface \<open>stable_store\<close>.
  \<^item> \<open>Raft\<close>: every method of the record \<open>Raft\<close>, split where it releases the mutex.
  \<^item> \<open>Raft_Node\<close>: one peer with crashes and restarts (\<open>node_reach\<close>).  It votes once per term, its
    term never goes back, and a restart restores what was stored, in every reachable state.
  \<^item> \<open>Raft_Log\<close>: what \<^verbatim>\<open>AppendEntries\<close>, \<^verbatim>\<open>leaderApply\<close>, \<^verbatim>\<open>applyNewCommand\<close> and \<^verbatim>\<open>Snapshot\<close> do to the log, and
    the situations in which they panic, lose an entry or deliver commands twice.
  \<^item> \<open>Raft_Election\<close>: elections in a cluster with messages that are lost, delayed and repeated
    (\<open>cl_reach\<close>).  No two peers win the election of one term, yet two peers can lead in one term.
  \<^item> \<open>Raft_Cluster\<close>: the whole protocol in a cluster (\<open>sys_reach\<close>): to the elections come the goroutines that the code starts, the
    calls of \<^verbatim>\<open>AppendEntries\<close> and \<^verbatim>\<open>InstallSnapshot\<close> with their replies, commands, snapshots, and what is sent on \<^verbatim>\<open>applyCh\<close>, in any
    order, with losses and restarts.  Its steps are steps of the model of elections or of one peer.
  \<^item> \<open>Raft_Validity\<close>: an invariant of logs, files, calls and goroutines from which everything a peer hands to its
    service has been started by a client.
  \<^item> \<open>Raft_Runs\<close>: the properties of the cluster.  Two leaders of one term make two peers apply different commands at
    the same index, which the check of the harness notices.

  \<^bold>\<open>Porcupine\<close> (\<^verbatim>\<open>porcupine/\<close>, \<^verbatim>\<open>models/kv.go\<close>).
  \<^item> \<open>Bitset\<close>: the bit set on 64-bit words, an implementation of finite sets (\<open>finite_set_store\<close>).
  \<^item> \<open>Porcupine_Model\<close>, \<open>Entries\<close>: models and histories; \<open>lawful_model\<close> is what the search needs of a
    model, \<open>time_sort\<close> what it needs of \<^verbatim>\<open>sort.Sort\<close>.
  \<^item> \<open>Entry_List\<close>: the doubly linked list of calls and returns on a heap with one function per field;
    \<^verbatim>\<open>unlift\<close> undoes \<^verbatim>\<open>lift\<close> exactly.
  \<^item> \<open>Check_Single\<close>: the search, iteration by iteration, with its cache.  \<open>explore\<close> follows it through one
    configuration, by induction on the number of entries left and then on the calls not yet tried: it
    ends with the kill flag read, with a linearization, or back in the same configuration.
  \<^item> \<open>Linearizability\<close>: linearizability as an order of the operations, equivalent to the paths of the search.
  \<^item> \<open>Check_Parallel\<close>, \<open>Kv_Model\<close>, \<open>Porcupine\<close>: the goroutines of the partitions under all schedules, the
    exported functions, the key/value model.  The checker returns and is right, no verdict with a
    timeout is wrong, and a history without partitions blocks for ever.
  \<^item> \<open>Kv_Locality\<close>: checking each key alone, as the key/value model has it done, is the same as checking the
    whole history against one store of all keys; the linearizations of the keys are merged at their
    points in time.
  \<^item> \<open>Partial_Lin\<close>, \<open>Visualization\<close> (\<^verbatim>\<open>visualization.go\<close>): every partial linearization that the search reports is a
    legal run of the model, so the visualization replays it without its panic; \<open>size_sort\<close> is what it
    needs of \<^verbatim>\<open>sort.Slice\<close>.

  \<^bold>\<open>Surroundings.\<close>
  \<^item> \<open>Labrpc\<close> (\<^verbatim>\<open>labrpc/labrpc.go\<close>): the simulated network, servers and services.  A call that returns
    true was executed; on a reliable network a call to a live server returns true.  \<open>attached\<close> says that an
    end leads to a server.
  \<^item> \<open>Labgob\<close> (\<^verbatim>\<open>labgob/labgob.go\<close>): the checks of types and default values.
  \<^item> \<open>Clerks\<close>, \<open>Servers\<close> (\<^verbatim>\<open>kvraft/\<close>, \<^verbatim>\<open>shardctrler/\<close>, \<^verbatim>\<open>shardkv/\<close>): the retry loops of the clients, and the servers,
    whose handlers are empty in the repository; a client of the sharded store waits for ever on them.
  \<^item> \<open>Rand_Names\<close>: \<^verbatim>\<open>randstring\<close> and \<^verbatim>\<open>makeSeed\<close>, of which the packages have copies.  A name always has the length asked for, and two
    names are equal exactly when the first 15 bytes drawn for them are.

  \<^bold>\<open>Harnesses\<close> (\<^verbatim>\<open>config.go\<close> of four packages).  A pointer to a server is an address in the list of all that
  were ever started, since the source cannot stop an old one; the checks that look at the peers over
  time take the states they see as arguments.
  \<^item> \<open>Raft_Harness\<close>, \<open>Harness_Net\<close> (\<^verbatim>\<open>raft/config.go\<close>): attaching, crashing and starting peers, with the loops over
    the ends in closed form.  \<open>harness_reach\<close> are the states a test can reach while old and new instances
    go on: the tables stay well-formed, the network isolates exactly the peers that it should, and a
    restart loses nothing that was persisted.
  \<^item> \<open>Harness_Checks\<close>: the checks of applied commands, of leaders and terms, and of agreement, each with
    what its verdict means.
  \<^item> \<open>Kv_Harness\<close>, \<open>Kv_Partition\<close> (\<^verbatim>\<open>kvraft/config.go\<close>, \<^verbatim>\<open>shardctrler/config.go\<close>): clients and partitions, parametric in
    the servers.  A partition leaves exactly the ends within a side enabled, with the leader in the
    minority; the handles of a client are a permutation.
  \<^item> \<open>Ctl_Harness\<close> (\<^verbatim>\<open>shardctrler/config.go\<close>): the operations on shard controllers.  A new client reaches exactly the servers that
    it is connected to, through ends of its own.
  \<^item> \<open>Shardkv_Harness\<close>, \<open>Shardkv_Net\<close> (\<^verbatim>\<open>shardkv/config.go\<close>): controllers and groups on one network.  Every end leads
    to the server it was made for; a server that is shut down is cut off; three servers per group is the
    only size that works.

  \<^bold>\<open>Bounds and fuel.\<close>  Loops that may not end (the search, the length of a linked list, the retry loops)
  are partial functions, and their theorems say when they return.  \<open>checkType\<close> has fuel; as much as there
  are types not yet checked, plus one, is enough.  Everything else is structural or has a measure.
  A history for the checker has fewer than \<open>2 ^ 63\<close> entries, the largest length of a Go slice.

  \<^bold>\<open>Not modelled.\<close>  Sockets and the files of the operating system other than those the workers and the timing
  applications use (input and output); dynamic linking, of which \<open>Drivers\<close> has the interface; the text of the HTML
  page in \<^verbatim>\<open>porcupine/visualization.go\<close>, a constant; the output of \<^verbatim>\<open>log\<close>; random draws and
  the packages that the drivers import but the repository lacks, which are arguments; the tests.
\<close>

end
